(* ===== verification/Prelude.thy ===== *)
theory Prelude
  imports Complex_Main "HOL-Library.Word" "HOL-Library.AList"
begin

unbundle bit_operations_syntax

text \<open>
  Shared vocabulary of the development: machine integers at the width the Rust code
  declares, \<open>Result\<close> as a sum with the early return of the question mark operator, the
  bit-flag containment test of the \<open>bitflags\<close> crate, and the standard hash map as an
  association list whose order is the (unspecified) iteration order.  The generic
  lemmas declared here as \<open>[simp]\<close> or collected in \<open>map_simps\<close> and
  \<open>result_simps\<close> carry the proofs of the component theories.
\<close>

section \<open>Collections of facts\<close>

named_theorems map_simps \<open>lookups after updates of a hash map\<close>
named_theorems result_simps \<open>evaluation of results and early returns\<close>

section \<open>Machine integers\<close>

type_synonym u8 = "8 word"
type_synonym u32 = "32 word"
type_synonym u64 = "64 word"

text \<open>Rust's \<open>wrapping_add\<close> is the addition of words; \<open>saturating_add\<close> and
  \<open>saturating_sub\<close> stop at the bounds of the type.\<close>

definition saturating_add :: "'a::len word \<Rightarrow> 'a word \<Rightarrow> 'a word" where
  "saturating_add a b = (if unat a + unat b < 2 ^ LENGTH('a) then a + b else - 1)"

definition saturating_sub :: "'a::len word \<Rightarrow> 'a word \<Rightarrow> 'a word" where
  "saturating_sub a b = (if a < b then 0 else a - b)"

lemma unat_max_word: "unat (- 1 :: 'a::len word) = 2 ^ LENGTH('a) - 1"
  by (simp add: unsigned_minus_1_eq_mask mask_eq_exp_minus_1)

lemma unat_saturating_add:
  "unat (saturating_add a b) = min (unat a + unat b) (2 ^ LENGTH('a) - 1)"
  for a b :: "'a::len word"
proof (cases "unat a + unat b < 2 ^ LENGTH('a)")
  case True
  then show ?thesis
    by (simp add: saturating_add_def unat_word_ariths)
next
  case False
  then show ?thesis
    by (simp add: saturating_add_def unat_max_word)
qed

lemma unat_saturating_sub: "unat (saturating_sub a b) = unat a - unat b"
  by (simp add: saturating_sub_def unat_sub_if' word_less_nat_alt word_le_nat_alt)

lemma saturating_sub_le: "saturating_sub a b \<le> a"
  by (simp add: word_le_nat_alt unat_saturating_sub)

lemma saturating_add_zero [simp]: "saturating_add a 0 = a"
  by (simp add: saturating_add_def)

lemma saturating_sub_zero [simp]: "saturating_sub a 0 = a"
  by (simp add: saturating_sub_def)

lemma u64_add_one_neq [simp]: "(x :: 'a::len word) + 1 \<noteq> x"
  by simp

lemma unat_add_one: "(x :: 'a::len word) \<noteq> - 1 \<Longrightarrow> unat (x + 1) = Suc (unat x)"
  by (simp add: add.commute add_eq_0_iff unatSuc)

lemma word_less_add_one: "(x :: 'a::len word) \<noteq> - 1 \<Longrightarrow> x < x + 1"
  by (simp add: word_less_nat_alt unat_add_one)

lemma word_less_add_one_iff: "(x :: 'a::len word) \<noteq> - 1 \<Longrightarrow> y < x + 1 \<longleftrightarrow> y \<le> x"
  by (simp add: word_less_nat_alt word_le_nat_alt unat_add_one less_Suc_eq_le)

section \<open>Bit flags\<close>

text \<open>\<open>Flags::contains\<close> of the \<open>bitflags\<close> crate.\<close>

definition contains :: "u32 \<Rightarrow> u32 \<Rightarrow> bool" where
  "contains a b \<longleftrightarrow> a AND b = b"

lemma contains_refl [simp]: "contains a a"
  by (simp add: contains_def)

lemma contains_zero [simp]: "contains a 0"
  by (simp add: contains_def)

lemma contains_iff_bits: "contains a b \<longleftrightarrow> (\<forall>n. bit b n \<longrightarrow> bit a n)"
proof -
  have "n < 32" if "bit b n" for n
    using bit_imp_le_length [OF that] by simp
  then show ?thesis
    by (auto simp: contains_def bit_eq_iff bit_and_iff)
qed

lemma contains_trans: "contains a b \<Longrightarrow> contains b c \<Longrightarrow> contains a c"
  by (simp add: contains_iff_bits)

lemma contains_antisym: "contains a b \<Longrightarrow> contains b a \<Longrightarrow> a = b"
  by (auto simp: contains_iff_bits intro: bit_word_eqI)

section \<open>Results\<close>

text \<open>A Rust \<open>Result\<close> is a sum with the error on the left.  \<open>guard\<close> is the check that
  returns early with an error.\<close>

type_synonym ('e, 'a) result = "'e + 'a"

definition is_ok :: "('e, 'a) result \<Rightarrow> bool" where
  "is_ok r = (case r of Inl _ \<Rightarrow> False | Inr _ \<Rightarrow> True)"

definition map_err :: "('e \<Rightarrow> 'f) \<Rightarrow> ('e, 'a) result \<Rightarrow> ('f, 'a) result" where
  "map_err f r = (case r of Inl e \<Rightarrow> Inl (f e) | Inr a \<Rightarrow> Inr a)"

definition ok_or :: "'e \<Rightarrow> 'a option \<Rightarrow> ('e, 'a) result" where
  "ok_or e x = (case x of None \<Rightarrow> Inl e | Some a \<Rightarrow> Inr a)"

definition and_then :: "('e, 'a) result \<Rightarrow> ('a \<Rightarrow> ('e, 'b) result) \<Rightarrow> ('e, 'b) result" where
  "and_then r f = (case r of Inl e \<Rightarrow> Inl e | Inr a \<Rightarrow> f a)"

lemma is_ok_simps [simp, result_simps]:
  "is_ok (Inr a)" "\<not> is_ok (Inl e)"
  by (simp_all add: is_ok_def)

lemma is_ok_iff: "is_ok r \<longleftrightarrow> (\<exists>a. r = Inr a)"
  by (cases r) simp_all

lemma map_err_simps [simp, result_simps]:
  "map_err f (Inl e) = Inl (f e)" "map_err f (Inr a) = Inr a"
  by (simp_all add: map_err_def)

lemma map_err_Inr_iff [simp]: "map_err f r = Inr a \<longleftrightarrow> r = Inr a"
  by (cases r) simp_all

lemma ok_or_simps [simp, result_simps]:
  "ok_or e None = Inl e" "ok_or e (Some a) = Inr a"
  by (simp_all add: ok_or_def)

lemma ok_or_Inr_iff [simp]: "ok_or e x = Inr a \<longleftrightarrow> x = Some a"
  by (cases x) simp_all

lemma and_then_simps [simp, result_simps]:
  "and_then (Inl e) f = Inl e" "and_then (Inr a) f = f a"
  by (simp_all add: and_then_def)

lemma and_then_Inr_iff: "and_then r f = Inr b \<longleftrightarrow> (\<exists>a. r = Inr a \<and> f a = Inr b)"
  by (cases r) simp_all

section \<open>Hash maps\<close>

text \<open>
  The standard \<open>HashMap\<close> as a list of entries with distinct keys.  The order of the list
  stands for the iteration order, which the standard library leaves open, so a theorem
  that holds for every such list holds for every iteration order.
\<close>

type_synonym ('k, 'v) hashmap = "('k \<times> 'v) list"

abbreviation hm_get :: "('k, 'v) hashmap \<Rightarrow> 'k \<Rightarrow> 'v option" where
  "hm_get m k \<equiv> map_of m k"

abbreviation hm_insert :: "'k \<Rightarrow> 'v \<Rightarrow> ('k, 'v) hashmap \<Rightarrow> ('k, 'v) hashmap" where
  "hm_insert k v m \<equiv> AList.update k v m"

abbreviation hm_remove :: "'k \<Rightarrow> ('k, 'v) hashmap \<Rightarrow> ('k, 'v) hashmap" where
  "hm_remove k m \<equiv> AList.delete k m"

abbreviation hm_contains_key :: "('k, 'v) hashmap \<Rightarrow> 'k \<Rightarrow> bool" where
  "hm_contains_key m k \<equiv> map_of m k \<noteq> None"

abbreviation hm_wf :: "('k, 'v) hashmap \<Rightarrow> bool" where
  "hm_wf m \<equiv> distinct (map fst m)"

definition hm_modify :: "'k \<Rightarrow> ('v \<Rightarrow> 'v) \<Rightarrow> ('k, 'v) hashmap \<Rightarrow> ('k, 'v) hashmap" where
  "hm_modify k f m = (case hm_get m k of None \<Rightarrow> m | Some v \<Rightarrow> hm_insert k (f v) m)"

definition hm_retain :: "('k \<Rightarrow> 'v \<Rightarrow> bool) \<Rightarrow> ('k, 'v) hashmap \<Rightarrow> ('k, 'v) hashmap" where
  "hm_retain P m = filter (\<lambda>(k, v). P k v) m"

definition hm_values :: "('k, 'v) hashmap \<Rightarrow> 'v list" where
  "hm_values m = map snd m"

definition hm_map_values :: "('v \<Rightarrow> 'w) \<Rightarrow> ('k, 'v) hashmap \<Rightarrow> ('k, 'w) hashmap" where
  "hm_map_values f m = map (\<lambda>(k, v). (k, f v)) m"

text \<open>Lookups stay lookups: the library would turn them into membership of the list.\<close>

declare map_of_eq_Some_iff [simp del] Some_eq_map_of_iff [simp del]

lemmas hm_insert_get [simp, map_simps] = update_conv'
lemmas hm_remove_get [simp, map_simps] = delete_conv'
lemmas hm_wf_insert [simp, intro] = distinct_update
lemmas hm_wf_remove [simp, intro] = distinct_delete

lemma hm_modify_get [simp, map_simps]:
  "hm_get (hm_modify k f m) j = (if j = k then map_option f (hm_get m k) else hm_get m j)"
  by (auto simp: hm_modify_def split: option.splits)

lemma hm_wf_modify [simp, intro]: "hm_wf m \<Longrightarrow> hm_wf (hm_modify k f m)"
  by (auto simp: hm_modify_def split: option.splits)

lemma hm_modify_keys: "fst ` set (hm_modify k f m) = fst ` set m"
proof -
  have "hm_get m k = Some v \<Longrightarrow> k \<in> fst ` set m" for v
    by (metis dom_map_of_conv_image_fst domI)
  then show ?thesis
    by (auto simp: hm_modify_def dom_update insert_absorb split: option.splits)
qed

lemma hm_wf_retain [simp, intro]: "hm_wf m \<Longrightarrow> hm_wf (hm_retain P m)"
  unfolding hm_retain_def by (induction m) auto

lemma hm_retain_get [map_simps]:
  assumes "hm_wf m"
  shows "hm_get (hm_retain P m) k =
    (case hm_get m k of None \<Rightarrow> None | Some v \<Rightarrow> if P k v then Some v else None)"
  using assms
proof (induction m)
  case Nil
  then show ?case by (simp add: hm_retain_def)
next
  case (Cons e m)
  obtain k' v' where e: "e = (k', v')" by (cases e)
  have "hm_get (hm_retain P m) k' = None"
    using Cons.prems
    by (auto simp: e hm_retain_def map_of_eq_None_iff)
  with Cons show ?case
    by (auto simp: e hm_retain_def)
qed

lemma hm_map_values_get [simp, map_simps]:
  "hm_get (hm_map_values f m) k = map_option f (hm_get m k)"
  unfolding hm_map_values_def by (induction m) auto

lemma hm_map_values_keys [simp]: "map fst (hm_map_values f m) = map fst m"
  unfolding hm_map_values_def by (induction m) auto

lemma length_hm_map_values [simp]: "length (hm_map_values f m) = length m"
  by (simp add: hm_map_values_def)

lemma hm_get_mem: "hm_get m k = Some v \<Longrightarrow> (k, v) \<in> set m"
  by (rule map_of_SomeD)

lemma hm_mem_get: "hm_wf m \<Longrightarrow> (k, v) \<in> set m \<longleftrightarrow> hm_get m k = Some v"
  by (simp add: map_of_eq_Some_iff)

lemma hm_get_None_iff: "hm_get m k = None \<longleftrightarrow> k \<notin> fst ` set m"
  by (rule map_of_eq_None_iff)

lemma set_hm_values: "hm_wf m \<Longrightarrow> set (hm_values m) = {v. \<exists>k. hm_get m k = Some v}"
  by (force simp: hm_values_def hm_mem_get [symmetric])

subsection \<open>The interface of a key-value map\<close>

text \<open>
  What a client of a map relies on, in the shape of a map specification: lookups after
  every update, and a well-formedness predicate every update keeps.
\<close>

locale key_value_map =
  fixes empty :: "'m"
    and insert :: "'k \<Rightarrow> 'v \<Rightarrow> 'm \<Rightarrow> 'm"
    and remove :: "'k \<Rightarrow> 'm \<Rightarrow> 'm"
    and lookup :: "'m \<Rightarrow> 'k \<Rightarrow> 'v option"
    and invar :: "'m \<Rightarrow> bool"
  assumes lookup_empty: "lookup empty k = None"
    and lookup_insert: "invar m \<Longrightarrow> lookup (insert k v m) j = (if j = k then Some v else lookup m j)"
    and lookup_remove: "invar m \<Longrightarrow> lookup (remove k m) j = (if j = k then None else lookup m j)"
    and invar_empty: "invar empty"
    and invar_insert: "invar m \<Longrightarrow> invar (insert k v m)"
    and invar_remove: "invar m \<Longrightarrow> invar (remove k m)"
begin

text \<open>Loading a list of updates into a map: the last update of a key wins.\<close>

lemma load_invar: "invar m \<Longrightarrow> invar (fold (\<lambda>(k, v). insert k v) kvs m)"
  by (induction kvs arbitrary: m) (auto simp: invar_insert)

lemma load_lookup:
  "invar m \<Longrightarrow> lookup (fold (\<lambda>(k, v). insert k v) kvs m) j =
    (case map_of (rev kvs) j of Some v \<Rightarrow> Some v | None \<Rightarrow> lookup m j)"
proof (induction kvs arbitrary: m)
  case Nil
  then show ?case by simp
next
  case (Cons e kvs)
  obtain k v where e: "e = (k, v)" by (cases e)
  from Cons show ?case
    by (auto simp: e lookup_insert invar_insert map_of_append map_add_def split: option.splits)
qed

lemma insert_then_remove:
  "invar m \<Longrightarrow> lookup (remove k (insert k v m)) = lookup (remove k m)"
  by (auto simp: lookup_insert lookup_remove invar_insert)

end

interpretation hm: key_value_map "[]" AList.update AList.delete map_of hm_wf
  by unfold_locales auto

section \<open>Positions in lists\<close>

text \<open>\<open>Iterator::position\<close>: the index of the first element that satisfies the test.\<close>

fun position :: "('a \<Rightarrow> bool) \<Rightarrow> 'a list \<Rightarrow> nat option" where
  "position P [] = None"
| "position P (x # xs) = (if P x then Some 0 else map_option Suc (position P xs))"

lemma position_Some: "position P xs = Some i \<Longrightarrow> i < length xs \<and> P (xs ! i)"
proof (induction xs arbitrary: i)
  case Nil
  then show ?case by simp
next
  case (Cons x xs)
  show ?case
  proof (cases "P x")
    case True
    with Cons.prems show ?thesis by simp
  next
    case False
    with Cons.prems obtain j where "position P xs = Some j" "i = Suc j" by auto
    with Cons.IH show ?thesis by simp
  qed
qed

lemma position_None: "position P xs = None \<longleftrightarrow> (\<forall>x \<in> set xs. \<not> P x)"
  by (induction xs) auto

lemma distinct_iff_sorted_wrt: "distinct xs \<longleftrightarrow> sorted_wrt (\<noteq>) xs"
  by (induction xs) auto

subsection \<open>Sums over a hash map\<close>

definition hm_sum :: "('v \<Rightarrow> nat) \<Rightarrow> ('k, 'v) hashmap \<Rightarrow> nat" where
  "hm_sum f m = sum_list (map f (hm_values m))"

lemma hm_sum_Nil [simp]: "hm_sum f [] = 0"
  by (simp add: hm_sum_def hm_values_def)

lemma hm_sum_Cons [simp]: "hm_sum f ((k, v) # m) = f v + hm_sum f m"
  by (simp add: hm_sum_def hm_values_def)

lemma hm_sum_insert_new: "hm_get m k = None \<Longrightarrow> hm_sum f (hm_insert k v m) = hm_sum f m + f v"
  by (induction m) (auto split: if_splits)

lemma hm_sum_insert:
  "hm_get m k = Some w \<Longrightarrow> hm_sum f (hm_insert k v m) + f w = hm_sum f m + f v"
  by (induction m) (auto split: if_splits)

lemma hm_remove_new: "hm_get m k = None \<Longrightarrow> hm_remove k m = m"
  by (induction m) (auto simp: AList.delete_eq split: if_splits)

lemma hm_sum_remove:
  assumes "hm_wf m" "hm_get m k = Some w"
  shows "hm_sum f (hm_remove k m) + f w = hm_sum f m"
  using assms
proof (induction m)
  case Nil
  then show ?case by simp
next
  case (Cons a m)
  obtain k' v where a: "a = (k', v)" by (cases a)
  show ?case
  proof (cases "k' = k")
    case True
    with Cons.prems a have "hm_get m k = None" "v = w" by (auto simp: hm_get_None_iff)
    with True a show ?thesis by (simp add: hm_remove_new)
  next
    case False
    with Cons a show ?thesis by (simp add: AList.delete_eq)
  qed
qed

lemma hm_sum_member:
  "hm_get m k = Some v \<Longrightarrow> f v \<le> hm_sum f m"
  by (induction m) (auto split: if_splits)

lemma hm_sum_mono: "(\<And>v. f v \<le> g v) \<Longrightarrow> hm_sum f m \<le> hm_sum g m"
  by (simp add: hm_sum_def sum_list_mono)

section \<open>Minima of lists\<close>

text \<open>\<open>Iterator::min_by_key\<close>: the first of the smallest elements.\<close>

fun min_by_key :: "('a \<Rightarrow> 'b::linorder) \<Rightarrow> 'a list \<Rightarrow> 'a option" where
  "min_by_key f [] = None"
| "min_by_key f (x # xs) =
     (case min_by_key f xs of
        None \<Rightarrow> Some x
      | Some y \<Rightarrow> if f y < f x then Some y else Some x)"

lemma min_by_key_None [simp]: "min_by_key f xs = None \<longleftrightarrow> xs = []"
  by (cases xs) (auto split: option.splits)

lemma min_by_key_Some:
  "min_by_key f xs = Some x \<Longrightarrow> x \<in> set xs \<and> (\<forall>y \<in> set xs. f x \<le> f y)"
proof (induction xs arbitrary: x)
  case Nil
  then show ?case by simp
next
  case (Cons a xs)
  show ?case
  proof (cases "min_by_key f xs")
    case None
    with Cons.prems show ?thesis by simp
  next
    case (Some y)
    with Cons.IH [OF Some] Cons.prems show ?thesis by (auto split: if_splits)
  qed
qed

section \<open>Decimal text\<close>

text \<open>An unsigned integer as \<open>Display\<close> prints it.\<close>

fun show_nat :: "nat \<Rightarrow> string" where
  "show_nat n =
     (if n < 10 then [char_of (48 + n)] else show_nat (n div 10) @ [char_of (48 + n mod 10)])"

declare show_nat.simps [simp del]

end
