(* ===== verification/Capability.thy ===== *)
theory Capability
  imports Prelude
begin

text \<open>
  The capability security core, \<open>crates/hyperion-capability\<close>: identities, rights and
  faults (\<open>types.rs\<close>), tokens (\<open>token.rs\<close>), the revocation graph
  (\<open>revocation.rs\<close>), per-boundary capability tables (\<open>table.rs\<close>) and the
  capability monitor that mints, derives, revokes and checks tokens (\<open>monitor.rs\<close>).
  Wire tokens are in the theory \<open>Wire_Token\<close>.

  A clock reading of the source is an argument of the definition that makes it.  The
  process-wide token counter \<open>NEXT\<close> is threaded explicitly, because all monitors of a
  process draw from it.
\<close>

section \<open>Identities, rights and faults\<close>

type_synonym object_id = u64
type_synonym trust_boundary_id = u64
type_synonym token_id = u64

text \<open>An \<open>Instant\<close> is a reading of the monotonic clock and a \<open>Duration\<close> a length of time,
  both in nanoseconds.\<close>

type_synonym instant = nat
type_synonym duration = nat

definition READ :: u32 where "READ = 1"
definition WRITE :: u32 where "WRITE = 2"
definition MAP :: u32 where "MAP = 4"
definition EXEC :: u32 where "EXEC = 8"
definition GRANT :: u32 where "GRANT = 16"
definition REVOKE :: u32 where "REVOKE = 32"

lemmas rights_defs = READ_def WRITE_def MAP_def EXEC_def GRANT_def REVOKE_def

definition all_rights :: u32 where
  "all_rights = READ OR WRITE OR MAP OR EXEC OR GRANT OR REVOKE"

datatype Fault =
    NoSuchCapability
  | Revoked
  | Expired
  | InsufficientRights
  | CannotEscalate
  | SignatureInvalid

text \<open>\<open>TokenId::next\<close>: the value of the atomic counter, which \<open>fetch_add\<close> advances with
  wrap-around.\<close>

definition token_id_next :: "u64 \<Rightarrow> token_id \<times> u64" where
  "token_id_next NEXT = (NEXT, NEXT + 1)"

fun min_expiry :: "instant option \<Rightarrow> instant option \<Rightarrow> instant option" where
  "min_expiry (Some a) (Some b) = Some (min a b)"
| "min_expiry (Some a) None = Some a"
| "min_expiry None (Some b) = Some b"
| "min_expiry None None = None"

section \<open>Tokens\<close>

record capability_token =
  ct_token_id :: token_id
  ct_object_id :: object_id
  ct_rights :: u32
  ct_generation :: u64
  ct_origin :: trust_boundary_id
  ct_expiry :: "instant option"

definition from_wire_parts ::
    "token_id \<Rightarrow> object_id \<Rightarrow> u32 \<Rightarrow> u64 \<Rightarrow> trust_boundary_id \<Rightarrow> instant option
     \<Rightarrow> capability_token" where
  "from_wire_parts token_id object_id rights generation origin expiry =
     \<lparr>ct_token_id = token_id, ct_object_id = object_id, ct_rights = rights,
      ct_generation = generation, ct_origin = origin, ct_expiry = expiry\<rparr>"

definition is_expired :: "capability_token \<Rightarrow> instant \<Rightarrow> bool" where
  "is_expired t now = (case ct_expiry t of None \<Rightarrow> False | Some e \<Rightarrow> e < now)"

section \<open>The revocation graph\<close>

record revocation_node =
  rn_parent :: "token_id option"
  rn_children :: "token_id list"
  rn_live_generation :: u64
  rn_object_id :: object_id
  rn_rights :: u32

type_synonym revocation_graph = "(token_id, revocation_node) hashmap"

record revocation_receipt =
  rr_revoked :: token_id
  rr_descendants_invalidated :: nat

definition insert_root ::
    "token_id \<Rightarrow> object_id \<Rightarrow> u32 \<Rightarrow> revocation_graph \<Rightarrow> revocation_graph" where
  "insert_root tid object_id rights nodes =
     hm_insert tid \<lparr>rn_parent = None, rn_children = [], rn_live_generation = 0,
                   rn_object_id = object_id, rn_rights = rights\<rparr> nodes"

definition insert_child ::
    "token_id \<Rightarrow> token_id \<Rightarrow> object_id \<Rightarrow> u32 \<Rightarrow> revocation_graph \<Rightarrow> revocation_graph" where
  "insert_child parent child object_id rights nodes =
     hm_insert child \<lparr>rn_parent = Some parent, rn_children = [], rn_live_generation = 0,
                      rn_object_id = object_id, rn_rights = rights\<rparr>
       (hm_modify parent (\<lambda>n. n\<lparr>rn_children := rn_children n @ [child]\<rparr>) nodes)"

definition live_generation :: "revocation_graph \<Rightarrow> token_id \<Rightarrow> u64 option" where
  "live_generation nodes tid = map_option rn_live_generation (hm_get nodes tid)"

definition matches_record ::
    "revocation_graph \<Rightarrow> token_id \<Rightarrow> object_id \<Rightarrow> u32 \<Rightarrow> bool" where
  "matches_record nodes tid object_id rights =
     (case hm_get nodes tid of
        None \<Rightarrow> False
      | Some n \<Rightarrow> rn_object_id n = object_id \<and> rn_rights n = rights)"

definition graph_parent_of :: "revocation_graph \<Rightarrow> token_id \<Rightarrow> token_id option" where
  "graph_parent_of nodes tid = Option.bind (hm_get nodes tid) rn_parent"

text \<open>
  The loop of \<open>RevocationGraph::revoke\<close>.  The stack is a vector popped at its end: the
  head of the list is its top, so the children, appended in order, come back in reverse.
  A graph with a cycle would keep the loop running, hence the option: \<open>None\<close> is a loop
  that does not end.
\<close>

definition bump :: "revocation_node \<Rightarrow> revocation_node" where
  "bump n = n\<lparr>rn_live_generation := rn_live_generation n + 1\<rparr>"

partial_function (option) revoke_loop ::
    "revocation_graph \<Rightarrow> token_id list \<Rightarrow> nat \<Rightarrow> bool \<Rightarrow> (revocation_graph \<times> nat) option" where
  "revoke_loop nodes stack descendants first =
     (case stack of
        [] \<Rightarrow> Some (nodes, descendants)
      | node_id # rest \<Rightarrow>
          (case hm_get nodes node_id of
             None \<Rightarrow> revoke_loop nodes rest descendants first
           | Some node \<Rightarrow>
               revoke_loop (hm_insert node_id (bump node) nodes) (rev (rn_children node) @ rest)
                 (if first then descendants else descendants + 1) False))"

definition graph_revoke ::
    "revocation_graph \<Rightarrow> token_id \<Rightarrow> (revocation_graph \<times> revocation_receipt) option" where
  "graph_revoke nodes tid =
     map_option (\<lambda>(nodes', d). (nodes', \<lparr>rr_revoked = tid, rr_descendants_invalidated = d\<rparr>))
       (revoke_loop nodes [tid] 0 True)"

section \<open>Capability tables\<close>

record capability_table =
  tbl_slots :: "capability_token option list"
  tbl_boundary :: trust_boundary_id
  tbl_parent :: "trust_boundary_id option"

definition table_new :: "trust_boundary_id \<Rightarrow> trust_boundary_id option \<Rightarrow> capability_table" where
  "table_new boundary parent = \<lparr>tbl_slots = [], tbl_boundary = boundary, tbl_parent = parent\<rparr>"

definition table_insert :: "capability_token \<Rightarrow> capability_table \<Rightarrow> capability_table \<times> nat" where
  "table_insert token tbl =
     (case position (\<lambda>s. s = None) (tbl_slots tbl) of
        Some i \<Rightarrow> (tbl\<lparr>tbl_slots := (tbl_slots tbl)[i := Some token]\<rparr>, i)
      | None \<Rightarrow> (tbl\<lparr>tbl_slots := tbl_slots tbl @ [Some token]\<rparr>, length (tbl_slots tbl)))"

definition table_get :: "capability_table \<Rightarrow> nat \<Rightarrow> capability_token option" where
  "table_get tbl slot = (if slot < length (tbl_slots tbl) then tbl_slots tbl ! slot else None)"

definition table_remove ::
    "nat \<Rightarrow> capability_table \<Rightarrow> capability_table \<times> capability_token option" where
  "table_remove slot tbl =
     (if slot < length (tbl_slots tbl)
      then (tbl\<lparr>tbl_slots := (tbl_slots tbl)[slot := None]\<rparr>, tbl_slots tbl ! slot)
      else (tbl, None))"

definition table_len :: "capability_table \<Rightarrow> nat" where
  "table_len tbl = length (filter (\<lambda>s. s \<noteq> None) (tbl_slots tbl))"

definition table_is_empty :: "capability_table \<Rightarrow> bool" where
  "table_is_empty tbl \<longleftrightarrow> table_len tbl = 0"

section \<open>The capability monitor\<close>

record capability_monitor =
  cm_graph :: revocation_graph
  cm_next_object_id :: u64

definition monitor_new :: capability_monitor where
  "monitor_new = \<lparr>cm_graph = [], cm_next_object_id = 0\<rparr>"

definition new_object :: "capability_monitor \<Rightarrow> object_id \<times> capability_monitor" where
  "new_object m = (cm_next_object_id m, m\<lparr>cm_next_object_id := cm_next_object_id m + 1\<rparr>)"

definition mint_root ::
    "u64 \<Rightarrow> capability_monitor \<Rightarrow> u32 \<Rightarrow> trust_boundary_id \<Rightarrow> duration option \<Rightarrow> instant
     \<Rightarrow> capability_token \<times> u64 \<times> capability_monitor" where
  "mint_root NEXT m rights origin ttl now =
     (let (object_id, m1) = new_object m;
          (token_id, NEXT') = token_id_next NEXT
      in (\<lparr>ct_token_id = token_id, ct_object_id = object_id, ct_rights = rights,
           ct_generation = 0, ct_origin = origin, ct_expiry = map_option (\<lambda>d. now + d) ttl\<rparr>,
          NEXT',
          m1\<lparr>cm_graph := insert_root token_id object_id rights (cm_graph m1)\<rparr>))"

definition check_live ::
    "capability_monitor \<Rightarrow> capability_token \<Rightarrow> instant \<Rightarrow> (Fault, unit) result" where
  "check_live m t now =
     (if \<not> matches_record (cm_graph m) (ct_token_id t) (ct_object_id t) (ct_rights t)
      then Inl NoSuchCapability
      else case live_generation (cm_graph m) (ct_token_id t) of
             None \<Rightarrow> Inl NoSuchCapability
           | Some live \<Rightarrow>
               if live \<noteq> ct_generation t then Inl Revoked
               else if is_expired t now then Inl Expired
               else Inr ())"

definition cap_derive ::
    "u64 \<Rightarrow> capability_monitor \<Rightarrow> capability_token \<Rightarrow> u32 \<Rightarrow> duration option
     \<Rightarrow> trust_boundary_id \<Rightarrow> instant \<Rightarrow> instant
     \<Rightarrow> (Fault, capability_token) result \<times> u64 \<times> capability_monitor" where
  "cap_derive NEXT m parent rights ttl new_origin now now' =
     (case check_live m parent now of
        Inl e \<Rightarrow> (Inl e, NEXT, m)
      | Inr _ \<Rightarrow>
          if \<not> contains (ct_rights parent) rights then (Inl CannotEscalate, NEXT, m)
          else
            (let (child_id, NEXT') = token_id_next NEXT;
                 m' = m\<lparr>cm_graph := insert_child (ct_token_id parent) child_id
                                      (ct_object_id parent) rights (cm_graph m)\<rparr>;
                 requested_expiry = map_option (\<lambda>d. now' + d) ttl
             in (Inr \<lparr>ct_token_id = child_id, ct_object_id = ct_object_id parent,
                      ct_rights = rights, ct_generation = 0, ct_origin = new_origin,
                      ct_expiry = min_expiry (ct_expiry parent) requested_expiry\<rparr>,
                 NEXT', m')))"

definition cap_revoke ::
    "capability_monitor \<Rightarrow> capability_token \<Rightarrow> (capability_monitor \<times> revocation_receipt) option" where
  "cap_revoke m t =
     map_option (\<lambda>(g, r). (m\<lparr>cm_graph := g\<rparr>, r)) (graph_revoke (cm_graph m) (ct_token_id t))"

definition monitor_parent_of :: "capability_monitor \<Rightarrow> capability_token \<Rightarrow> token_id option" where
  "monitor_parent_of m t = graph_parent_of (cm_graph m) (ct_token_id t)"

definition is_live :: "capability_monitor \<Rightarrow> capability_token \<Rightarrow> instant \<Rightarrow> bool" where
  "is_live m t now \<longleftrightarrow>
     matches_record (cm_graph m) (ct_token_id t) (ct_object_id t) (ct_rights t)
     \<and> live_generation (cm_graph m) (ct_token_id t) = Some (ct_generation t)
     \<and> \<not> is_expired t now"

definition check_rights_ok_result ::
    "capability_monitor \<Rightarrow> capability_token \<Rightarrow> u32 \<Rightarrow> instant \<Rightarrow> (Fault, unit) result" where
  "check_rights_ok_result m t required now =
     (case check_live m t now of
        Inl e \<Rightarrow> Inl e
      | Inr _ \<Rightarrow> if \<not> contains (ct_rights t) required then Inl InsufficientRights else Inr ())"

definition check_rights_ok ::
    "capability_monitor \<Rightarrow> capability_token \<Rightarrow> u32 \<Rightarrow> instant \<Rightarrow> bool" where
  "check_rights_ok m t required now = is_ok (check_rights_ok_result m t required now)"

definition check ::
    "capability_monitor \<Rightarrow> capability_table \<Rightarrow> nat \<Rightarrow> u32 \<Rightarrow> instant
     \<Rightarrow> (Fault, capability_token) result" where
  "check m tbl slot required now =
     (case table_get tbl slot of
        None \<Rightarrow> Inl NoSuchCapability
      | Some t \<Rightarrow>
          (case check_live m t now of
             Inl e \<Rightarrow> Inl e
           | Inr _ \<Rightarrow>
               if \<not> contains (ct_rights t) required then Inl InsufficientRights else Inr t))"

definition cap_invoke ::
    "capability_monitor \<Rightarrow> capability_table \<Rightarrow> nat \<Rightarrow> u32 \<Rightarrow> instant
     \<Rightarrow> (capability_token \<Rightarrow> 'r) \<Rightarrow> (Fault, 'r) result" where
  "cap_invoke m tbl slot required now dispatch =
     (case check m tbl slot required now of Inl e \<Rightarrow> Inl e | Inr t \<Rightarrow> Inr (dispatch t))"

section \<open>Well-formed delegation graphs\<close>

text \<open>
  The arena is meant to be a forest: a child is recorded under exactly one parent, after it
  (token identities grow), and carries the object of its parent with no more rights.
\<close>

definition children_of :: "revocation_graph \<Rightarrow> token_id \<Rightarrow> token_id list" where
  "children_of g p = (case hm_get g p of None \<Rightarrow> [] | Some n \<Rightarrow> rn_children n)"

definition delegation :: "revocation_graph \<Rightarrow> (token_id \<times> token_id) set" where
  "delegation g = {(p, c). c \<in> set (children_of g p)}"

definition subtree :: "revocation_graph \<Rightarrow> token_id \<Rightarrow> token_id set" where
  "subtree g x = {y. (x, y) \<in> (delegation g)\<^sup>*}"

definition forest :: "revocation_graph \<Rightarrow> bool" where
  "forest g \<longleftrightarrow>
     (\<forall>p. distinct (children_of g p))
     \<and> (\<forall>p c. c \<in> set (children_of g p) \<longrightarrow> p < c)
     \<and> (\<forall>p c. c \<in> set (children_of g p) \<longrightarrow>
          (\<exists>n. hm_get g c = Some n \<and> rn_parent n = Some p))"

definition attenuated :: "revocation_graph \<Rightarrow> bool" where
  "attenuated g \<longleftrightarrow>
     (\<forall>c n p. hm_get g c = Some n \<and> rn_parent n = Some p \<longrightarrow>
        (\<exists>np. hm_get g p = Some np \<and> c \<in> set (rn_children np)
              \<and> rn_object_id n = rn_object_id np \<and> contains (rn_rights np) (rn_rights n)))"

definition graph_wf :: "u64 \<Rightarrow> revocation_graph \<Rightarrow> bool" where
  "graph_wf NEXT g \<longleftrightarrow>
     hm_wf g \<and> forest g \<and> attenuated g \<and> (\<forall>i. hm_get g i \<noteq> None \<longrightarrow> i < NEXT)"

abbreviation monitor_wf :: "u64 \<Rightarrow> capability_monitor \<Rightarrow> bool" where
  "monitor_wf NEXT m \<equiv> graph_wf NEXT (cm_graph m)"

section \<open>Subtrees of a forest\<close>

lemma forestD:
  assumes "forest g" "c \<in> set (children_of g p)"
  shows forest_less: "p < c"
    and forest_dom: "hm_get g c \<noteq> None"
    and forest_parent: "\<exists>n. hm_get g c = Some n \<and> rn_parent n = Some p"
  using assms unfolding forest_def by blast+

lemma forest_unique_parent:
  assumes "forest g" "c \<in> set (children_of g p)" "c \<in> set (children_of g q)"
  shows "p = q"
  using forest_parent [OF assms(1,2)] forest_parent [OF assms(1,3)] by auto

lemma subtree_refl [simp]: "x \<in> subtree g x"
  by (simp add: subtree_def)

lemma subtree_unfold: "subtree g x = insert x (\<Union>c \<in> set (children_of g x). subtree g c)"
proof (rule set_eqI)
  fix y
  show "y \<in> subtree g x \<longleftrightarrow> y \<in> insert x (\<Union>c \<in> set (children_of g x). subtree g c)"
    unfolding subtree_def
    by (auto simp: delegation_def elim: converse_rtranclE intro: converse_rtrancl_into_rtrancl)
qed

lemma subtree_ge:
  assumes "forest g" "y \<in> subtree g x"
  shows "x \<le> y"
proof -
  from assms(2) have "(x, y) \<in> (delegation g)\<^sup>*" by (simp add: subtree_def)
  then show ?thesis
    by (induction rule: rtrancl_induct)
       (auto simp: delegation_def dest: forest_less [OF assms(1)])
qed

lemma subtree_child_less:
  assumes "forest g" "c \<in> set (children_of g p)" "y \<in> subtree g c"
  shows "p < y"
  using forest_less [OF assms(1,2)] subtree_ge [OF assms(1,3)] by simp

lemma subtree_dom:
  assumes "forest g" "hm_get g x \<noteq> None"
  shows "subtree g x \<subseteq> {y. hm_get g y \<noteq> None}"
proof
  fix y
  assume "y \<in> subtree g x"
  then have "(x, y) \<in> (delegation g)\<^sup>*" by (simp add: subtree_def)
  then show "y \<in> {y. hm_get g y \<noteq> None}"
  proof (induction rule: rtrancl_induct)
    case base
    then show ?case using assms(2) by simp
  next
    case (step y z)
    then show ?case using forest_dom [OF assms(1)] by (simp add: delegation_def)
  qed
qed

lemma finite_subtree: "forest g \<Longrightarrow> hm_get g x \<noteq> None \<Longrightarrow> finite (subtree g x)"
proof -
  assume "forest g" "hm_get g x \<noteq> None"
  then have "subtree g x \<subseteq> {y. hm_get g y \<noteq> None}" by (rule subtree_dom)
  moreover have "finite {y. hm_get g y \<noteq> None}"
    using finite_dom_map_of [of g] by (simp add: dom_def)
  ultimately show ?thesis by (rule finite_subset)
qed

text \<open>Two nodes above a common node lie on one path.\<close>

lemma common_descendant:
  assumes "forest g" "z \<in> subtree g x" "z \<in> subtree g y"
  shows "y \<in> subtree g x \<or> x \<in> subtree g y"
proof -
  from assms(2) have "(x, z) \<in> (delegation g)\<^sup>*" by (simp add: subtree_def)
  then show ?thesis using assms(3)
  proof (induction rule: rtrancl_induct)
    case base
    then show ?case by simp
  next
    case (step w z)
    show ?case
    proof (cases "z = y")
      case True
      with step.hyps have "y \<in> subtree g x" by (auto simp: subtree_def)
      then show ?thesis ..
    next
      case False
      with step.prems obtain v where v: "(y, v) \<in> (delegation g)\<^sup>*" "(v, z) \<in> delegation g"
        by (auto simp: subtree_def elim: rtranclE)
      from step.hyps(2) v(2) have "v = w"
        by (auto simp: delegation_def dest: forest_unique_parent [OF assms(1)])
      with v(1) step.IH show ?thesis by (simp add: subtree_def)
    qed
  qed
qed

lemma siblings_disjoint:
  assumes "forest g" "c \<in> set (children_of g p)" "d \<in> set (children_of g p)" "c \<noteq> d"
  shows "subtree g c \<inter> subtree g d = {}"
proof -
  have no: "b \<notin> subtree g a" if ab: "a \<in> set (children_of g p)" "b \<in> set (children_of g p)" "a \<noteq> b"
    for a b
  proof
    assume "b \<in> subtree g a"
    with ab(3) obtain v where v: "(a, v) \<in> (delegation g)\<^sup>*" "(v, b) \<in> delegation g"
      by (auto simp: subtree_def elim: rtranclE)
    from v(2) ab(2) have "v = p"
      by (auto simp: delegation_def dest: forest_unique_parent [OF assms(1)])
    with v(1) have "p \<in> subtree g a" by (simp add: subtree_def)
    from subtree_child_less [OF assms(1) ab(1) this] show False by simp
  qed
  have "d \<notin> subtree g c" by (rule no [OF assms(2,3,4)])
  moreover have "c \<notin> subtree g d" by (rule no [OF assms(3,2) assms(4) [symmetric]])
  ultimately show ?thesis
    using common_descendant [OF assms(1)] by blast
qed

section \<open>The revocation loop visits every delegated token exactly once\<close>

lemma children_of_insert_bump [simp]:
  "hm_get g x = Some n \<Longrightarrow> children_of (hm_insert x (bump n) g) = children_of g"
  by (auto simp: children_of_def bump_def fun_eq_iff)

lemma delegation_insert_bump [simp]:
  "hm_get g x = Some n \<Longrightarrow> delegation (hm_insert x (bump n) g) = delegation g"
  by (simp add: delegation_def)

lemma subtree_insert_bump [simp]:
  "hm_get g x = Some n \<Longrightarrow> subtree (hm_insert x (bump n) g) = subtree g"
  by (simp add: subtree_def fun_eq_iff)

lemma forest_insert_bump:
  assumes "forest g" "hm_get g x = Some n"
  shows "forest (hm_insert x (bump n) g)"
proof -
  have "\<exists>n'. hm_get (hm_insert x (bump n) g) c = Some n' \<and> rn_parent n' = Some p"
    if "c \<in> set (children_of g p)" for p c
    using forest_parent [OF assms(1) that] assms(2) by (auto simp: bump_def)
  with assms show ?thesis by (simp add: forest_def)
qed

definition disjoint_stack :: "revocation_graph \<Rightarrow> token_id list \<Rightarrow> bool" where
  "disjoint_stack g = sorted_wrt (\<lambda>x y. subtree g x \<inter> subtree g y = {})"

lemma disjoint_stack_children:
  assumes "forest g"
  shows "disjoint_stack g (rev (children_of g p))"
proof -
  have "distinct (children_of g p)" using assms by (simp add: forest_def)
  moreover have "sorted_wrt (\<lambda>x y. subtree g y \<inter> subtree g x = {}) xs"
    if "distinct xs" "set xs \<subseteq> set (children_of g p)" for xs
    using that
  proof (induction xs)
    case Nil
    then show ?case by simp
  next
    case (Cons a xs)
    then have "\<forall>y \<in> set xs. subtree g y \<inter> subtree g a = {}"
      by (intro ballI siblings_disjoint [OF assms]) auto
    with Cons show ?case by simp
  qed
  ultimately show ?thesis
    by (simp add: disjoint_stack_def sorted_wrt_rev)
qed

lemma disjoint_stack_step:
  assumes g: "forest g" and st: "disjoint_stack g (x # rest)"
  shows "disjoint_stack g (rev (children_of g x) @ rest)"
    and "x \<notin> (\<Union>y \<in> set (rev (children_of g x) @ rest). subtree g y)"
proof -
  have sub: "subtree g c \<subseteq> subtree g x" if "c \<in> set (children_of g x)" for c
    using that by (subst (2) subtree_unfold) blast
  have rest: "subtree g x \<inter> subtree g y = {}" if "y \<in> set rest" for y
    using st that by (simp add: disjoint_stack_def)
  show "disjoint_stack g (rev (children_of g x) @ rest)"
    using disjoint_stack_children [OF g, of x] st sub rest
    by (auto simp: disjoint_stack_def sorted_wrt_append)
  show "x \<notin> (\<Union>y \<in> set (rev (children_of g x) @ rest). subtree g y)"
  proof
    assume "x \<in> (\<Union>y \<in> set (rev (children_of g x) @ rest). subtree g y)"
    then obtain y where y: "y \<in> set (children_of g x) \<or> y \<in> set rest" "x \<in> subtree g y"
      by auto
    from y(1) show False
    proof
      assume "y \<in> set (children_of g x)"
      from subtree_child_less [OF g this y(2)] show False by simp
    next
      assume "y \<in> set rest"
      from rest [OF this] y(2) subtree_refl [of x g] show False by blast
    qed
  qed
qed

definition bumped :: "revocation_graph \<Rightarrow> token_id set \<Rightarrow> token_id \<Rightarrow> revocation_node option" where
  "bumped g A i = (if i \<in> A then map_option bump (hm_get g i) else hm_get g i)"

lemma revoke_loop_Nil [simp]: "revoke_loop g [] d first = Some (g, d)"
  by (subst revoke_loop.simps) simp

lemma revoke_loop_Cons [simp]:
  "revoke_loop g (x # rest) d first =
     (case hm_get g x of
        None \<Rightarrow> revoke_loop g rest d first
      | Some n \<Rightarrow> revoke_loop (hm_insert x (bump n) g) (rev (rn_children n) @ rest)
                    (if first then d else d + 1) False)"
  by (subst revoke_loop.simps) simp

lemma revoke_loop_forest:
  assumes "forest g" "\<forall>x \<in> set stack. hm_get g x \<noteq> None" "disjoint_stack g stack"
  shows "\<exists>g'. revoke_loop g stack d False = Some (g', d + card (\<Union>x \<in> set stack. subtree g x))
           \<and> hm_get g' = bumped g (\<Union>x \<in> set stack. subtree g x) \<and> map fst g' = map fst g"
  using assms
proof (induction "card (\<Union>x \<in> set stack. subtree g x)" arbitrary: g stack d)
  case 0
  have fin: "finite (\<Union>x \<in> set stack. subtree g x)"
    using 0 finite_subtree by blast
  have "stack = []"
  proof (cases stack)
    case (Cons x rest)
    then have "x \<in> (\<Union>x \<in> set stack. subtree g x)" by auto
    with 0(1) fin show ?thesis by auto
  qed simp
  then show ?case by (simp add: bumped_def fun_eq_iff)
next
  case (Suc k)
  from Suc.hyps(2) obtain x rest where stack: "stack = x # rest"
    by (cases stack) auto
  with Suc.prems obtain n where n: "hm_get g x = Some n" by auto
  let ?g = "hm_insert x (bump n) g"
  let ?s = "rev (children_of g x) @ rest"
  let ?U = "\<Union>y \<in> set ?s. subtree g y"
  have U: "(\<Union>x \<in> set stack. subtree g x) = insert x ?U"
    using subtree_unfold [of g x] by (simp add: stack Un_assoc Un_commute)
  have x: "x \<notin> ?U" and disj: "disjoint_stack g ?s"
    using disjoint_stack_step [OF Suc.prems(1)] Suc.prems(3) stack by blast+
  have dom: "\<forall>y \<in> set ?s. hm_get g y \<noteq> None"
    using Suc.prems(2) forest_dom [OF Suc.prems(1)] by (auto simp: stack)
  have fin: "finite ?U"
    using dom finite_subtree [OF Suc.prems(1)] by blast
  have card: "k = card ?U"
    using Suc.hyps(2) x fin by (simp add: U)
  have "\<exists>g'. revoke_loop ?g ?s (d + 1) False = Some (g', (d + 1) + card (\<Union>y \<in> set ?s. subtree ?g y))
           \<and> hm_get g' = bumped ?g (\<Union>y \<in> set ?s. subtree ?g y) \<and> map fst g' = map fst ?g"
  proof (rule Suc.hyps(1))
    show "k = card (\<Union>y \<in> set ?s. subtree ?g y)" using card n by simp
    show "forest ?g" using Suc.prems(1) n by (rule forest_insert_bump)
    show "\<forall>y \<in> set ?s. hm_get ?g y \<noteq> None" using dom by auto
    show "disjoint_stack ?g ?s" using disj n by (simp add: disjoint_stack_def)
  qed
  then obtain g' where g': "revoke_loop ?g ?s (d + 1) False = Some (g', d + 1 + card ?U)"
    "hm_get g' = bumped ?g ?U" "map fst g' = map fst ?g"
    using n by auto
  have "revoke_loop g stack d False = revoke_loop ?g ?s (d + 1) False"
    using n by (simp add: stack children_of_def)
  moreover have "hm_get g' = bumped g (insert x ?U)"
    using g'(2) x n by (auto simp: bumped_def fun_eq_iff)
  moreover have "map fst ?g = map fst g"
    using n by (simp add: update_keys) (metis domI dom_map_of_conv_image_fst list.set_map)
  ultimately show ?case
    using g' x fin by (simp add: U)
qed

lemma subtree_strict: "forest g \<Longrightarrow> subtree g x - {x} = (\<Union>c \<in> set (children_of g x). subtree g c)"
  using subtree_child_less [of g _ x x] by (subst subtree_unfold) auto

lemma graph_revoke_forest:
  assumes g: "forest g" and n: "hm_get g x = Some n"
  shows "\<exists>g'. graph_revoke g x = Some (g', \<lparr>rr_revoked = x,
              rr_descendants_invalidated = card (subtree g x - {x})\<rparr>)
           \<and> hm_get g' = bumped g (subtree g x) \<and> map fst g' = map fst g"
proof -
  let ?g = "hm_insert x (bump n) g"
  let ?s = "rev (children_of g x)"
  have "\<exists>g'. revoke_loop ?g ?s 0 False = Some (g', 0 + card (\<Union>y \<in> set ?s. subtree ?g y))
           \<and> hm_get g' = bumped ?g (\<Union>y \<in> set ?s. subtree ?g y) \<and> map fst g' = map fst ?g"
  proof (rule revoke_loop_forest)
    show "forest ?g" using g n by (rule forest_insert_bump)
    show "\<forall>y \<in> set ?s. hm_get ?g y \<noteq> None" using forest_dom [OF g] by auto
    show "disjoint_stack ?g ?s"
      using disjoint_stack_children [OF g] n by (simp add: disjoint_stack_def)
  qed
  then obtain g' where g': "revoke_loop ?g ?s 0 False = Some (g', card (subtree g x - {x}))"
    "hm_get g' = bumped ?g (subtree g x - {x})" "map fst g' = map fst ?g"
    using n by (auto simp: subtree_strict [OF g])
  have "hm_get g' = bumped g (subtree g x)"
    using g'(2) n by (auto simp: bumped_def fun_eq_iff)
  moreover have "map fst ?g = map fst g"
    using n by (simp add: update_keys) (metis domI dom_map_of_conv_image_fst list.set_map)
  ultimately show ?thesis
    using g' n by (simp add: graph_revoke_def children_of_def)
qed

lemma graph_revoke_missing:
  "hm_get g x = None \<Longrightarrow>
     graph_revoke g x = Some (g, \<lparr>rr_revoked = x, rr_descendants_invalidated = 0\<rparr>)"
  by (simp add: graph_revoke_def)

lemma bumped_fields [simp]:
  "map_option rn_parent (bumped g A i) = map_option rn_parent (hm_get g i)"
  "map_option rn_children (bumped g A i) = map_option rn_children (hm_get g i)"
  "map_option rn_object_id (bumped g A i) = map_option rn_object_id (hm_get g i)"
  "map_option rn_rights (bumped g A i) = map_option rn_rights (hm_get g i)"
  by (auto simp: bumped_def bump_def option.map_comp comp_def)

section \<open>Checks\<close>

lemma check_live_iff: "check_live m t now = Inr () \<longleftrightarrow> is_live m t now"
  by (auto simp: check_live_def is_live_def live_generation_def matches_record_def
      split: option.splits)

lemma check_rights_ok_iff:
  "check_rights_ok m t r now \<longleftrightarrow> is_live m t now \<and> contains (ct_rights t) r"
  by (auto simp: check_rights_ok_def check_rights_ok_result_def check_live_iff [symmetric]
      split: sum.splits)

lemma check_rights_ok_result_Inr:
  "check_rights_ok_result m t r now = Inr u \<longleftrightarrow> check_rights_ok m t r now"
  by (cases "check_rights_ok_result m t r now") (simp_all add: check_rights_ok_def)

lemma check_rights_ok_result_cases:
  obtains (ok) "check_rights_ok m t r now" "check_rights_ok_result m t r now = Inr ()"
  | (fault) e where "\<not> check_rights_ok m t r now" "check_rights_ok_result m t r now = Inl e"
  by (cases "check_rights_ok_result m t r now") (auto simp: check_rights_ok_def)

text \<open>A check passes exactly when the slot holds a live token with the required rights.\<close>

lemma check_Inr_iff:
  "check m tbl slot r now = Inr t \<longleftrightarrow>
     table_get tbl slot = Some t \<and> is_live m t now \<and> contains (ct_rights t) r"
  by (auto simp: check_def check_live_iff [symmetric] split: option.splits sum.splits)

lemma cap_invoke_Inr_iff:
  "cap_invoke m tbl slot r now f = Inr y \<longleftrightarrow>
     (\<exists>t. table_get tbl slot = Some t \<and> is_live m t now \<and> contains (ct_rights t) r \<and> y = f t)"
proof -
  have checked: "(\<exists>t. table_get tbl slot = Some t \<and> is_live m t now \<and> contains (ct_rights t) r \<and> y = f t)
        \<longleftrightarrow> (\<exists>t. check m tbl slot r now = Inr t \<and> y = f t)"
    by (auto simp: check_Inr_iff)
  show ?thesis
    unfolding checked by (cases "check m tbl slot r now") (auto simp: cap_invoke_def)
qed

subsection \<open>The interface the other components use\<close>

text \<open>
  Every other crate consults the monitor through \<open>check_rights_ok_result\<close>.  What a client
  relies on: a right covers every weaker one, and a denial is not undone by waiting.
\<close>

locale rights_authority =
  fixes authorizes :: "'m \<Rightarrow> 't \<Rightarrow> u32 \<Rightarrow> instant \<Rightarrow> bool"
  assumes covers: "contains r r' \<Longrightarrow> authorizes m t r now \<Longrightarrow> authorizes m t r' now"
    and joint: "authorizes m t r now \<Longrightarrow> authorizes m t r' now \<Longrightarrow> authorizes m t (r OR r') now"
    and earlier: "now' \<le> now \<Longrightarrow> authorizes m t r now \<Longrightarrow> authorizes m t r now'"
begin

lemma denied_later: "\<not> authorizes m t r now \<Longrightarrow> now \<le> now' \<Longrightarrow> \<not> authorizes m t r now'"
  using earlier by blast

lemma joint_iff: "authorizes m t (r OR r') now \<longleftrightarrow> authorizes m t r now \<and> authorizes m t r' now"
proof -
  have "contains (r OR r') r" "contains (r OR r') r'"
    by (simp_all add: contains_iff_bits bit_or_iff)
  then show ?thesis using covers joint by blast
qed

end

interpretation monitor: rights_authority check_rights_ok
proof
  fix r r' :: u32 and m t and now now' :: instant
  show "check_rights_ok m t r' now" if "contains r r'" "check_rights_ok m t r now"
    using that contains_trans by (auto simp: check_rights_ok_iff)
  show "check_rights_ok m t (r OR r') now" if "check_rights_ok m t r now" "check_rights_ok m t r' now"
    using that by (auto simp: check_rights_ok_iff contains_iff_bits bit_or_iff)
  show "check_rights_ok m t r now'" if "now' \<le> now" "check_rights_ok m t r now"
    using that by (auto simp: check_rights_ok_iff is_live_def is_expired_def split: option.splits)
qed

text \<open>
  The contract every capability-guarded operation of the system shares: without the
  authority it fails and changes nothing.  A whole session of unauthorised calls then
  leaves the state as it was.
\<close>

fun session :: "('c \<Rightarrow> 's \<Rightarrow> ('e + 'r) \<times> 's) \<Rightarrow> 'c list \<Rightarrow> 's \<Rightarrow> 's" where
  "session step [] s = s"
| "session step (c # cs) s = session step cs (snd (step c s))"

locale guarded_operation =
  fixes authorized :: "'c \<Rightarrow> bool"
    and step :: "'c \<Rightarrow> 's \<Rightarrow> ('e + 'r) \<times> 's"
  assumes refused: "\<not> authorized c \<Longrightarrow> \<exists>e. step c s = (Inl e, s)"
begin

lemma unauthorized_session: "\<forall>c \<in> set cs. \<not> authorized c \<Longrightarrow> session step cs s = s"
proof (induction cs arbitrary: s)
  case Nil
  then show ?case by simp
next
  case (Cons c cs)
  then obtain e where "step c s = (Inl e, s)" using refused by fastforce
  with Cons show ?case by simp
qed

lemma success_authorized: "fst (step c s) = Inr r \<Longrightarrow> authorized c"
  using refused [of c s] by force

lemma authorized_filter: "session step cs s = session step (filter authorized cs) s"
proof (induction cs arbitrary: s)
  case Nil
  then show ?case by simp
next
  case (Cons c cs)
  show ?case
  proof (cases "authorized c")
    case True
    with Cons show ?thesis by simp
  next
    case False
    then obtain e where "step c s = (Inl e, s)" using refused by blast
    with False Cons show ?thesis by simp
  qed
qed

end

section \<open>Every operation keeps the delegation graph well formed\<close>

lemma graph_wfD:
  assumes "graph_wf NEXT g"
  shows graph_wf_hm: "hm_wf g" and graph_wf_forest: "forest g"
    and graph_wf_attenuated: "attenuated g"
    and graph_wf_fresh: "NEXT \<le> i \<Longrightarrow> hm_get g i = None"
  using assms by (auto simp: graph_wf_def)

lemma graph_wf_mono: "graph_wf NEXT g \<Longrightarrow> NEXT \<le> NEXT' \<Longrightarrow> graph_wf NEXT' g"
  by (auto simp: graph_wf_def)

lemma graph_wf_empty: "graph_wf NEXT []"
  by (simp add: graph_wf_def forest_def attenuated_def children_of_def)

lemma insert_root_graph_wf:
  assumes wf: "graph_wf NEXT g" and NEXT: "NEXT \<noteq> - 1"
  shows "graph_wf (NEXT + 1) (insert_root NEXT obj r g)"
proof -
  let ?g = "insert_root NEXT obj r g"
  have fresh: "hm_get g NEXT = None"
    by (rule graph_wf_fresh [OF wf]) simp
  have ch: "children_of ?g = children_of g"
    using fresh by (auto simp: children_of_def insert_root_def fun_eq_iff)
  have "forest ?g"
    using graph_wf_forest [OF wf] fresh
    unfolding forest_def ch by (fastforce simp: insert_root_def)
  moreover have "attenuated ?g"
    using graph_wf_attenuated [OF wf] fresh
    unfolding attenuated_def by (fastforce simp: insert_root_def split: if_splits)
  moreover have "\<forall>i. hm_get ?g i \<noteq> None \<longrightarrow> i < NEXT + 1"
    using wf NEXT
    by (auto simp: graph_wf_def insert_root_def word_less_add_one_iff split: if_splits
        intro: order_less_imp_le)
  ultimately show ?thesis
    using graph_wf_hm [OF wf] by (simp add: graph_wf_def insert_root_def)
qed

lemma children_of_insert_child:
  assumes "hm_get g p = Some np" "hm_get g c = None"
  shows "children_of (insert_child p c obj r g) q =
           (if q = p then children_of g p @ [c] else children_of g q)"
  using assms by (auto simp: children_of_def insert_child_def)

lemma insert_child_graph_wf:
  assumes wf: "graph_wf NEXT g" and NEXT: "NEXT \<noteq> - 1"
    and np: "hm_get g p = Some np" and r: "contains (rn_rights np) r"
  shows "graph_wf (NEXT + 1) (insert_child p NEXT (rn_object_id np) r g)"
proof -
  let ?g = "insert_child p NEXT (rn_object_id np) r g"
  have fresh: "hm_get g NEXT = None"
    by (rule graph_wf_fresh [OF wf]) simp
  have p: "p < NEXT" using wf np by (auto simp: graph_wf_def)
  note ch = children_of_insert_child [OF np fresh]
  have old: "c < NEXT" if "c \<in> set (children_of g q)" for q c
    using forest_dom [OF graph_wf_forest [OF wf] that] wf by (auto simp: graph_wf_def)
  have get: "hm_get ?g c = (if c = NEXT
      then Some \<lparr>rn_parent = Some p, rn_children = [], rn_live_generation = 0,
                 rn_object_id = rn_object_id np, rn_rights = r\<rparr>
      else if c = p then Some (np\<lparr>rn_children := rn_children np @ [NEXT]\<rparr>) else hm_get g c)" for c
    using np by (auto simp: insert_child_def)
  have "forest ?g"
    unfolding forest_def
  proof (intro conjI allI impI)
    fix q
    show "distinct (children_of ?g q)"
      using graph_wf_forest [OF wf] old [of NEXT p] by (auto simp: ch forest_def)
    fix c
    assume c: "c \<in> set (children_of ?g q)"
    show "q < c"
      using c p forest_less [OF graph_wf_forest [OF wf]] by (auto simp: ch split: if_splits)
    show "\<exists>n. hm_get ?g c = Some n \<and> rn_parent n = Some q"
    proof (cases "c = NEXT")
      case True
      with c old [of NEXT q] have "q = p" by (auto simp: ch split: if_splits)
      with True show ?thesis by (simp add: get)
    next
      case False
      with c have "c \<in> set (children_of g q)" by (auto simp: ch split: if_splits)
      from forest_parent [OF graph_wf_forest [OF wf] this] False np show ?thesis
        by (auto simp: get)
    qed
  qed
  moreover have "attenuated ?g"
    unfolding attenuated_def
  proof (intro allI impI, elim conjE)
    fix c n q
    assume c: "hm_get ?g c = Some n" "rn_parent n = Some q"
    show "\<exists>nq. hm_get ?g q = Some nq \<and> c \<in> set (rn_children nq)
               \<and> rn_object_id n = rn_object_id nq \<and> contains (rn_rights nq) (rn_rights n)"
    proof (cases "c = NEXT")
      case True
      with c r p show ?thesis by (auto simp: get)
    next
      case False
      then obtain n0 where n0: "hm_get g c = Some n0" "rn_parent n0 = Some q"
        "rn_object_id n0 = rn_object_id n" "rn_rights n0 = rn_rights n"
        using c np by (auto simp: get split: if_splits)
      with graph_wf_attenuated [OF wf] obtain nq where nq: "hm_get g q = Some nq"
        "c \<in> set (rn_children nq)" "rn_object_id n0 = rn_object_id nq"
        "contains (rn_rights nq) (rn_rights n0)"
        unfolding attenuated_def by blast
      moreover have "q \<noteq> NEXT" using nq(1) fresh by auto
      ultimately show ?thesis using n0 np by (auto simp: get)
    qed
  qed
  moreover have "\<forall>i. hm_get ?g i \<noteq> None \<longrightarrow> i < NEXT + 1"
    using wf NEXT p
    by (auto simp: graph_wf_def get word_less_add_one_iff split: if_splits intro: order_less_imp_le)
  ultimately show ?thesis
    using graph_wf_hm [OF wf] by (simp add: graph_wf_def insert_child_def)
qed

lemma bumped_graph_wf:
  assumes wf: "graph_wf NEXT g" and g': "hm_get g' = bumped g A" "map fst g' = map fst g"
  shows "graph_wf NEXT g'"
proof -
  have get: "hm_get g' i = (if i \<in> A then map_option bump (hm_get g i) else hm_get g i)" for i
    by (simp add: g' bumped_def)
  have ch: "children_of g' = children_of g"
    by (auto simp: children_of_def get bump_def fun_eq_iff split: option.splits)
  have "forest g'"
    using graph_wf_forest [OF wf]
    unfolding forest_def ch by (fastforce simp: get bump_def)
  moreover have "attenuated g'"
    unfolding attenuated_def
  proof (intro allI impI, elim conjE)
    fix c n q
    assume "hm_get g' c = Some n" "rn_parent n = Some q"
    then obtain n0 where n0: "hm_get g c = Some n0" "rn_parent n0 = Some q"
        "rn_object_id n0 = rn_object_id n" "rn_rights n0 = rn_rights n"
      by (auto simp: get bump_def split: if_splits)
    then obtain nq where "hm_get g q = Some nq" "c \<in> set (rn_children nq)"
        "rn_object_id n0 = rn_object_id nq" "contains (rn_rights nq) (rn_rights n0)"
      using graph_wf_attenuated [OF wf] unfolding attenuated_def by blast
    with n0 show "\<exists>nq. hm_get g' q = Some nq \<and> c \<in> set (rn_children nq)
               \<and> rn_object_id n = rn_object_id nq \<and> contains (rn_rights nq) (rn_rights n)"
      by (cases "q \<in> A") (auto simp: get bump_def)
  qed
  ultimately show ?thesis
    using wf g'(2) by (auto simp: graph_wf_def get split: if_splits)
qed

text \<open>Revocation of any token ends, and what it does to the graph.\<close>

lemma graph_revoke_wf:
  assumes wf: "graph_wf NEXT g"
  shows "\<exists>g' d. graph_revoke g x = Some (g', \<lparr>rr_revoked = x, rr_descendants_invalidated = d\<rparr>)
           \<and> hm_get g' = bumped g (subtree g x) \<and> graph_wf NEXT g'"
proof (cases "hm_get g x")
  case None
  then have "subtree g x = {x}"
    by (subst subtree_unfold) (simp add: children_of_def)
  with None have "hm_get g = bumped g (subtree g x)"
    by (auto simp: bumped_def fun_eq_iff)
  with None wf show ?thesis by (simp add: graph_revoke_missing)
next
  case (Some n)
  from graph_revoke_forest [OF graph_wf_forest [OF wf] this] obtain g'
    where "graph_revoke g x = Some (g', \<lparr>rr_revoked = x,
              rr_descendants_invalidated = card (subtree g x - {x})\<rparr>)"
      "hm_get g' = bumped g (subtree g x)" "map fst g' = map fst g"
    by blast
  with bumped_graph_wf [OF wf] show ?thesis by blast
qed

lemma mint_root_graph_wf:
  assumes "monitor_wf NEXT m" "NEXT \<noteq> - 1" "mint_root NEXT m r orig ttl now = (t, NEXT', m')"
  shows "NEXT' = NEXT + 1" "monitor_wf NEXT' m'"
    "cm_graph m' = insert_root NEXT (ct_object_id t) r (cm_graph m)"
    "ct_token_id t = NEXT" "ct_rights t = r" "ct_generation t = 0"
  using assms insert_root_graph_wf
  by (auto simp: mint_root_def new_object_def token_id_next_def)

lemma cap_derive_Inr:
  assumes "cap_derive NEXT m p r ttl orig now now' = (Inr t, NEXT', m')"
  shows "is_live m p now" "contains (ct_rights p) r" "NEXT' = NEXT + 1"
    "cm_graph m' = insert_child (ct_token_id p) NEXT (ct_object_id p) r (cm_graph m)"
    "t = \<lparr>ct_token_id = NEXT, ct_object_id = ct_object_id p, ct_rights = r, ct_generation = 0,
          ct_origin = orig, ct_expiry = min_expiry (ct_expiry p) (map_option (\<lambda>d. now' + d) ttl)\<rparr>"
  using assms
  by (auto simp: cap_derive_def token_id_next_def check_live_iff Let_def
      split: sum.splits if_splits)

lemma cap_derive_Inl:
  assumes "cap_derive NEXT m p r ttl orig now now' = (Inl e, NEXT', m')"
  shows "NEXT' = NEXT" "m' = m"
  using assms
  by (auto simp: cap_derive_def token_id_next_def Let_def split: sum.splits if_splits)

lemma is_live_node:
  assumes "is_live m t now"
  obtains n where "hm_get (cm_graph m) (ct_token_id t) = Some n" "rn_object_id n = ct_object_id t"
    "rn_rights n = ct_rights t" "rn_live_generation n = ct_generation t"
  using assms by (auto simp: is_live_def matches_record_def live_generation_def split: option.splits)

lemma cap_derive_graph_wf:
  assumes wf: "monitor_wf NEXT m" and NEXT: "NEXT \<noteq> - 1"
    and derive: "cap_derive NEXT m p r ttl orig now now' = (Inr t, NEXT', m')"
  shows "monitor_wf NEXT' m'"
proof -
  note d = cap_derive_Inr [OF derive]
  from d(1) obtain n where n: "hm_get (cm_graph m) (ct_token_id p) = Some n"
    "rn_object_id n = ct_object_id p" "rn_rights n = ct_rights p"
    by (rule is_live_node)
  from insert_child_graph_wf [OF wf NEXT n(1)] n d show ?thesis by simp
qed

section \<open>Authority along a delegation path\<close>

lemma subtree_attenuated:
  assumes wf: "graph_wf NEXT g" and c: "c \<in> subtree g p" and np: "hm_get g p = Some np"
  shows "\<exists>nc. hm_get g c = Some nc \<and> rn_object_id nc = rn_object_id np
              \<and> contains (rn_rights np) (rn_rights nc)"
proof -
  from c have "(p, c) \<in> (delegation g)\<^sup>*" by (simp add: subtree_def)
  then show ?thesis
  proof (induction rule: rtrancl_induct)
    case base
    with np show ?case by simp
  next
    case (step y z)
    from step.hyps(2) have z: "z \<in> set (children_of g y)" by (simp add: delegation_def)
    from forest_parent [OF graph_wf_forest [OF wf] z] obtain nz
      where nz: "hm_get g z = Some nz" "rn_parent nz = Some y" by blast
    with graph_wf_attenuated [OF wf] obtain ny where "hm_get g y = Some ny"
      "rn_object_id nz = rn_object_id ny" "contains (rn_rights ny) (rn_rights nz)"
      unfolding attenuated_def by blast
    with step.IH nz show ?case by (auto intro: contains_trans)
  qed
qed

section \<open>Runs of a process\<close>

text \<open>
  A process with one monitor under observation.  Its holders mint, derive and revoke in any
  order; other monitors of the process take token identities from the shared counter at any
  time.  Two ghost fields record the history: the tokens this monitor has handed out, and
  how many revocations have covered each node of the graph.
\<close>

record cap_system =
  sys_monitor :: capability_monitor
  sys_next :: u64
  sys_issued :: "capability_token set"
  sys_hits :: "token_id \<Rightarrow> nat"

definition cap_init :: cap_system where
  "cap_init = \<lparr>sys_monitor = monitor_new, sys_next = 1, sys_issued = {}, sys_hits = (\<lambda>_. 0)\<rparr>"

inductive cap_step :: "cap_system \<Rightarrow> cap_system \<Rightarrow> bool" where
  mint: "sys_next s \<noteq> - 1 \<Longrightarrow>
     mint_root (sys_next s) (sys_monitor s) r orig ttl now = (t, NEXT', m') \<Longrightarrow>
     cap_step s (s\<lparr>sys_monitor := m', sys_next := NEXT', sys_issued := insert t (sys_issued s)\<rparr>)"
| derive: "sys_next s \<noteq> - 1 \<Longrightarrow> p \<in> sys_issued s \<Longrightarrow>
     cap_derive (sys_next s) (sys_monitor s) p r ttl orig now now' = (Inr t, NEXT', m') \<Longrightarrow>
     cap_step s (s\<lparr>sys_monitor := m', sys_next := NEXT', sys_issued := insert t (sys_issued s)\<rparr>)"
| derive_fault:
    "cap_derive (sys_next s) (sys_monitor s) p r ttl orig now now' = (Inl e, NEXT', m') \<Longrightarrow>
     cap_step s (s\<lparr>sys_monitor := m', sys_next := NEXT'\<rparr>)"
| revoke: "t \<in> sys_issued s \<Longrightarrow> cap_revoke (sys_monitor s) t = Some (m', receipt) \<Longrightarrow>
     cap_step s (s\<lparr>sys_monitor := m',
       sys_hits := (\<lambda>i. if i \<in> subtree (cm_graph (sys_monitor s)) (ct_token_id t)
                         then Suc (sys_hits s i) else sys_hits s i)\<rparr>)"
| object: "new_object (sys_monitor s) = (obj, m') \<Longrightarrow> cap_step s (s\<lparr>sys_monitor := m'\<rparr>)"
| other_monitor: "sys_next s \<noteq> - 1 \<Longrightarrow> cap_step s (s\<lparr>sys_next := sys_next s + 1\<rparr>)"

inductive cap_reachable :: "cap_system \<Rightarrow> bool" where
  init: "cap_reachable cap_init"
| step: "cap_reachable s \<Longrightarrow> cap_step s s' \<Longrightarrow> cap_reachable s'"

definition sys_inv :: "cap_system \<Rightarrow> bool" where
  "sys_inv s \<longleftrightarrow>
     monitor_wf (sys_next s) (sys_monitor s)
     \<and> (\<forall>t \<in> sys_issued s. \<exists>n. hm_get (cm_graph (sys_monitor s)) (ct_token_id t) = Some n
          \<and> rn_object_id n = ct_object_id t \<and> rn_rights n = ct_rights t \<and> ct_generation t = 0)
     \<and> (\<forall>i n. hm_get (cm_graph (sys_monitor s)) i = Some n \<longrightarrow>
          rn_live_generation n = of_nat (sys_hits s i))
     \<and> (\<forall>i. hm_get (cm_graph (sys_monitor s)) i = None \<longrightarrow> sys_hits s i = 0)"

lemma sys_inv_init: "sys_inv cap_init"
  by (simp add: sys_inv_def cap_init_def monitor_new_def graph_wf_empty)

lemma sys_inv_step:
  assumes "cap_step s s'" "sys_inv s"
  shows "sys_inv s'"
  using assms
proof (induction rule: cap_step.induct)
  case (mint s r orig ttl now t NEXT' m')
  then have wf: "monitor_wf (sys_next s) (sys_monitor s)" by (simp add: sys_inv_def)
  note m = mint_root_graph_wf [OF wf mint(1,2)]
  have "hm_get (cm_graph (sys_monitor s)) (sys_next s) = None"
    by (rule graph_wf_fresh [OF wf]) simp
  with mint(3) m show ?case by (auto simp: sys_inv_def insert_root_def)
next
  case (derive s p r ttl orig now now' t NEXT' m')
  then have wf: "monitor_wf (sys_next s) (sys_monitor s)" by (simp add: sys_inv_def)
  note d = cap_derive_Inr [OF derive(3)]
  have fresh: "hm_get (cm_graph (sys_monitor s)) (sys_next s) = None"
    by (rule graph_wf_fresh [OF wf]) simp
  show ?case
    using derive(4) cap_derive_graph_wf [OF wf derive(1,3)] fresh d
    by (auto simp: sys_inv_def insert_child_def)
next
  case (derive_fault s p r ttl orig now now' e NEXT' m')
  from cap_derive_Inl [OF derive_fault(1)] derive_fault(2) show ?case by simp
next
  case (revoke t s m' receipt)
  then have wf: "monitor_wf (sys_next s) (sys_monitor s)" by (simp add: sys_inv_def)
  let ?g = "cm_graph (sys_monitor s)"
  from graph_revoke_wf [OF wf, of "ct_token_id t"] revoke(2)
  have g': "hm_get (cm_graph m') = bumped ?g (subtree ?g (ct_token_id t))"
    and wf': "monitor_wf (sys_next s) m'"
    by (auto simp: cap_revoke_def)
  have "\<exists>n. hm_get ?g (ct_token_id t) = Some n"
    using revoke(1,3) by (auto simp: sys_inv_def)
  then have dom: "hm_get ?g i \<noteq> None" if "i \<in> subtree ?g (ct_token_id t)" for i
    using subtree_dom [OF graph_wf_forest [OF wf]] that by blast
  show ?case
    using revoke(3) wf' dom by (auto simp: sys_inv_def g' bumped_def bump_def)
next
  case (object s obj m')
  then show ?case by (auto simp: sys_inv_def new_object_def)
next
  case (other_monitor s)
  then show ?case
    by (auto simp: sys_inv_def intro: graph_wf_mono order_less_imp_le word_less_add_one)
qed

lemma sys_inv_reachable: "cap_reachable s \<Longrightarrow> sys_inv s"
  by (induction rule: cap_reachable.induct) (auto intro: sys_inv_init sys_inv_step)

section \<open>A small delegation, for the witnesses\<close>

text \<open>A root token with every right for boundary 7, and a read-only child of it for boundary
  8 that lives for 100 nanoseconds.\<close>

definition demo_root :: capability_token where
  "demo_root = \<lparr>ct_token_id = 1, ct_object_id = 0, ct_rights = 63, ct_generation = 0,
                ct_origin = 7, ct_expiry = None\<rparr>"

definition demo_child :: capability_token where
  "demo_child = \<lparr>ct_token_id = 2, ct_object_id = 0, ct_rights = 1, ct_generation = 0,
                 ct_origin = 8, ct_expiry = Some 110\<rparr>"

definition demo_monitor1 :: capability_monitor where
  "demo_monitor1 = \<lparr>cm_graph =
     [(1, \<lparr>rn_parent = None, rn_children = [], rn_live_generation = 0,
           rn_object_id = 0, rn_rights = 63\<rparr>)], cm_next_object_id = 1\<rparr>"

definition demo_monitor :: capability_monitor where
  "demo_monitor = \<lparr>cm_graph =
     [(1, \<lparr>rn_parent = None, rn_children = [2], rn_live_generation = 0,
           rn_object_id = 0, rn_rights = 63\<rparr>),
      (2, \<lparr>rn_parent = Some 1, rn_children = [], rn_live_generation = 0,
           rn_object_id = 0, rn_rights = 1\<rparr>)], cm_next_object_id = 1\<rparr>"

lemmas demo_defs = demo_root_def demo_child_def demo_monitor1_def demo_monitor_def

lemma all_rights_63: "all_rights = 63"
  by (simp add: all_rights_def rights_defs)

lemma demo_mint: "mint_root 1 monitor_new all_rights 7 None 0 = (demo_root, 2, demo_monitor1)"
  by (simp add: mint_root_def new_object_def token_id_next_def insert_root_def monitor_new_def
      demo_defs all_rights_63)

lemma demo_derive:
  "cap_derive 2 demo_monitor1 demo_root READ (Some 100) 8 5 10 = (Inr demo_child, 3, demo_monitor)"
  by (simp add: cap_derive_def check_live_def matches_record_def live_generation_def
      is_expired_def token_id_next_def insert_child_def hm_modify_def contains_def demo_defs
      READ_def)

lemma demo_root_ok [simp]: "contains 63 r \<Longrightarrow> check_rights_ok demo_monitor demo_root r now"
  by (simp add: check_rights_ok_iff is_live_def matches_record_def live_generation_def
      is_expired_def demo_defs)

lemma demo_root_result [simp]: "contains 63 r \<Longrightarrow> check_rights_ok_result demo_monitor demo_root r now = Inr ()"
  by (simp add: check_rights_ok_result_Inr)

lemma contains_63_rights [simp]: "contains 63 READ" "contains 63 WRITE" "contains 63 GRANT"
  "contains 63 REVOKE" "contains 63 EXEC" "contains 63 MAP"
  by (simp_all add: contains_def rights_defs)

lemma demo_monitor1_wf: "monitor_wf 2 demo_monitor1"
  using mint_root_graph_wf(2) [OF _ _ demo_mint] by (simp add: monitor_new_def graph_wf_empty)

lemma demo_monitor_wf: "monitor_wf 3 demo_monitor"
  using cap_derive_graph_wf [OF demo_monitor1_wf _ demo_derive] by simp

lemma demo_subtree: "subtree (cm_graph demo_monitor) 1 = {1, 2}"
proof -
  have "subtree (cm_graph demo_monitor) 2 = {2}"
    by (subst subtree_unfold) (simp add: children_of_def demo_monitor_def)
  then show ?thesis
    by (subst subtree_unfold) (simp add: children_of_def demo_monitor_def)
qed

text \<open>The same delegation as a run, with the root revoked at its end.\<close>

definition demo_state :: cap_system where
  "demo_state = \<lparr>sys_monitor = demo_monitor, sys_next = 3, sys_issued = {demo_child, demo_root},
                 sys_hits = (\<lambda>_. 0)\<rparr>"

lemma demo_reachable: "cap_reachable demo_state"
proof -
  let ?s1 = "cap_init\<lparr>sys_monitor := demo_monitor1, sys_next := 2,
                     sys_issued := insert demo_root (sys_issued cap_init)\<rparr>"
  have "cap_step cap_init ?s1"
    by (rule cap_step.mint [of _ all_rights 7 None 0]) (simp_all add: cap_init_def demo_mint)
  then have s1: "cap_reachable ?s1"
    by (rule cap_reachable.step [OF cap_reachable.init])
  have "cap_step ?s1 (?s1\<lparr>sys_monitor := demo_monitor, sys_next := 3,
                          sys_issued := insert demo_child (sys_issued ?s1)\<rparr>)"
    by (rule cap_step.derive [of _ demo_root READ "Some 100" 8 5 10])
      (simp_all add: cap_init_def demo_derive)
  from cap_reachable.step [OF s1 this] show ?thesis
    by (simp add: demo_state_def cap_init_def)
qed

section \<open>Properties of the capability core\<close>

text \<open>
  Claim C1: revoking a token of a well-formed monitor always ends.  It raises the
  generation of that token and of every token delegated from it by exactly one, leaves
  every other token's record as it was, keeps the graph well formed, and the receipt counts
  exactly the delegated tokens it invalidated.
\<close>

theorem revoke_exact:
  assumes wf: "monitor_wf NEXT m" and n: "hm_get (cm_graph m) (ct_token_id t) \<noteq> None"
  shows "\<exists>m'. cap_revoke m t =
           Some (m', \<lparr>rr_revoked = ct_token_id t, rr_descendants_invalidated =
                        card (subtree (cm_graph m) (ct_token_id t) - {ct_token_id t})\<rparr>)
         \<and> monitor_wf NEXT m'
         \<and> (\<forall>i. hm_get (cm_graph m') i =
               (if i \<in> subtree (cm_graph m) (ct_token_id t)
                then map_option (\<lambda>n. n\<lparr>rn_live_generation := rn_live_generation n + 1\<rparr>)
                       (hm_get (cm_graph m) i)
                else hm_get (cm_graph m) i))"
proof -
  from n obtain node where "hm_get (cm_graph m) (ct_token_id t) = Some node" by auto
  from graph_revoke_forest [OF graph_wf_forest [OF wf] this] obtain g'
    where g': "graph_revoke (cm_graph m) (ct_token_id t) =
        Some (g', \<lparr>rr_revoked = ct_token_id t, rr_descendants_invalidated =
                        card (subtree (cm_graph m) (ct_token_id t) - {ct_token_id t})\<rparr>)"
      "hm_get g' = bumped (cm_graph m) (subtree (cm_graph m) (ct_token_id t))"
      "map fst g' = map fst (cm_graph m)"
    by blast
  from bumped_graph_wf [OF wf g'(2,3)] g' show ?thesis
    by (auto simp: cap_revoke_def bumped_def bump_def [abs_def])
qed

theorem revoke_exact_witness:
  "\<exists>m'. cap_revoke demo_monitor demo_root =
           Some (m', \<lparr>rr_revoked = 1, rr_descendants_invalidated = 1\<rparr>)
        \<and> check_rights_ok_result m' demo_child READ 50 = Inl Revoked"
proof -
  have n: "hm_get (cm_graph demo_monitor) (ct_token_id demo_root) \<noteq> None"
    by (simp add: demo_defs)
  from revoke_exact [OF demo_monitor_wf n] obtain m' where m': "cap_revoke demo_monitor demo_root =
        Some (m', \<lparr>rr_revoked = 1, rr_descendants_invalidated = card ({1, 2 :: u64} - {1})\<rparr>)"
    "hm_get (cm_graph m') 2 = map_option (\<lambda>n. n\<lparr>rn_live_generation := rn_live_generation n + 1\<rparr>)
        (hm_get (cm_graph demo_monitor) 2)"
    using demo_subtree by (auto simp: demo_root_def)
  have "card ({1, 2 :: u64} - {1}) = 1" by simp
  moreover have "check_rights_ok_result m' demo_child READ 50 = Inl Revoked"
    using m'(2) by (simp add: check_rights_ok_result_def check_live_def matches_record_def
        live_generation_def demo_defs)
  ultimately show ?thesis using m'(1) by simp
qed

text \<open>
  Claim C2: in every reachable state of a process, a token the monitor handed out passes a
  check exactly when no revocation has ever covered it, it has not expired and it carries
  the required rights (for fewer than \<open>2^64\<close> revocations, after which the generation
  counter would wrap around).  So a revoked token stays dead, and no revocation elsewhere,
  no later delegation and no other monitor can disable a live one.
\<close>

theorem issued_token_authority:
  assumes reach: "cap_reachable s" and t: "t \<in> sys_issued s"
    and hits: "sys_hits s (ct_token_id t) < 2 ^ 64"
  shows "check_rights_ok (sys_monitor s) t r now \<longleftrightarrow>
           sys_hits s (ct_token_id t) = 0 \<and> \<not> is_expired t now \<and> contains (ct_rights t) r"
proof -
  from sys_inv_reachable [OF reach] t obtain n
    where n: "hm_get (cm_graph (sys_monitor s)) (ct_token_id t) = Some n"
      "rn_object_id n = ct_object_id t" "rn_rights n = ct_rights t" "ct_generation t = 0"
      "rn_live_generation n = of_nat (sys_hits s (ct_token_id t))"
    by (auto simp: sys_inv_def)
  have "(of_nat (sys_hits s (ct_token_id t)) :: u64) = 0 \<longleftrightarrow> sys_hits s (ct_token_id t) = 0"
    using hits by (auto simp: word_of_nat_eq_0_iff dest: dvd_imp_le)
  with n show ?thesis
    by (auto simp: check_rights_ok_iff is_live_def matches_record_def live_generation_def)
qed

theorem issued_token_authority_witness:
  "check_rights_ok (sys_monitor demo_state) demo_child READ 50
   \<and> \<not> check_rights_ok (sys_monitor demo_state) demo_child WRITE 50
   \<and> \<not> check_rights_ok (sys_monitor demo_state) demo_child READ 111"
proof -
  have t: "demo_child \<in> sys_issued demo_state" "sys_hits demo_state (ct_token_id demo_child) = 0"
    by (simp_all add: demo_state_def)
  have hits: "sys_hits demo_state (ct_token_id demo_child) < 2 ^ 64"
    unfolding t(2) by simp
  note auth = issued_token_authority [OF demo_reachable t(1) hits]
  show ?thesis
    unfolding auth t(2) by (simp add: demo_child_def is_expired_def contains_def rights_defs)
qed

text \<open>
  Claim C3: delegation attenuates.  A derived token names the parent's object, has no right
  the parent lacks, never outlives the parent, and is live at once if it has not expired;
  deriving it changes the liveness of no other token.
\<close>

theorem derive_attenuates:
  assumes wf: "monitor_wf NEXT m" and NEXT: "NEXT \<noteq> - 1"
    and derive: "cap_derive NEXT m p r ttl orig now now' = (Inr t, NEXT', m')"
  shows "ct_object_id t = ct_object_id p \<and> contains (ct_rights p) (ct_rights t)
         \<and> (\<forall>i. is_expired p i \<longrightarrow> is_expired t i)
         \<and> (\<forall>i. is_live m' t i \<longleftrightarrow> \<not> is_expired t i)
         \<and> monitor_wf NEXT' m'
         \<and> (\<forall>t' i. ct_token_id t' \<noteq> ct_token_id t \<longrightarrow> (is_live m' t' i \<longleftrightarrow> is_live m t' i))"
proof -
  note d = cap_derive_Inr [OF derive]
  have "is_expired t i" if "is_expired p i" for i
    using that by (cases "map_option (\<lambda>d. now' + d) ttl")
      (auto simp: d is_expired_def split: option.splits)
  moreover have "is_live m' t i \<longleftrightarrow> \<not> is_expired t i" for i
    by (auto simp: is_live_def d matches_record_def live_generation_def insert_child_def)
  moreover have "is_live m' t' i \<longleftrightarrow> is_live m t' i" if "ct_token_id t' \<noteq> ct_token_id t" for t' i
    using that
    by (auto simp: is_live_def d matches_record_def live_generation_def insert_child_def
        split: option.splits)
  ultimately show ?thesis
    using d cap_derive_graph_wf [OF wf NEXT derive] by simp
qed

theorem derive_attenuates_witness:
  "is_live demo_monitor demo_child 50 \<and> contains (ct_rights demo_root) (ct_rights demo_child)
   \<and> is_live demo_monitor demo_root 50"
proof -
  have NEXT: "(2 :: u64) \<noteq> - 1" by simp
  have "is_live demo_monitor1 demo_root 50"
    by (simp add: is_live_def matches_record_def live_generation_def is_expired_def demo_defs)
  with derive_attenuates [OF demo_monitor1_wf NEXT demo_derive] show ?thesis
    by (auto simp: demo_child_def demo_root_def is_expired_def)
qed

text \<open>
  Claim C4: authority is never amplified.  Whatever token is presented, forged or not, if
  it passes a check then every token it was delegated from, directly or not, names the same
  object and already carried the right that was used.
\<close>

theorem no_amplification:
  assumes reach: "cap_reachable s" and ok: "check_rights_ok (sys_monitor s) t r now"
    and p: "ct_token_id t \<in> subtree (cm_graph (sys_monitor s)) p"
      "hm_get (cm_graph (sys_monitor s)) p = Some np"
  shows "rn_object_id np = ct_object_id t \<and> contains (rn_rights np) r"
proof -
  from sys_inv_reachable [OF reach] have wf: "monitor_wf (sys_next s) (sys_monitor s)"
    by (simp add: sys_inv_def)
  from ok have live: "is_live (sys_monitor s) t now" and r: "contains (ct_rights t) r"
    by (simp_all add: check_rights_ok_iff)
  from live obtain n where n: "hm_get (cm_graph (sys_monitor s)) (ct_token_id t) = Some n"
    "rn_object_id n = ct_object_id t" "rn_rights n = ct_rights t"
    by (rule is_live_node)
  from subtree_attenuated [OF wf p] n r show ?thesis
    by (auto intro: contains_trans)
qed

theorem no_amplification_witness:
  "check_rights_ok demo_monitor demo_child READ 50 \<and> contains 63 READ"
proof -
  have ok: "check_rights_ok (sys_monitor demo_state) demo_child READ 50"
    by (simp add: check_rights_ok_iff is_live_def matches_record_def live_generation_def
        is_expired_def contains_def demo_state_def demo_defs rights_defs)
  have sub: "ct_token_id demo_child \<in> subtree (cm_graph (sys_monitor demo_state)) 1"
    using demo_subtree by (simp add: demo_state_def demo_child_def)
  have "contains (rn_rights \<lparr>rn_parent = None, rn_children = [2], rn_live_generation = 0,
      rn_object_id = 0, rn_rights = 63\<rparr>) READ"
    by (rule no_amplification [OF demo_reachable ok sub, THEN conjunct2])
      (simp add: demo_state_def demo_monitor_def)
  with ok show ?thesis by (simp add: demo_state_def)
qed

text \<open>
  A capability table hands out a free slot, the token is found there, no other
  slot changes, and giving the slot up again restores what the table showed before.
\<close>

theorem table_insert_remove:
  assumes "table_insert t tbl = (tbl', slot)"
  shows "table_get tbl slot = None \<and> table_get tbl' slot = Some t
         \<and> (\<forall>j. j \<noteq> slot \<longrightarrow> table_get tbl' j = table_get tbl j)
         \<and> table_len tbl' = Suc (table_len tbl)
         \<and> snd (table_remove slot tbl') = Some t
         \<and> table_get (fst (table_remove slot tbl')) = table_get tbl"
proof (cases "position (\<lambda>s. s = None) (tbl_slots tbl)")
  case None
  then have "tbl' = tbl\<lparr>tbl_slots := tbl_slots tbl @ [Some t]\<rparr>" "slot = length (tbl_slots tbl)"
    using assms by (auto simp: table_insert_def)
  then show ?thesis
    by (auto simp: table_get_def table_len_def table_remove_def nth_append fun_eq_iff
        nth_list_update)
next
  case (Some i)
  then have eq: "tbl' = tbl\<lparr>tbl_slots := (tbl_slots tbl)[i := Some t]\<rparr>" "slot = i"
    using assms by (auto simp: table_insert_def)
  from position_Some [OF Some] have i: "i < length (tbl_slots tbl)" "tbl_slots tbl ! i = None"
    by auto
  have len: "length (filter (\<lambda>s. s \<noteq> None) ((tbl_slots tbl)[i := Some t])) =
        Suc (length (filter (\<lambda>s. s \<noteq> None) (tbl_slots tbl)))"
    using i by (simp add: upd_conv_take_nth_drop)
       (subst (3) id_take_nth_drop [OF i(1)], simp add: i(2))
  from i len show ?thesis
    by (auto simp: eq table_get_def table_len_def table_remove_def nth_list_update fun_eq_iff)
qed

theorem table_insert_remove_witness:
  "table_get (fst (table_insert demo_child
      \<lparr>tbl_slots = [Some demo_root, None], tbl_boundary = 7, tbl_parent = None\<rparr>)) 1 = Some demo_child
   \<and> table_get (fst (table_insert demo_child
      \<lparr>tbl_slots = [Some demo_root, None], tbl_boundary = 7, tbl_parent = None\<rparr>)) 0 = Some demo_root"
proof -
  let ?tbl = "\<lparr>tbl_slots = [Some demo_root, None], tbl_boundary = 7, tbl_parent = None\<rparr>"
  have ins: "table_insert demo_child ?tbl = (fst (table_insert demo_child ?tbl), 1)"
    by (simp add: table_insert_def)
  have "table_get ?tbl 0 = Some demo_root" by (simp add: table_get_def)
  with table_insert_remove [OF ins] show ?thesis by simp
qed

end
