(* ===== verification/Wal.thy ===== *)
theory Wal
  imports Capability
begin

text \<open>
  The write-ahead log, \<open>crates/hyperion-storage/src/wal.rs\<close>, down to the bytes of its
  file: newline-delimited records, optionally sealed and hex-encoded, the replay that stops
  at a torn line, the fsynced append and the rewrite by rename; and the sealing key of
  \<open>crates/hyperion-crypto/src/sealed_stream.rs\<close> it uses.

  The JSON encoder and the cipher are third-party code: they are the fields of a
  \<open>wal_codec\<close>, a parameter of every definition, and \<open>codec_ok\<close> states what the log
  relies on.  A failing write or sync is an argument of the operation that suffers it.
\<close>

section \<open>Records and the third-party codecs\<close>

type_synonym bytes = "u8 list"

type_synonym st_object_id = u64
type_synonym version_id = u64

record 'v wal_record =
  wr_object_id :: st_object_id
  wr_prev_version :: "version_id option"
  wr_new_version :: version_id
  wr_metadata :: 'v
  wr_actor_origin :: u64

record 'v wal_codec =
  json_encode :: "'v wal_record \<Rightarrow> bytes option"
  json_decode :: "bytes \<Rightarrow> 'v wal_record option"
  aead_encrypt :: "bytes \<Rightarrow> bytes \<Rightarrow> bytes \<Rightarrow> bytes"
  aead_decrypt :: "bytes \<Rightarrow> bytes \<Rightarrow> bytes \<Rightarrow> bytes option"

section \<open>Sealing\<close>

datatype SealError = Truncated | DecryptionFailed

definition NONCE_LEN :: nat where "NONCE_LEN = 12"

definition seal :: "'v wal_codec \<Rightarrow> bytes \<Rightarrow> bytes \<Rightarrow> bytes \<Rightarrow> bytes" where
  "seal c key nonce plaintext = nonce @ aead_encrypt c key nonce plaintext"

definition open_sealed :: "'v wal_codec \<Rightarrow> bytes \<Rightarrow> bytes \<Rightarrow> (SealError, bytes) result" where
  "open_sealed c key sealed =
     (if length sealed < NONCE_LEN then Inl Truncated
      else case aead_decrypt c key (take NONCE_LEN sealed) (drop NONCE_LEN sealed) of
             None \<Rightarrow> Inl DecryptionFailed
           | Some plaintext \<Rightarrow> Inr plaintext)"

section \<open>Hexadecimal text\<close>

definition hex_digit :: "u8 \<Rightarrow> u8" where
  "hex_digit d = (if d < 10 then 48 + d else 87 + d)"

fun to_hex :: "bytes \<Rightarrow> bytes" where
  "to_hex [] = []"
| "to_hex (b # bs) = hex_digit (b div 16) # hex_digit (b mod 16) # to_hex bs"

definition digit_of :: "u8 \<Rightarrow> u8 option" where
  "digit_of ch =
     (if 48 \<le> ch \<and> ch \<le> 57 then Some (ch - 48)
      else if 97 \<le> ch \<and> ch \<le> 102 then Some (ch - 87)
      else if 65 \<le> ch \<and> ch \<le> 70 then Some (ch - 55)
      else None)"

text \<open>\<open>u8::from_str_radix\<close> on two bytes of text in base 16: a leading plus sign is
  accepted.\<close>

definition from_str_radix16 :: "u8 \<Rightarrow> u8 \<Rightarrow> u8 option" where
  "from_str_radix16 a b =
     (if a = 43 then digit_of b
      else case (digit_of a, digit_of b) of
             (Some x, Some y) \<Rightarrow> Some (x * 16 + y)
           | _ \<Rightarrow> None)"

text \<open>A string slice panics when an end of it is inside a character.\<close>

definition continuation_byte :: "u8 \<Rightarrow> bool" where
  "continuation_byte b \<longleftrightarrow> 128 \<le> b \<and> b \<le> 191"

datatype 'a outcome = Panicked | Returned 'a

fun from_hex_pairs :: "bytes \<Rightarrow> bytes option outcome" where
  "from_hex_pairs [] = Returned (Some [])"
| "from_hex_pairs [a] = Returned None"
| "from_hex_pairs (a # b # bs) =
     (if continuation_byte a \<or> (bs \<noteq> [] \<and> continuation_byte (hd bs)) then Panicked
      else case from_str_radix16 a b of
             None \<Rightarrow> Returned None
           | Some x \<Rightarrow>
               (case from_hex_pairs bs of
                  Panicked \<Rightarrow> Panicked
                | Returned r \<Rightarrow> Returned (map_option (\<lambda>xs. x # xs) r)))"

definition from_hex :: "bytes \<Rightarrow> bytes option outcome" where
  "from_hex s = (if odd (length s) then Returned None else from_hex_pairs s)"

section \<open>Text lines\<close>

text \<open>Valid UTF-8, which the line reader of the standard library insists on.\<close>

fun utf8_valid :: "bytes \<Rightarrow> bool" where
  "utf8_valid [] = True"
| "utf8_valid (b # bs) =
     (if b < 128 then utf8_valid bs
      else if 194 \<le> b \<and> b \<le> 223 then
        (case bs of x # r \<Rightarrow> continuation_byte x \<and> utf8_valid r | _ \<Rightarrow> False)
      else if 224 \<le> b \<and> b \<le> 239 then
        (case bs of
           x # y # r \<Rightarrow>
             (if b = 224 then 160 \<le> x \<and> x \<le> 191
              else if b = 237 then 128 \<le> x \<and> x \<le> 159
              else continuation_byte x)
             \<and> continuation_byte y \<and> utf8_valid r
         | _ \<Rightarrow> False)
      else if 240 \<le> b \<and> b \<le> 244 then
        (case bs of
           x # y # z # r \<Rightarrow>
             (if b = 240 then 144 \<le> x \<and> x \<le> 191
              else if b = 244 then 128 \<le> x \<and> x \<le> 143
              else continuation_byte x)
             \<and> continuation_byte y \<and> continuation_byte z \<and> utf8_valid r
         | _ \<Rightarrow> False)
      else False)"

text \<open>\<open>BufRead::lines\<close>: a line ends with a newline, which is dropped together with a
  carriage return before it; the last line may lack its newline.\<close>

definition drop_cr :: "bytes \<Rightarrow> bytes" where
  "drop_cr l = (if l \<noteq> [] \<and> last l = 13 then butlast l else l)"

fun lines_from :: "bytes \<Rightarrow> bytes \<Rightarrow> bytes list" where
  "lines_from acc [] = (if acc = [] then [] else [acc])"
| "lines_from acc (b # bs) =
     (if b = 10 then drop_cr acc # lines_from [] bs else lines_from (acc @ [b]) bs)"

definition lines_of :: "bytes \<Rightarrow> bytes list" where
  "lines_of file = lines_from [] file"

section \<open>The log\<close>

datatype io_error = InvalidData | WriteFailed | SyncFailed | CreateFailed | RenameFailed | OpenFailed

datatype StorageError =
    Unauthorized
  | NotFound
  | ConcurrentWriteConflict st_object_id "version_id option" "version_id option"
  | WalError io_error
  | Encoding
  | Panic

text \<open>An open log: the sealing key, and whether its file handle still is the file at the
  log's path (a rename can put another file there).\<close>

record wal =
  wal_seal :: "bytes option"
  wal_attached :: bool

definition open_for_append :: "bytes option \<Rightarrow> bytes option \<Rightarrow> wal \<times> bytes" where
  "open_for_append key file =
     (\<lparr>wal_seal = key, wal_attached = True\<rparr>, case file of None \<Rightarrow> [] | Some f \<Rightarrow> f)"

definition encode_line ::
    "'v wal_codec \<Rightarrow> bytes option \<Rightarrow> bytes \<Rightarrow> 'v wal_record \<Rightarrow> bytes option" where
  "encode_line c key nonce record =
     (case json_encode c record of
        None \<Rightarrow> None
      | Some plaintext \<Rightarrow>
          Some ((case key of Some k \<Rightarrow> to_hex (seal c k nonce plaintext) | None \<Rightarrow> plaintext) @ [10]))"

datatype append_io = AppendOk | WriteFails nat | SyncFails

definition append_and_fsync ::
    "'v wal_codec \<Rightarrow> bytes \<Rightarrow> append_io \<Rightarrow> 'v wal_record \<Rightarrow> wal \<Rightarrow> bytes
     \<Rightarrow> (StorageError, unit) result \<times> bytes" where
  "append_and_fsync c nonce io record w file =
     (case encode_line c (wal_seal w) nonce record of
        None \<Rightarrow> (Inl Encoding, file)
      | Some line \<Rightarrow>
          (let written = (\<lambda>n. if wal_attached w then file @ take n line else file)
           in case io of
                AppendOk \<Rightarrow> (Inr (), written (length line))
              | WriteFails n \<Rightarrow> (Inl (WalError WriteFailed), written n)
              | SyncFails \<Rightarrow> (Inl (WalError SyncFailed), written (length line))))"

definition parse_line ::
    "'v wal_codec \<Rightarrow> bytes option \<Rightarrow> bytes \<Rightarrow> 'v wal_record option outcome" where
  "parse_line c key line =
     (case key of
        Some k \<Rightarrow>
          (case from_hex line of
             Panicked \<Rightarrow> Panicked
           | Returned None \<Rightarrow> Returned None
           | Returned (Some sealed) \<Rightarrow>
               (case open_sealed c k sealed of
                  Inl _ \<Rightarrow> Returned None
                | Inr plaintext \<Rightarrow> Returned (json_decode c plaintext)))
      | None \<Rightarrow> Returned (json_decode c line))"

fun replay_loop ::
    "'v wal_codec \<Rightarrow> bytes option \<Rightarrow> bytes list \<Rightarrow> 'v wal_record list
     \<Rightarrow> (StorageError, 'v wal_record list) result" where
  "replay_loop c key [] records = Inr records"
| "replay_loop c key (line # lines) records =
     (if \<not> utf8_valid line then Inl (WalError InvalidData)
      else if line = [] then replay_loop c key lines records
      else case parse_line c key line of
             Panicked \<Rightarrow> Inl Panic
           | Returned None \<Rightarrow> Inr records
           | Returned (Some record) \<Rightarrow> replay_loop c key lines (records @ [record]))"

definition replay_lines ::
    "'v wal_codec \<Rightarrow> bytes option \<Rightarrow> bytes option \<Rightarrow> (StorageError, 'v wal_record list) result" where
  "replay_lines c key file =
     (case file of
        None \<Rightarrow> Inr []
      | Some f \<Rightarrow> replay_loop c key (lines_of f) [])"

definition replay ::
    "'v wal_codec \<Rightarrow> bytes option \<Rightarrow> (StorageError, 'v wal_record list) result" where
  "replay c file = replay_lines c None file"

definition replay_encrypted ::
    "'v wal_codec \<Rightarrow> bytes \<Rightarrow> bytes option \<Rightarrow> (StorageError, 'v wal_record list) result" where
  "replay_encrypted c key file = replay_lines c (Some key) file"

text \<open>
  The rewrite.  The replacement is written to a temporary file (a nonce drawn per record) and
  renamed over the log.  A failure before the rename leaves the log's file as it was; the
  reopening after the rename can fail too.  The handle \<open>w\<close> is the one the caller still
  holds: once another file has the log's path, what is written to it is not in the log.
\<close>

datatype compact_io = CompactOk | TmpFails io_error | RenameFails | ReopenFails

fun encode_lines ::
    "'v wal_codec \<Rightarrow> bytes option \<Rightarrow> (nat \<Rightarrow> bytes) \<Rightarrow> 'v wal_record list \<Rightarrow> bytes option" where
  "encode_lines c key nonces [] = Some []"
| "encode_lines c key nonces (r # rs) =
     (case encode_line c key (nonces 0) r of
        None \<Rightarrow> None
      | Some line \<Rightarrow>
          map_option (\<lambda>rest. line @ rest) (encode_lines c key (\<lambda>i. nonces (Suc i)) rs))"

definition compact_impl ::
    "'v wal_codec \<Rightarrow> (nat \<Rightarrow> bytes) \<Rightarrow> compact_io \<Rightarrow> 'v wal_record list \<Rightarrow> bytes option
     \<Rightarrow> wal \<Rightarrow> bytes \<Rightarrow> (StorageError, wal) result \<times> wal \<times> bytes" where
  "compact_impl c nonces io records key w file =
     (case io of
        TmpFails e \<Rightarrow> (Inl (WalError e), w, file)
      | _ \<Rightarrow>
          (case encode_lines c key nonces records of
             None \<Rightarrow> (Inl Encoding, w, file)
           | Some contents \<Rightarrow>
               (case io of
                  CompactOk \<Rightarrow>
                    (Inr (fst (open_for_append key (Some contents))), w\<lparr>wal_attached := False\<rparr>, contents)
                | ReopenFails \<Rightarrow>
                    (Inl (WalError OpenFailed), w\<lparr>wal_attached := False\<rparr>, contents)
                | _ \<Rightarrow> (Inl (WalError RenameFailed), w, file))))"

section \<open>What the log relies on\<close>

text \<open>
  The documented behaviour of the codecs: decoding inverts encoding, a JSON document on one
  line is non-empty UTF-8 text without a line break, and decryption inverts encryption
  under the same key and nonce.
\<close>

definition codec_ok :: "'v wal_codec \<Rightarrow> bool" where
  "codec_ok c \<longleftrightarrow>
     (\<forall>r p. json_encode c r = Some p \<longrightarrow>
        json_decode c p = Some r \<and> p \<noteq> [] \<and> last p \<noteq> 13 \<and> 10 \<notin> set p \<and> utf8_valid p)
     \<and> (\<forall>k n p. length n = NONCE_LEN \<longrightarrow> aead_decrypt c k n (aead_encrypt c k n p) = Some p)"

definition good_nonce :: "bytes option \<Rightarrow> bytes \<Rightarrow> bool" where
  "good_nonce key nonce \<longleftrightarrow> key = None \<or> length nonce = NONCE_LEN"

text \<open>A complete line of the file that holds a record, and a file made of such lines.\<close>

definition is_line :: "'v wal_codec \<Rightarrow> bytes option \<Rightarrow> bytes \<Rightarrow> 'v wal_record \<Rightarrow> bool" where
  "is_line c key l r \<longleftrightarrow>
     (\<exists>body. l = body @ [10] \<and> 10 \<notin> set body \<and> body \<noteq> [] \<and> last body \<noteq> 13 \<and> utf8_valid body
            \<and> parse_line c key body = Returned (Some r))"

definition log_file :: "'v wal_codec \<Rightarrow> bytes option \<Rightarrow> bytes \<Rightarrow> 'v wal_record list \<Rightarrow> bool" where
  "log_file c key file rs \<longleftrightarrow> (\<exists>ls. file = concat ls \<and> list_all2 (is_line c key) ls rs)"

section \<open>Hexadecimal text round trips\<close>

lemma u8_less_16_cases:
  fixes d :: u8
  assumes "d < 16"
  shows "d \<in> {0, 1, 2, 3, 4, 5, 6, 7, 8, 9, 10, 11, 12, 13, 14, 15}"
proof -
  have "unat d < 16" using assms by (simp add: word_less_nat_alt)
  then have "unat d \<in> {0, 1, 2, 3, 4, 5, 6, 7, 8, 9, 10, 11, 12, 13, 14, 15}"
    unfolding insert_iff empty_iff by presburger
  then show ?thesis by (simp add: word_unat_eq_iff)
qed

lemma hex_digit_facts:
  assumes "d < 16"
  shows "digit_of (hex_digit d) = Some d" "hex_digit d \<noteq> 43" "hex_digit d < 128"
    "hex_digit d \<noteq> 10" "hex_digit d \<noteq> 13"
proof -
  have "digit_of (hex_digit d) = Some d \<and> hex_digit d \<noteq> 43 \<and> hex_digit d < 128
    \<and> hex_digit d \<noteq> 10 \<and> hex_digit d \<noteq> 13"
    using u8_less_16_cases [OF assms] by (elim insertE emptyE) (simp_all add: digit_of_def hex_digit_def)
  then show "digit_of (hex_digit d) = Some d" "hex_digit d \<noteq> 43" "hex_digit d < 128"
    "hex_digit d \<noteq> 10" "hex_digit d \<noteq> 13" by blast+
qed

lemma u8_nibbles:
  fixes b :: u8
  shows "b div 16 < 16" "b mod 16 < 16"
proof -
  have "unat b < 256" using unsigned_less [of b] by simp
  then show "b div 16 < 16" by (simp add: word_less_nat_alt unat_div)
  show "b mod 16 < 16" by (simp add: word_less_nat_alt unat_mod)
qed

lemma from_str_radix16_hex:
  "from_str_radix16 (hex_digit (b div 16)) (hex_digit (b mod 16)) = Some b"
  using hex_digit_facts [OF u8_nibbles(1) [of b]] hex_digit_facts [OF u8_nibbles(2) [of b]]
  by (simp add: from_str_radix16_def div_mult_mod_eq)

lemma to_hex_ascii: "x \<in> set (to_hex bs) \<Longrightarrow> x < 128 \<and> x \<noteq> 10 \<and> x \<noteq> 13"
  by (induction bs) (auto simp: hex_digit_facts u8_nibbles)

lemma ascii_not_continuation: "x < 128 \<Longrightarrow> \<not> continuation_byte x"
  by (auto simp: continuation_byte_def)

lemma from_hex_pairs_to_hex: "from_hex_pairs (to_hex bs) = Returned (Some bs)"
proof (induction bs)
  case Nil
  then show ?case by simp
next
  case (Cons b bs)
  have "\<not> (to_hex bs \<noteq> [] \<and> continuation_byte (hd (to_hex bs)))"
    using to_hex_ascii [of "hd (to_hex bs)" bs] ascii_not_continuation by auto
  moreover have "\<not> continuation_byte (hex_digit (b div 16))"
    by (intro ascii_not_continuation hex_digit_facts u8_nibbles)
  ultimately show ?case using Cons by (simp add: from_str_radix16_hex)
qed

lemma length_to_hex [simp]: "length (to_hex bs) = 2 * length bs"
  by (induction bs) auto

lemma from_hex_to_hex: "from_hex (to_hex bs) = Returned (Some bs)"
  by (simp add: from_hex_def from_hex_pairs_to_hex)

lemma utf8_ascii: "\<forall>x \<in> set bs. x < 128 \<Longrightarrow> utf8_valid bs"
  by (induction bs) auto

section \<open>Lines\<close>

lemma lines_from_line:
  "10 \<notin> set l \<Longrightarrow> lines_from acc (l @ 10 # rest) = drop_cr (acc @ l) # lines_from [] rest"
  by (induction l arbitrary: acc) auto

lemma lines_of_line: "10 \<notin> set l \<Longrightarrow> lines_of (l @ 10 # rest) = drop_cr l # lines_of rest"
  by (simp add: lines_of_def lines_from_line)

lemma lines_from_torn: "10 \<notin> set l \<Longrightarrow> lines_from acc l = (if acc @ l = [] then [] else [acc @ l])"
  by (induction l arbitrary: acc) auto

lemma lines_of_torn: "10 \<notin> set l \<Longrightarrow> lines_of l = (if l = [] then [] else [l])"
  by (simp add: lines_of_def lines_from_torn)

lemma replay_line:
  assumes "is_line c key l r"
  shows "replay_loop c key (lines_of (l @ rest)) acc = replay_loop c key (lines_of rest) (acc @ [r])"
  using assms by (auto simp: is_line_def lines_of_line drop_cr_def)

lemma replay_log_file_torn:
  assumes log: "log_file c key file rs" and torn: "10 \<notin> set torn"
    "torn \<noteq> [] \<Longrightarrow> utf8_valid torn" "torn \<noteq> [] \<Longrightarrow> parse_line c key torn = Returned None"
  shows "replay_lines c key (Some (file @ torn)) = Inr rs"
proof -
  from log obtain ls where ls: "file = concat ls" "list_all2 (is_line c key) ls rs"
    by (auto simp: log_file_def)
  have "replay_loop c key (lines_of (concat ls @ torn)) acc = Inr (acc @ rs)" for acc
    using ls(2)
  proof (induction ls arbitrary: rs acc)
    case Nil
    then show ?case using torn by (simp add: lines_of_torn)
  next
    case (Cons l ls)
    then obtain r rs' where "rs = r # rs'" "is_line c key l r" "list_all2 (is_line c key) ls rs'"
      by (auto simp: list_all2_Cons1)
    with Cons.IH show ?case by (simp add: replay_line)
  qed
  then show ?thesis by (simp add: replay_lines_def ls(1))
qed

lemma replay_log_file: "log_file c key file rs \<Longrightarrow> replay_lines c key (Some file) = Inr rs"
  using replay_log_file_torn [of c key "file" rs "[]"] by simp

lemma log_file_empty: "log_file c key [] []"
  by (auto simp: log_file_def intro: exI [of _ "[]"])

lemma log_file_append:
  assumes "log_file c key file rs" "is_line c key l r"
  shows "log_file c key (file @ l) (rs @ [r])"
proof -
  from assms(1) obtain ls where "file = concat ls" "list_all2 (is_line c key) ls rs"
    by (auto simp: log_file_def)
  with assms(2) have "file @ l = concat (ls @ [l])" "list_all2 (is_line c key) (ls @ [l]) (rs @ [r])"
    by (auto intro: list_all2_appendI)
  then show ?thesis unfolding log_file_def by blast
qed

lemma log_file_Cons:
  assumes "is_line c key l r" "log_file c key file rs"
  shows "log_file c key (l @ file) (r # rs)"
proof -
  from assms(2) obtain ls where "file = concat ls" "list_all2 (is_line c key) ls rs"
    by (auto simp: log_file_def)
  with assms(1) have "l @ file = concat (l # ls)" "list_all2 (is_line c key) (l # ls) (r # rs)"
    by auto
  then show ?thesis unfolding log_file_def by blast
qed

lemma encode_line_is_line:
  assumes c: "codec_ok c" and nonce: "good_nonce key nonce"
    and line: "encode_line c key nonce r = Some l"
  shows "is_line c key l r"
proof -
  from line obtain p where p: "json_encode c r = Some p"
    "l = (case key of Some k \<Rightarrow> to_hex (seal c k nonce p) | None \<Rightarrow> p) @ [10]"
    by (auto simp: encode_line_def split: option.splits)
  with c have dec: "json_decode c p = Some r" "p \<noteq> []" "last p \<noteq> 13" "10 \<notin> set p" "utf8_valid p"
    by (auto simp: codec_ok_def)
  show ?thesis
  proof (cases key)
    case None
    with p dec show ?thesis by (auto simp: is_line_def parse_line_def)
  next
    case (Some k)
    with nonce have n: "length nonce = NONCE_LEN" by (simp add: good_nonce_def)
    let ?h = "to_hex (seal c k nonce p)"
    have "seal c k nonce p \<noteq> []" using n by (auto simp: seal_def NONCE_LEN_def)
    then have "?h \<noteq> []" by (cases "seal c k nonce p") auto
    moreover have "10 \<notin> set ?h" using to_hex_ascii by blast
    moreover have "last ?h \<noteq> 13" using to_hex_ascii \<open>?h \<noteq> []\<close> by (meson last_in_set)
    moreover have "utf8_valid ?h" using to_hex_ascii by (blast intro: utf8_ascii)
    moreover have "parse_line c key ?h = Returned (Some r)"
      using Some c n dec(1)
      by (simp add: parse_line_def from_hex_to_hex open_sealed_def seal_def codec_ok_def)
    ultimately show ?thesis using p Some by (auto simp: is_line_def)
  qed
qed

lemma encode_lines_log_file:
  assumes "codec_ok c" "encode_lines c key nonces rs = Some f" "\<And>i. good_nonce key (nonces i)"
  shows "log_file c key f rs"
  using assms(2,3)
proof (induction rs arbitrary: nonces f)
  case Nil
  then show ?case by (simp add: log_file_empty)
next
  case (Cons r rs)
  from Cons.prems(1) obtain l rest where l: "encode_line c key (nonces 0) r = Some l"
    "encode_lines c key (\<lambda>i. nonces (Suc i)) rs = Some rest" "f = l @ rest"
    by (auto split: option.splits)
  from encode_line_is_line [OF assms(1) Cons.prems(2) l(1)] have "is_line c key l r" .
  moreover have "log_file c key rest rs"
    by (rule Cons.IH [OF l(2)]) (rule Cons.prems(2))
  ultimately show ?case using l(3) by (simp add: log_file_Cons)
qed

section \<open>The interface of an append log\<close>

text \<open>
  What the storage engine and the event bus rely on: a file represents a list of records,
  replay returns that list, and an append adds one record at its end.
\<close>

locale append_log =
  fixes represents :: "'cfg \<Rightarrow> 'f \<Rightarrow> 'r list \<Rightarrow> bool"
    and append :: "'cfg \<Rightarrow> 'n \<Rightarrow> 'r \<Rightarrow> 'f \<Rightarrow> 'f option"
    and replayed :: "'cfg \<Rightarrow> 'f \<Rightarrow> 'r list option"
    and good :: "'cfg \<Rightarrow> 'n \<Rightarrow> bool"
  assumes represents_replayed: "represents cfg f rs \<Longrightarrow> replayed cfg f = Some rs"
    and represents_append:
      "represents cfg f rs \<Longrightarrow> good cfg n \<Longrightarrow> append cfg n r f = Some f' \<Longrightarrow> represents cfg f' (rs @ [r])"
begin

lemma appended_replay:
  "represents cfg f rs \<Longrightarrow> good cfg n \<Longrightarrow> append cfg n r f = Some f' \<Longrightarrow>
     replayed cfg f' = Some (rs @ [r])"
  using represents_append represents_replayed by blast

lemma append_all_replay:
  assumes "represents cfg f rs" "\<forall>(n, r) \<in> set nrs. good cfg n"
    "foldl (\<lambda>acc (n, r). Option.bind acc (append cfg n r)) (Some f) nrs = Some f'"
  shows "represents cfg f' (rs @ map snd nrs)"
  using assms
proof (induction nrs arbitrary: f rs)
  case Nil
  then show ?case by simp
next
  case (Cons nr nrs)
  obtain n r where nr: "nr = (n, r)" by (cases nr)
  have none: "foldl (\<lambda>acc (n, r). Option.bind acc (append cfg n r)) None xs = None" for xs
    by (induction xs) auto
  show ?case
  proof (cases "append cfg n r f")
    case None
    with Cons.prems none show ?thesis by (simp add: nr)
  next
    case (Some f1)
    with Cons.prems have "represents cfg f1 (rs @ [r])"
      by (auto simp: nr intro: represents_append)
    from Cons.IH [OF this] Cons.prems Some show ?thesis by (simp add: nr)
  qed
qed

end

definition wal_represents :: "'v wal_codec \<times> bytes option \<Rightarrow> bytes \<Rightarrow> 'v wal_record list \<Rightarrow> bool" where
  "wal_represents cfg file rs \<longleftrightarrow> codec_ok (fst cfg) \<and> log_file (fst cfg) (snd cfg) file rs"

definition wal_append ::
    "'v wal_codec \<times> bytes option \<Rightarrow> bytes \<Rightarrow> 'v wal_record \<Rightarrow> bytes \<Rightarrow> bytes option" where
  "wal_append cfg nonce r file =
     (case append_and_fsync (fst cfg) nonce AppendOk r
             \<lparr>wal_seal = snd cfg, wal_attached = True\<rparr> file of
        (Inr _, file') \<Rightarrow> Some file'
      | (Inl _, _) \<Rightarrow> None)"

definition wal_replayed :: "'v wal_codec \<times> bytes option \<Rightarrow> bytes \<Rightarrow> 'v wal_record list option" where
  "wal_replayed cfg file =
     (case replay_lines (fst cfg) (snd cfg) (Some file) of Inr rs \<Rightarrow> Some rs | Inl _ \<Rightarrow> None)"

lemma append_and_fsync_ok:
  assumes "append_and_fsync c nonce io r w file = (Inr u, file')" "wal_attached w"
  shows "io = AppendOk" "\<exists>l. encode_line c (wal_seal w) nonce r = Some l \<and> file' = file @ l"
  using assms by (auto simp: append_and_fsync_def Let_def split: option.splits append_io.splits)

lemma wal_append_Some:
  assumes "wal_append (c, key) nonce r file = Some file'"
  shows "\<exists>l. encode_line c key nonce r = Some l \<and> file' = file @ l"
proof -
  let ?w = "\<lparr>wal_seal = key, wal_attached = True\<rparr>"
  obtain res f where af: "append_and_fsync c nonce AppendOk r ?w file = (res, f)"
    by (cases "append_and_fsync c nonce AppendOk r ?w file")
  with assms have "res = Inr ()" "f = file'"
    by (auto simp: wal_append_def split: sum.splits)
  with af have "append_and_fsync c nonce AppendOk r ?w file = (Inr (), file')" by simp
  from append_and_fsync_ok(2) [OF this] show ?thesis by simp
qed

interpretation wal_log: append_log wal_represents wal_append wal_replayed "\<lambda>cfg. good_nonce (snd cfg)"
proof (rule append_log.intro)
  fix cfg :: "'v wal_codec \<times> bytes option" and f f' rs n r
  obtain c key where cfg: "cfg = (c, key)" by (cases cfg)
  show "wal_replayed cfg f = Some rs" if "wal_represents cfg f rs"
    using that replay_log_file [of "fst cfg" "snd cfg" f rs]
    by (simp add: wal_represents_def wal_replayed_def)
  assume a: "wal_represents cfg f rs" "good_nonce (snd cfg) n" "wal_append cfg n r f = Some f'"
  then obtain l where "encode_line c key n r = Some l" "f' = f @ l"
    using wal_append_Some [of c key n r f f'] by (auto simp: cfg)
  with a show "wal_represents cfg f' (rs @ [r])"
    by (simp add: wal_represents_def cfg log_file_append encode_line_is_line)
qed

section \<open>Crashes during an append\<close>

text \<open>
  What a truncated document is: the text of a JSON object cut short does not parse, and a
  sealed message cut short does not authenticate.
\<close>

definition codec_detects_truncation :: "'v wal_codec \<Rightarrow> bool" where
  "codec_detects_truncation c \<longleftrightarrow>
     (\<forall>r p n. json_encode c r = Some p \<longrightarrow> n < length p \<longrightarrow> json_decode c (take n p) = None)
     \<and> (\<forall>k nonce p n. n < length (aead_encrypt c k nonce p) \<longrightarrow>
          aead_decrypt c k nonce (take n (aead_encrypt c k nonce p)) = None)"

lemma take_to_hex: "take (2 * n) (to_hex bs) = to_hex (take n bs)"
proof (induction bs arbitrary: n)
  case Nil
  then show ?case by simp
next
  case (Cons b bs)
  then show ?case by (cases n) simp_all
qed

lemma from_hex_odd: "odd (length h) \<Longrightarrow> from_hex h = Returned None"
  by (simp add: from_hex_def)

lemma parse_truncated:
  assumes t: "codec_detects_truncation c" and nonce: "good_nonce key nonce"
    and p: "json_encode c r = Some p"
    and body: "body = (case key of Some k \<Rightarrow> to_hex (seal c k nonce p) | None \<Rightarrow> p)"
    and n: "n < length body"
  shows "parse_line c key (take n body) = Returned None"
proof (cases key)
  case None
  with assms show ?thesis by (simp add: parse_line_def codec_detects_truncation_def)
next
  case (Some k)
  let ?s = "seal c k nonce p"
  from Some body have body: "body = to_hex ?s" by simp
  show ?thesis
  proof (cases "odd n")
    case True
    with n have "from_hex (take n body) = Returned None"
      by (intro from_hex_odd) (simp add: min_def)
    with Some show ?thesis by (simp add: parse_line_def)
  next
    case False
    then obtain m where m: "n = 2 * m" by (auto elim: evenE)
    with n body have ms: "m < length ?s" by simp
    have hex: "from_hex (take n body) = Returned (Some (take m ?s))"
      by (simp add: body m take_to_hex from_hex_to_hex)
    have "\<exists>e. open_sealed c k (take m ?s) = Inl e"
    proof (cases "m < NONCE_LEN")
      case True
      with ms show ?thesis by (simp add: open_sealed_def)
    next
      case False
      from nonce Some have l: "length nonce = NONCE_LEN" by (simp add: good_nonce_def)
      with False have "take m ?s = nonce @ take (m - NONCE_LEN) (aead_encrypt c k nonce p)"
        by (simp add: seal_def)
      moreover have "m - NONCE_LEN < length (aead_encrypt c k nonce p)"
        using ms l False by (simp add: seal_def)
      ultimately show ?thesis
        using t l by (simp add: open_sealed_def codec_detects_truncation_def)
    qed
    with Some hex show ?thesis by (auto simp: parse_line_def)
  qed
qed

lemma encode_line_body:
  assumes "encode_line c key nonce r = Some l"
  obtains p where "json_encode c r = Some p"
    "l = (case key of Some k \<Rightarrow> to_hex (seal c k nonce p) | None \<Rightarrow> p) @ [10]"
  using assms by (auto simp: encode_line_def split: option.splits)

lemma torn_line:
  assumes "codec_ok c" "codec_detects_truncation c" "good_nonce key nonce"
    "encode_line c key nonce r = Some l" "n < length l - 1"
  shows "10 \<notin> set (take n l)" "parse_line c key (take n l) = Returned None"
proof -
  from encode_line_is_line [OF assms(1,3,4)] have "10 \<notin> set (butlast l)"
    by (auto simp: is_line_def)
  moreover have "take n l = take n (butlast l)" using assms(5) by (simp add: butlast_conv_take)
  ultimately show "10 \<notin> set (take n l)" by (metis in_set_takeD)
  from assms(4) obtain p where p: "json_encode c r = Some p"
    "l = (case key of Some k \<Rightarrow> to_hex (seal c k nonce p) | None \<Rightarrow> p) @ [10]"
    by (rule encode_line_body)
  from parse_truncated [OF assms(2,3) p(1) refl, of n] assms(5) p(2)
  show "parse_line c key (take n l) = Returned None" by simp
qed

lemma replay_unterminated:
  assumes log: "log_file c key f rs" and l: "is_line c key (body @ [10]) r"
  shows "replay_lines c key (Some (f @ body)) = Inr (rs @ [r])"
proof -
  from log obtain ls where ls: "f = concat ls" "list_all2 (is_line c key) ls rs"
    by (auto simp: log_file_def)
  have "replay_loop c key (lines_of (concat ls @ body)) acc = Inr (acc @ rs @ [r])" for acc
    using ls(2)
  proof (induction ls arbitrary: rs acc)
    case Nil
    then show ?case using l by (auto simp: is_line_def lines_of_torn)
  next
    case (Cons x xs)
    then obtain y ys where "rs = y # ys" "is_line c key x y" "list_all2 (is_line c key) xs ys"
      by (auto simp: list_all2_Cons1)
    with Cons.IH show ?case by (simp add: replay_line)
  qed
  then show ?thesis by (simp add: replay_lines_def ls(1))
qed

lemma replay_log_file_garbled:
  assumes log: "log_file c key file rs" and torn: "10 \<notin> set torn" "\<not> utf8_valid torn"
  shows "replay_lines c key (Some (file @ torn)) = Inl (WalError InvalidData)"
proof -
  from log obtain ls where ls: "file = concat ls" "list_all2 (is_line c key) ls rs"
    by (auto simp: log_file_def)
  have "torn \<noteq> []" using torn(2) by auto
  have "replay_loop c key (lines_of (concat ls @ torn)) acc = Inl (WalError InvalidData)" for acc
    using ls(2)
  proof (induction ls arbitrary: rs acc)
    case Nil
    then show ?case using torn \<open>torn \<noteq> []\<close> by (simp add: lines_of_torn)
  next
    case (Cons l ls)
    then obtain r rs' where "rs = r # rs'" "is_line c key l r" "list_all2 (is_line c key) ls rs'"
      by (auto simp: list_all2_Cons1)
    with Cons.IH show ?case by (simp add: replay_line)
  qed
  then show ?thesis by (simp add: replay_lines_def ls(1))
qed

text \<open>
  Claim C9: recovery after a crash in the middle of an append.  If the file holds the
  records \<open>rs\<close> and only the first \<open>n\<close> bytes of the line of the next record reached it,
  replay returns \<open>rs\<close> and the complete new record when only its newline is missing, and
  exactly \<open>rs\<close> when the cut is between two characters; nothing is half applied.  When the
  cut falls inside a multi-byte character the whole replay fails instead.
\<close>

theorem crash_recovery:
  assumes "codec_ok c" "codec_detects_truncation c" "good_nonce key nonce"
    "log_file c key f rs" "encode_line c key nonce r = Some l" "n < length l"
    "append_and_fsync c nonce (WriteFails n) r \<lparr>wal_seal = key, wal_attached = True\<rparr> f = (res, f')"
  shows "res = Inl (WalError WriteFailed)
    \<and> replay_lines c key (Some f') =
        (if n = length l - 1 then Inr (rs @ [r])
         else if utf8_valid (take n l) then Inr rs
         else Inl (WalError InvalidData))"
proof -
  have f': "res = Inl (WalError WriteFailed)" "f' = f @ take n l"
    using assms(5,7) by (auto simp: append_and_fsync_def)
  from encode_line_is_line [OF assms(1,3,5)] have l: "l = butlast l @ [10]" "10 \<notin> set (butlast l)"
    by (auto simp: is_line_def)
  show ?thesis
  proof (cases "n = length l - 1")
    case True
    with l encode_line_is_line [OF assms(1,3,5)] replay_unterminated [OF assms(4), of "butlast l" r]
    show ?thesis by (simp add: f' True butlast_conv_take)
  next
    case False
    with assms(6) have n: "n < length l - 1" by simp
    then have "take n l = take n (butlast l)" by (simp add: take_butlast)
    with l(2) have "10 \<notin> set (take n l)" by (auto dest: in_set_takeD)
    with torn_line [OF assms(1,2,3,5) n] replay_log_file_torn [OF assms(4), of "take n l"]
      replay_log_file_garbled [OF assms(4), of "take n l"]
    have "replay_lines c key (Some (f @ take n l)) =
        (if utf8_valid (take n l) then Inr rs else Inl (WalError InvalidData))" by simp
    with False show ?thesis by (simp only: f' if_False)
  qed
qed

text \<open>
  Claim C12: a torn line is never cut off.  After such a crash the log is reopened
  for appending behind the torn bytes, so that the next record, written and synced without
  an error, shares its line with them; if that line does not parse, replay returns the old
  records only, and the acknowledged record is lost, as is everything appended after it.
\<close>

theorem torn_append_loses_acknowledged:
  assumes "codec_ok c" "log_file c None f rs"
    "json_encode c r = Some p" "n < length p" "json_encode c r2 = Some p2"
    "utf8_valid (take n p @ p2)" "json_decode c (take n p @ p2) = None"
    "append_and_fsync c nonce AppendOk r2 (fst (open_for_append None (Some (f @ take n p))))
       (f @ take n p) = (res, f')"
  shows "res = Inr () \<and> replay c (Some (f' @ later)) = Inr rs"
proof -
  from assms(1,3,5) have p: "10 \<notin> set p" "p2 \<noteq> []" "last p2 \<noteq> 13" "10 \<notin> set p2"
    by (auto simp: codec_ok_def)
  then have torn: "10 \<notin> set (take n p @ p2)" "take n p @ p2 \<noteq> []" "last (take n p @ p2) \<noteq> 13"
    by (auto dest: in_set_takeD)
  from assms(2) obtain ls where ls: "f = concat ls" "list_all2 (is_line c None) ls rs"
    by (auto simp: log_file_def)
  have "replay_loop c None (lines_of (concat ls @ (take n p @ p2) @ 10 # later)) acc = Inr (acc @ rs)" for acc
    using ls(2)
  proof (induction ls arbitrary: rs acc)
    case Nil
    have "lines_of ((take n p @ p2) @ 10 # later) = (take n p @ p2) # lines_of later"
      using torn by (simp only: lines_of_line drop_cr_def simp_thms if_False)
    with Nil p(2) assms(6,7) show ?case by (simp add: parse_line_def del: append_assoc)
  next
    case (Cons x xs)
    then obtain y ys where "rs = y # ys" "is_line c None x y" "list_all2 (is_line c None) xs ys"
      by (auto simp: list_all2_Cons1)
    with Cons.IH show ?case by (simp add: replay_line)
  qed
  moreover have "res = Inr ()" "f' = f @ take n p @ p2 @ [10]"
    using assms(5,8) by (auto simp: append_and_fsync_def encode_line_def open_for_append_def)
  ultimately show ?thesis by (simp add: ls(1) replay_def replay_lines_def)
qed

text \<open>
  The hexadecimal form of a sealed record reads back as the same bytes, for every
  byte string; but reading is not total: on a text whose byte pairs split a multi-byte
  character (here the four bytes of an ASCII letter, a two-byte letter and an ASCII letter)
  the slice panics instead of reporting a malformed line.
\<close>

theorem hex_roundtrip:
  "from_hex (to_hex bs) = Returned (Some bs)
   \<and> utf8_valid [97, 195, 169, 97] \<and> from_hex [97, 195, 169, 97] = Panicked"
  by (simp only: from_hex_to_hex) (simp add: from_hex_def continuation_byte_def)

section \<open>A concrete codec\<close>

text \<open>
  Numbers in unary between braces: enough to run the log, with values that are numbers.
\<close>

definition enc_nat :: "nat \<Rightarrow> bytes" where
  "enc_nat n = replicate n 49 @ [44]"

fun dec_nat :: "bytes \<Rightarrow> (nat \<times> bytes) option" where
  "dec_nat [] = None"
| "dec_nat (b # bs) =
     (if b = 49 then map_option (\<lambda>(n, r). (Suc n, r)) (dec_nat bs)
      else if b = 44 then Some (0, bs) else None)"

definition enc_opt :: "u64 option \<Rightarrow> bytes" where
  "enc_opt x = enc_nat (case x of None \<Rightarrow> 0 | Some v \<Rightarrow> Suc (unat v))"

definition enc_body :: "nat wal_record \<Rightarrow> bytes" where
  "enc_body r =
     enc_nat (unat (wr_object_id r)) @ enc_opt (wr_prev_version r)
     @ enc_nat (unat (wr_new_version r)) @ enc_nat (wr_metadata r) @ enc_nat (unat (wr_actor_origin r))"

definition demo_encode :: "nat wal_record \<Rightarrow> bytes option" where
  "demo_encode r = Some (123 # enc_body r @ [125])"

definition dec_body :: "bytes \<Rightarrow> (nat wal_record \<times> bytes) option" where
  "dec_body b0 =
     Option.bind (dec_nat b0) (\<lambda>(obj, b1).
     Option.bind (dec_nat b1) (\<lambda>(prev, b2).
     Option.bind (dec_nat b2) (\<lambda>(new, b3).
     Option.bind (dec_nat b3) (\<lambda>(md, b4).
     Option.bind (dec_nat b4) (\<lambda>(actor, b5).
       Some (\<lparr>wr_object_id = of_nat obj,
              wr_prev_version = (case prev of 0 \<Rightarrow> None | Suc v \<Rightarrow> Some (of_nat v)),
              wr_new_version = of_nat new, wr_metadata = md, wr_actor_origin = of_nat actor\<rparr>, b5))))))"

definition demo_decode :: "bytes \<Rightarrow> nat wal_record option" where
  "demo_decode bs =
     (case bs of
        [] \<Rightarrow> None
      | b # rest \<Rightarrow>
          if b = 123
          then (case dec_body rest of Some (r, tail) \<Rightarrow> if tail = [125] then Some r else None | None \<Rightarrow> None)
          else None)"

fun pairs :: "bytes \<Rightarrow> bytes" where
  "pairs [] = [0]"
| "pairs (b # bs) = 1 # b # pairs bs"

fun unpairs :: "bytes \<Rightarrow> bytes option" where
  "unpairs [x] = (if x = 0 then Some [] else None)"
| "unpairs (x # b # bs) = (if x = 1 then map_option (Cons b) (unpairs bs) else None)"
| "unpairs [] = None"

definition demo_codec :: "nat wal_codec" where
  "demo_codec = \<lparr>json_encode = demo_encode, json_decode = demo_decode,
     aead_encrypt = (\<lambda>k n p. pairs p), aead_decrypt = (\<lambda>k n s. unpairs s)\<rparr>"

lemma dec_enc_nat [simp]: "dec_nat (enc_nat n @ rest) = Some (n, rest)"
  by (induction n) (simp_all add: enc_nat_def)

lemma dec_enc_body: "dec_body (enc_body r @ rest) = Some (r, rest)"
  by (cases "wr_prev_version r") (simp_all add: dec_body_def enc_body_def enc_opt_def)

lemma set_enc_nat: "set (enc_nat n) \<subseteq> {49, 44}"
  by (auto simp: enc_nat_def)

lemma set_enc_body: "set (enc_body r) \<subseteq> {49, 44}"
  using set_enc_nat by (auto simp: enc_body_def enc_opt_def)

lemma unpairs_pairs: "unpairs (pairs p) = Some p"
  by (induction p) simp_all

lemma demo_codec_ok: "codec_ok demo_codec"
proof -
  have "x < 128 \<and> x \<noteq> 10" if "x \<in> set (enc_body r)" for x r
    using that set_enc_body [of r] by auto
  then have "utf8_valid (123 # enc_body r @ [125])" "10 \<notin> set (enc_body r)" for r
    by (auto intro!: utf8_ascii)
  then show ?thesis
    by (simp add: codec_ok_def demo_codec_def demo_encode_def demo_decode_def dec_enc_body unpairs_pairs)
qed

lemma dec_nat_set: "dec_nat bs = Some (n, r) \<Longrightarrow> set r \<subseteq> set bs"
  by (induction bs arbitrary: n) (auto split: if_splits)

lemma dec_body_set: "dec_body bs = Some (r, tail) \<Longrightarrow> set tail \<subseteq> set bs"
  by (fastforce simp: dec_body_def Option.bind_eq_Some_conv dest: dec_nat_set)

lemma unpairs_truncated: "n < length (pairs p) \<Longrightarrow> unpairs (take n (pairs p)) = None"
proof (induction p arbitrary: n)
  case Nil
  then show ?case by simp
next
  case (Cons b p)
  then show ?case by (cases n; cases "n - 1") auto
qed

lemma demo_codec_truncation: "codec_detects_truncation demo_codec"
proof -
  have "demo_decode (take n (123 # enc_body r @ [125])) = None" if "n < length (enc_body r) + 2" for n r
  proof (cases n)
    case 0
    then show ?thesis by (simp add: demo_decode_def)
  next
    case (Suc m)
    with that have "125 \<notin> set (take m (enc_body r @ [125]))"
      using set_enc_body [of r] by (auto dest: in_set_takeD)
    with Suc show ?thesis
      by (auto simp: demo_decode_def split: option.splits dest!: dec_body_set)
  qed
  then show ?thesis
    by (simp add: codec_detects_truncation_def demo_codec_def demo_encode_def unpairs_truncated)
qed

definition demo_record :: "nat \<Rightarrow> nat wal_record" where
  "demo_record n = \<lparr>wr_object_id = of_nat n, wr_prev_version = None, wr_new_version = of_nat n,
     wr_metadata = 1, wr_actor_origin = 0\<rparr>"

lemmas demo_wal_defs = demo_codec_def demo_encode_def demo_decode_def enc_body_def enc_opt_def
  enc_nat_def demo_record_def

theorem crash_recovery_witness:
  "\<exists>res f'. append_and_fsync demo_codec (replicate 12 0) (WriteFails 5) (demo_record 0)
       \<lparr>wal_seal = Some [7], wal_attached = True\<rparr> [] = (res, f')
     \<and> res = Inl (WalError WriteFailed) \<and> replay_lines demo_codec (Some [7]) (Some f') = Inr []"
proof -
  let ?body = "to_hex (replicate 12 0 @ pairs (123 # enc_body (demo_record 0) @ [125]))"
  have l: "encode_line demo_codec (Some [7]) (replicate 12 0) (demo_record 0) = Some (?body @ [10])"
    by (simp add: encode_line_def seal_def demo_codec_def demo_encode_def)
  have nonce: "good_nonce (Some [7]) (replicate 12 0)"
    by (simp add: good_nonce_def NONCE_LEN_def)
  have n: "5 < length (?body @ [10])" "5 \<noteq> length (?body @ [10]) - 1" by simp_all
  have u: "utf8_valid (take 5 (?body @ [10]))"
    using to_hex_ascii by (intro utf8_ascii) (fastforce dest: in_set_takeD)
  obtain res f' where "append_and_fsync demo_codec (replicate 12 0) (WriteFails 5) (demo_record 0)
      \<lparr>wal_seal = Some [7], wal_attached = True\<rparr> [] = (res, f')"
    by fastforce
  with crash_recovery [OF demo_codec_ok demo_codec_truncation nonce log_file_empty l n(1) this] n(2) u
  show ?thesis by auto
qed

theorem torn_append_loses_acknowledged_witness:
  "\<exists>f'. append_and_fsync demo_codec [] AppendOk (demo_record 1)
       (fst (open_for_append None (Some (take 2 (123 # enc_body (demo_record 0) @ [125])))))
       (take 2 (123 # enc_body (demo_record 0) @ [125])) = (Inr (), f')
     \<and> replay demo_codec (Some f') = Inr []"
proof -
  let ?p = "\<lambda>i. 123 # enc_body (demo_record i) @ [125]"
  have e: "json_encode demo_codec (demo_record i) = Some (?p i)" for i
    by (simp add: demo_codec_def demo_encode_def)
  have u: "utf8_valid (take 2 (?p 0) @ ?p 1)" "json_decode demo_codec (take 2 (?p 0) @ ?p 1) = None"
    "2 < length (?p 0)"
    by (simp_all add: demo_wal_defs dec_body_def)
  obtain res f' where a: "append_and_fsync demo_codec [] AppendOk (demo_record 1)
      (fst (open_for_append None (Some ([] @ take 2 (?p 0))))) ([] @ take 2 (?p 0)) = (res, f')"
    by fastforce
  from torn_append_loses_acknowledged [OF demo_codec_ok log_file_empty e u(3) e u(1,2) a, of "[]"] a
  show ?thesis by auto
qed

end
