(* ===== verification/Storage.thy ===== *)
theory Storage
  imports Wal
begin

text \<open>
  The storage engine, \<open>crates/hyperion-storage/src/engine.rs\<close> and \<open>types.rs\<close>: two
  materialized views (the metadata and the version chain) over the write-ahead log of
  theory Wal, with compare-and-swap writes, reads of any version, compaction to the heads
  and the purge of one object.  The state of an operation is the engine and the bytes of
  the log's file; a JSON value is a type parameter.

  The lemmas relate an engine to the list of records its file holds: \<open>engine_refines\<close>.
  Every operation keeps the relation, for the list of records it is meant to leave, so
  that an engine opened on the file answers every read alike.
\<close>

section \<open>Definitions\<close>

record 'v version_record =
  vr_object_id :: st_object_id
  vr_parent_version :: "version_id option"
  vr_metadata :: 'v

record 'v storage_engine =
  se_wal :: wal
  se_metadata :: "(st_object_id, 'v) hashmap"
  se_version_pointer :: "(st_object_id, version_id) hashmap"
  se_version_chain :: "(version_id, 'v version_record) hashmap"
  se_next_object_id :: u64
  se_next_version_id :: u64
  se_encryption_key :: "bytes option"

type_synonym 'v storage = "'v storage_engine \<times> bytes"

definition version_record_of :: "'v wal_record \<Rightarrow> 'v version_record" where
  "version_record_of r = \<lparr>vr_object_id = wr_object_id r, vr_parent_version = wr_prev_version r,
     vr_metadata = wr_metadata r\<rparr>"

definition apply_record :: "'v wal_record \<Rightarrow> 'v storage_engine \<Rightarrow> 'v storage_engine" where
  "apply_record r e = e\<lparr>
     se_metadata := hm_insert (wr_object_id r) (wr_metadata r) (se_metadata e),
     se_version_pointer := hm_insert (wr_object_id r) (wr_new_version r) (se_version_pointer e),
     se_version_chain := hm_insert (wr_new_version r) (version_record_of r) (se_version_chain e),
     se_next_object_id := max (se_next_object_id e) (wr_object_id r + 1),
     se_next_version_id := max (se_next_version_id e) (wr_new_version r + 1)\<rparr>"

definition empty_engine :: "wal \<Rightarrow> bytes option \<Rightarrow> 'v storage_engine" where
  "empty_engine w key = \<lparr>se_wal = w, se_metadata = [], se_version_pointer = [],
     se_version_chain = [], se_next_object_id = 0, se_next_version_id = 0, se_encryption_key = key\<rparr>"

definition open_impl ::
    "'v wal_codec \<Rightarrow> bytes option \<Rightarrow> bytes option \<Rightarrow> (StorageError, 'v storage) result" where
  "open_impl c key file =
     (case (case key of Some k \<Rightarrow> replay_encrypted c k file | None \<Rightarrow> replay c file) of
        Inl e \<Rightarrow> Inl e
      | Inr records \<Rightarrow>
          (let (w, file') = open_for_append key file
           in Inr (fold apply_record records (empty_engine w key), file')))"

definition storage_open :: "'v wal_codec \<Rightarrow> bytes option \<Rightarrow> (StorageError, 'v storage) result" where
  "storage_open c file = open_impl c None file"

definition open_encrypted ::
    "'v wal_codec \<Rightarrow> bytes option \<Rightarrow> bytes \<Rightarrow> (StorageError, 'v storage) result" where
  "open_encrypted c file key = open_impl c (Some key) file"

definition put_object ::
    "'v wal_codec \<Rightarrow> bytes \<Rightarrow> append_io \<Rightarrow> capability_monitor \<Rightarrow> capability_token \<Rightarrow> instant
     \<Rightarrow> st_object_id option \<Rightarrow> version_id option \<Rightarrow> 'v \<Rightarrow> 'v storage
     \<Rightarrow> (StorageError, st_object_id \<times> version_id) result \<times> 'v storage" where
  "put_object c nonce io monitor token now object_id expected_version md s =
     (case s of (e, file) \<Rightarrow>
      case check_rights_ok_result monitor token WRITE now of
        Inl _ \<Rightarrow> (Inl Unauthorized, s)
      | Inr _ \<Rightarrow>
          (let (oid, e) =
             (case object_id of
                Some i \<Rightarrow> (i, e)
              | None \<Rightarrow> (se_next_object_id e, e\<lparr>se_next_object_id := se_next_object_id e + 1\<rparr>));
               current = hm_get (se_version_pointer e) oid
           in if current \<noteq> expected_version
              then (Inl (ConcurrentWriteConflict oid expected_version current), (e, file))
              else
                let new_version = se_next_version_id e;
                    record = \<lparr>wr_object_id = oid, wr_prev_version = current,
                              wr_new_version = new_version, wr_metadata = md,
                              wr_actor_origin = ct_origin token\<rparr>
                in case append_and_fsync c nonce io record (se_wal e) file of
                     (Inl err, file') \<Rightarrow> (Inl err, (e, file'))
                   | (Inr _, file') \<Rightarrow>
                       (Inr (oid, new_version),
                        (e\<lparr>se_next_version_id := se_next_version_id e + 1,
                           se_metadata := hm_insert oid md (se_metadata e),
                           se_version_pointer := hm_insert oid new_version (se_version_pointer e),
                           se_version_chain := hm_insert new_version
                             \<lparr>vr_object_id = oid, vr_parent_version = current, vr_metadata = md\<rparr>
                             (se_version_chain e)\<rparr>, file'))))"

definition get_object ::
    "capability_monitor \<Rightarrow> capability_token \<Rightarrow> instant \<Rightarrow> 'v storage_engine
     \<Rightarrow> st_object_id \<Rightarrow> version_id option \<Rightarrow> (StorageError, 'v) result" where
  "get_object monitor token now e object_id version =
     (case check_rights_ok_result monitor token READ now of
        Inl _ \<Rightarrow> Inl Unauthorized
      | Inr _ \<Rightarrow>
          (case version of
             Some v \<Rightarrow>
               (case hm_get (se_version_chain e) v of
                  Some rec \<Rightarrow>
                    if vr_object_id rec = object_id then Inr (vr_metadata rec) else Inl NotFound
                | None \<Rightarrow> Inl NotFound)
           | None \<Rightarrow> ok_or NotFound (hm_get (se_metadata e) object_id)))"

definition current_version :: "'v storage_engine \<Rightarrow> st_object_id \<Rightarrow> version_id option" where
  "current_version e object_id = hm_get (se_version_pointer e) object_id"

definition head_records ::
    "'v \<Rightarrow> capability_token \<Rightarrow> 'v storage_engine \<Rightarrow> 'v wal_record list" where
  "head_records Null token e =
     map (\<lambda>(object_id, head_version).
            \<lparr>wr_object_id = object_id, wr_prev_version = None, wr_new_version = head_version,
             wr_metadata = (case hm_get (se_metadata e) object_id of Some m \<Rightarrow> m | None \<Rightarrow> Null),
             wr_actor_origin = ct_origin token\<rparr>)
       (se_version_pointer e)"

definition compact ::
    "'v wal_codec \<Rightarrow> 'v \<Rightarrow> (nat \<Rightarrow> bytes) \<Rightarrow> compact_io \<Rightarrow> capability_monitor \<Rightarrow> capability_token
     \<Rightarrow> instant \<Rightarrow> 'v storage \<Rightarrow> (StorageError, nat) result \<times> 'v storage" where
  "compact c Null nonces io monitor token now s =
     (case s of (e, file) \<Rightarrow>
      case check_rights_ok_result monitor token WRITE now of
        Inl _ \<Rightarrow> (Inl Unauthorized, s)
      | Inr _ \<Rightarrow>
          (case compact_impl c nonces io (head_records Null token e) (se_encryption_key e)
                  (se_wal e) file of
             (Inl err, w, file') \<Rightarrow> (Inl err, (e\<lparr>se_wal := w\<rparr>, file'))
           | (Inr w, _, file') \<Rightarrow>
               (let before = length (se_version_chain e);
                    heads = hm_values (se_version_pointer e);
                    chain = hm_map_values (\<lambda>r. r\<lparr>vr_parent_version := None\<rparr>)
                              (hm_retain (\<lambda>v _. v \<in> set heads) (se_version_chain e))
                in (Inr (before - length chain),
                    (e\<lparr>se_wal := w, se_version_chain := chain\<rparr>, file')))))"

definition surviving_records ::
    "capability_token \<Rightarrow> st_object_id \<Rightarrow> 'v storage_engine \<Rightarrow> 'v wal_record list" where
  "surviving_records token object_id e =
     map snd (sort_key fst
       (map (\<lambda>(v, rec). (v, \<lparr>wr_object_id = vr_object_id rec, wr_prev_version = vr_parent_version rec,
                             wr_new_version = v, wr_metadata = vr_metadata rec,
                             wr_actor_origin = ct_origin token\<rparr>))
         (filter (\<lambda>(_, rec). vr_object_id rec \<noteq> object_id) (se_version_chain e))))"

definition purge_object ::
    "'v wal_codec \<Rightarrow> (nat \<Rightarrow> bytes) \<Rightarrow> compact_io \<Rightarrow> capability_monitor \<Rightarrow> capability_token
     \<Rightarrow> instant \<Rightarrow> st_object_id \<Rightarrow> 'v storage \<Rightarrow> (StorageError, nat) result \<times> 'v storage" where
  "purge_object c nonces io monitor token now object_id s =
     (case s of (e, file) \<Rightarrow>
      case check_rights_ok_result monitor token WRITE now of
        Inl _ \<Rightarrow> (Inl Unauthorized, s)
      | Inr _ \<Rightarrow>
          if \<not> hm_contains_key (se_metadata e) object_id
             \<and> \<not> list_ex (\<lambda>rec. vr_object_id rec = object_id) (hm_values (se_version_chain e))
          then (Inl NotFound, s)
          else
            let purged_count =
                  length (filter (\<lambda>rec. vr_object_id rec = object_id) (hm_values (se_version_chain e)))
            in case compact_impl c nonces io (surviving_records token object_id e)
                      (se_encryption_key e) (se_wal e) file of
                 (Inl err, w, file') \<Rightarrow> (Inl err, (e\<lparr>se_wal := w\<rparr>, file'))
               | (Inr w, _, file') \<Rightarrow>
                   (Inr purged_count,
                    (e\<lparr>se_wal := w,
                       se_metadata := hm_remove object_id (se_metadata e),
                       se_version_pointer := hm_remove object_id (se_version_pointer e),
                       se_version_chain :=
                         hm_retain (\<lambda>_ rec. vr_object_id rec \<noteq> object_id) (se_version_chain e)\<rparr>,
                     file')))"

section \<open>The records a file holds and the views over them\<close>

definition head_of :: "'v wal_record list \<Rightarrow> st_object_id \<Rightarrow> 'v wal_record option" where
  "head_of rs o' = find (\<lambda>r. wr_object_id r = o') (rev rs)"

definition view_metadata :: "'v wal_record list \<Rightarrow> st_object_id \<Rightarrow> 'v option" where
  "view_metadata rs o' = map_option wr_metadata (head_of rs o')"

definition view_pointer :: "'v wal_record list \<Rightarrow> st_object_id \<Rightarrow> version_id option" where
  "view_pointer rs o' = map_option wr_new_version (head_of rs o')"

definition view_chain :: "'v wal_record list \<Rightarrow> version_id \<Rightarrow> 'v version_record option" where
  "view_chain rs v = map_option version_record_of (find (\<lambda>r. wr_new_version r = v) (rev rs))"

text \<open>Versions are never used twice, and those of one object come in increasing order.\<close>

definition ordered_log :: "'v wal_record list \<Rightarrow> bool" where
  "ordered_log rs \<longleftrightarrow>
     distinct (map wr_new_version rs)
     \<and> sorted_wrt (\<lambda>r s. wr_object_id r = wr_object_id s \<longrightarrow> wr_new_version r < wr_new_version s) rs"

definition engine_views :: "'v storage_engine \<Rightarrow> 'v wal_record list \<Rightarrow> bool" where
  "engine_views e rs \<longleftrightarrow>
     hm_get (se_metadata e) = view_metadata rs
     \<and> hm_get (se_version_pointer e) = view_pointer rs
     \<and> hm_get (se_version_chain e) = view_chain rs
     \<and> hm_wf (se_metadata e) \<and> hm_wf (se_version_pointer e) \<and> hm_wf (se_version_chain e)
     \<and> (\<forall>r \<in> set rs. wr_new_version r < se_next_version_id e)"

definition engine_refines :: "'v wal_codec \<Rightarrow> 'v storage \<Rightarrow> 'v wal_record list \<Rightarrow> bool" where
  "engine_refines c s rs \<longleftrightarrow>
     codec_ok c
     \<and> se_wal (fst s) = \<lparr>wal_seal = se_encryption_key (fst s), wal_attached = True\<rparr>
     \<and> log_file c (se_encryption_key (fst s)) (snd s) rs
     \<and> ordered_log rs \<and> engine_views (fst s) rs"

lemma find_rev_snoc:
  "find P (rev (xs @ [x])) = (if P x then Some x else find P (rev xs))"
  by simp

lemma find_rev_Some: "find P (rev xs) = Some x \<Longrightarrow> x \<in> set xs \<and> P x"
  by (induction xs rule: rev_induct) (auto split: if_splits)

lemma find_rev_None: "find P (rev xs) = None \<longleftrightarrow> (\<forall>x \<in> set xs. \<not> P x)"
  by (auto simp: find_None_iff)

lemma head_of_snoc: "head_of (rs @ [r]) o' = (if wr_object_id r = o' then Some r else head_of rs o')"
  by (simp add: head_of_def)

lemma views_snoc:
  "view_metadata (rs @ [r]) = (view_metadata rs)(wr_object_id r \<mapsto> wr_metadata r)"
  "view_pointer (rs @ [r]) = (view_pointer rs)(wr_object_id r \<mapsto> wr_new_version r)"
  "view_chain (rs @ [r]) = (view_chain rs)(wr_new_version r \<mapsto> version_record_of r)"
  by (auto simp: view_metadata_def view_pointer_def view_chain_def head_of_snoc fun_eq_iff)

lemma views_Nil [simp]:
  "view_metadata [] = Map.empty" "view_pointer [] = Map.empty" "view_chain [] = Map.empty"
  by (auto simp: view_metadata_def view_pointer_def view_chain_def head_of_def)

lemma ordered_log_snoc:
  assumes "ordered_log rs" "\<forall>s \<in> set rs. wr_new_version s < wr_new_version r"
  shows "ordered_log (rs @ [r])"
  using assms by (fastforce simp: ordered_log_def sorted_wrt_append)

lemma ordered_log_unique:
  "ordered_log rs \<Longrightarrow> r \<in> set rs \<Longrightarrow> s \<in> set rs \<Longrightarrow> wr_new_version r = wr_new_version s \<Longrightarrow> r = s"
  by (auto simp: ordered_log_def distinct_map dest: inj_onD)

lemma view_chain_iff:
  assumes "ordered_log rs"
  shows "view_chain rs v = Some vr \<longleftrightarrow>
    (\<exists>r \<in> set rs. wr_new_version r = v \<and> vr = version_record_of r)"
proof
  assume "view_chain rs v = Some vr"
  then show "\<exists>r \<in> set rs. wr_new_version r = v \<and> vr = version_record_of r"
    by (auto simp: view_chain_def dest: find_rev_Some)
next
  assume "\<exists>r \<in> set rs. wr_new_version r = v \<and> vr = version_record_of r"
  then obtain r where r: "r \<in> set rs" "wr_new_version r = v" "vr = version_record_of r" by blast
  show "view_chain rs v = Some vr"
  proof (cases "find (\<lambda>r. wr_new_version r = v) (rev rs)")
    case None
    with r show ?thesis by (simp add: find_rev_None)
  next
    case (Some r')
    with r find_rev_Some [OF Some] ordered_log_unique [OF assms] have "r' = r" by blast
    with Some r show ?thesis by (simp add: view_chain_def)
  qed
qed

lemma head_of_None: "head_of rs o' = None \<longleftrightarrow> (\<forall>x \<in> set rs. wr_object_id x \<noteq> o')"
  by (simp add: head_of_def find_rev_None)

lemma head_of_max:
  "ordered_log rs \<Longrightarrow> head_of rs o' = Some r \<Longrightarrow> s \<in> set rs \<Longrightarrow> wr_object_id s = o' \<Longrightarrow>
     wr_new_version s \<le> wr_new_version r"
proof (induction rs rule: rev_induct)
  case Nil
  then show ?case by simp
next
  case (snoc x xs)
  then have "ordered_log xs" by (auto simp: ordered_log_def sorted_wrt_append)
  with snoc show ?case
    by (auto simp: head_of_snoc ordered_log_def sorted_wrt_append less_imp_le split: if_splits)
qed

lemma head_of_iff:
  assumes "ordered_log rs"
  shows "head_of rs o' = Some r \<longleftrightarrow>
    r \<in> set rs \<and> wr_object_id r = o'
    \<and> (\<forall>s \<in> set rs. wr_object_id s = o' \<longrightarrow> wr_new_version s \<le> wr_new_version r)"
proof
  assume h: "head_of rs o' = Some r"
  with head_of_max [OF assms h] find_rev_Some [of _ rs r]
  show "r \<in> set rs \<and> wr_object_id r = o'
    \<and> (\<forall>s \<in> set rs. wr_object_id s = o' \<longrightarrow> wr_new_version s \<le> wr_new_version r)"
    by (auto simp: head_of_def)
next
  assume r: "r \<in> set rs \<and> wr_object_id r = o'
    \<and> (\<forall>s \<in> set rs. wr_object_id s = o' \<longrightarrow> wr_new_version s \<le> wr_new_version r)"
  then obtain r' where r': "head_of rs o' = Some r'"
    by (cases "head_of rs o'") (auto simp: head_of_def find_rev_None)
  then have "r' \<in> set rs" "wr_object_id r' = o'"
    by (auto simp: head_of_def dest: find_rev_Some)
  with r head_of_max [OF assms r'] have "wr_new_version r' = wr_new_version r"
    by (auto intro: antisym)
  with ordered_log_unique [OF assms] \<open>r' \<in> set rs\<close> r r' show "head_of rs o' = Some r" by auto
qed

lemma apply_record_views:
  assumes "engine_views e rs" "wr_new_version r \<noteq> - 1"
  shows "engine_views (apply_record r e) (rs @ [r])"
  using assms(1) word_less_add_one [OF assms(2)]
  by (auto simp: engine_views_def apply_record_def views_snoc fun_eq_iff less_max_iff_disj)

lemma fold_apply_views:
  assumes "\<forall>r \<in> set rs. wr_new_version r \<noteq> - 1"
  shows "engine_views (fold apply_record rs (empty_engine w key)) rs"
  using assms
proof (induction rs rule: rev_induct)
  case Nil
  then show ?case by (simp add: engine_views_def empty_engine_def)
next
  case (snoc r rs)
  then show ?case by (auto intro: apply_record_views)
qed

lemma fold_apply_keeps [simp]:
  "se_wal (fold apply_record rs e) = se_wal e"
  "se_encryption_key (fold apply_record rs e) = se_encryption_key e"
  by (induction rs arbitrary: e) (simp_all add: apply_record_def)

lemma open_impl_eq:
  "open_impl c key file =
     (case replay_lines c key file of
        Inl e \<Rightarrow> Inl e
      | Inr records \<Rightarrow> Inr (fold apply_record records
          (empty_engine \<lparr>wal_seal = key, wal_attached = True\<rparr> key),
          case file of None \<Rightarrow> [] | Some f \<Rightarrow> f))"
  by (cases key) (simp_all add: open_impl_def replay_encrypted_def replay_def open_for_append_def
      split: sum.splits)

text \<open>An engine opened on the file of another one has the same views.\<close>

lemma reopen_refines:
  assumes "engine_refines c (e, f) rs"
  shows "\<exists>e'. open_impl c (se_encryption_key e) (Some f) = Inr (e', f)
    \<and> engine_refines c (e', f) rs \<and> se_encryption_key e' = se_encryption_key e"
proof -
  let ?e = "fold apply_record rs
    (empty_engine \<lparr>wal_seal = se_encryption_key e, wal_attached = True\<rparr> (se_encryption_key e))"
  from assms have "replay_lines c (se_encryption_key e) (Some f) = Inr rs"
    by (simp add: engine_refines_def replay_log_file)
  then have "open_impl c (se_encryption_key e) (Some f) = Inr (?e, f)"
    by (simp add: open_impl_eq)
  moreover have "\<forall>r \<in> set rs. wr_new_version r \<noteq> - 1"
    using assms by (fastforce simp: engine_refines_def engine_views_def)
  then have "engine_views ?e rs" by (rule fold_apply_views)
  then have "engine_refines c (?e, f) rs"
    using assms by (simp add: engine_refines_def empty_engine_def)
  moreover have "se_encryption_key ?e = se_encryption_key e" by (simp add: empty_engine_def)
  ultimately show ?thesis by blast
qed

lemma fresh_refines:
  "codec_ok c \<Longrightarrow> \<exists>e. open_impl c key None = Inr (e, []) \<and> engine_refines c (e, []) []"
  by (auto simp: open_impl_eq replay_lines_def engine_refines_def empty_engine_def log_file_empty
      ordered_log_def engine_views_def)

section \<open>Every operation keeps the relation\<close>

definition put_target :: "'v storage_engine \<Rightarrow> st_object_id option \<Rightarrow> st_object_id" where
  "put_target e object_id = (case object_id of Some i \<Rightarrow> i | None \<Rightarrow> se_next_object_id e)"

definition put_record ::
    "capability_token \<Rightarrow> 'v storage_engine \<Rightarrow> st_object_id option \<Rightarrow> 'v \<Rightarrow> 'v wal_record" where
  "put_record token e object_id md =
     \<lparr>wr_object_id = put_target e object_id,
      wr_prev_version = hm_get (se_version_pointer e) (put_target e object_id),
      wr_new_version = se_next_version_id e, wr_metadata = md, wr_actor_origin = ct_origin token\<rparr>"

definition allocate :: "st_object_id option \<Rightarrow> 'v storage_engine \<Rightarrow> 'v storage_engine" where
  "allocate object_id e =
     (case object_id of Some _ \<Rightarrow> e | None \<Rightarrow> e\<lparr>se_next_object_id := se_next_object_id e + 1\<rparr>)"

definition commit_record :: "'v wal_record \<Rightarrow> 'v storage_engine \<Rightarrow> 'v storage_engine" where
  "commit_record r e = e\<lparr>
     se_next_version_id := se_next_version_id e + 1,
     se_metadata := hm_insert (wr_object_id r) (wr_metadata r) (se_metadata e),
     se_version_pointer := hm_insert (wr_object_id r) (wr_new_version r) (se_version_pointer e),
     se_version_chain := hm_insert (wr_new_version r) (version_record_of r) (se_version_chain e)\<rparr>"

lemma allocate_keeps [simp]:
  "se_wal (allocate i e) = se_wal e" "se_metadata (allocate i e) = se_metadata e"
  "se_version_pointer (allocate i e) = se_version_pointer e"
  "se_version_chain (allocate i e) = se_version_chain e"
  "se_next_version_id (allocate i e) = se_next_version_id e"
  "se_encryption_key (allocate i e) = se_encryption_key e"
  by (auto simp: allocate_def split: option.splits)

lemma engine_views_allocate [simp]: "engine_views (allocate i e) rs \<longleftrightarrow> engine_views e rs"
  by (simp add: engine_views_def)

lemma put_object_eq:
  "put_object c nonce io monitor token now object_id expected md (e, f) =
     (if \<not> check_rights_ok monitor token WRITE now then (Inl Unauthorized, (e, f))
      else if hm_get (se_version_pointer e) (put_target e object_id) \<noteq> expected
      then (Inl (ConcurrentWriteConflict (put_target e object_id) expected
              (hm_get (se_version_pointer e) (put_target e object_id))), (allocate object_id e, f))
      else case append_and_fsync c nonce io (put_record token e object_id md) (se_wal e) f of
             (Inl err, f') \<Rightarrow> (Inl err, (allocate object_id e, f'))
           | (Inr _, f') \<Rightarrow>
               (Inr (put_target e object_id, se_next_version_id e),
                (commit_record (put_record token e object_id md) (allocate object_id e), f')))"
  by (cases rule: check_rights_ok_result_cases [of monitor token WRITE now]; cases object_id)
    (simp_all add: put_object_def put_record_def put_target_def allocate_def commit_record_def
      version_record_of_def Let_def split: prod.splits sum.splits)

lemma commit_record_views:
  assumes "engine_views e rs" "wr_new_version r = se_next_version_id e" "se_next_version_id e \<noteq> - 1"
  shows "engine_views (commit_record r e) (rs @ [r])"
  using assms word_less_add_one [OF assms(3)]
  by (auto simp: engine_views_def commit_record_def views_snoc fun_eq_iff intro: less_trans)

lemma append_ok_cases:
  assumes "wal_attached w"
  obtains (err) err where "append_and_fsync c nonce AppendOk r w f = (Inl err, f)"
      "encode_line c (wal_seal w) nonce r = None" "err = Encoding"
  | (ok) l where "append_and_fsync c nonce AppendOk r w f = (Inr (), f @ l)"
      "encode_line c (wal_seal w) nonce r = Some l"
  using assms by (cases "encode_line c (wal_seal w) nonce r") (auto simp: append_and_fsync_def)

lemma put_object_refines:
  assumes ref: "engine_refines c (e, f) rs" and nonce: "good_nonce (se_encryption_key e) nonce"
    and next_v: "se_next_version_id e \<noteq> - 1"
    and put: "put_object c nonce AppendOk monitor token now object_id expected md (e, f) = (res, s')"
  shows "engine_refines c s'
    (case res of Inl _ \<Rightarrow> rs | Inr _ \<Rightarrow> rs @ [put_record token e object_id md])"
proof (cases "check_rights_ok monitor token WRITE now
    \<and> hm_get (se_version_pointer e) (put_target e object_id) = expected")
  case False
  then have "res = Inl Unauthorized \<and> s' = (e, f) \<or> (\<exists>x. res = Inl x) \<and> s' = (allocate object_id e, f)"
    using put by (auto simp: put_object_eq split: if_splits)
  then show ?thesis using ref by (auto simp: engine_refines_def)
next
  case True
  let ?r = "put_record token e object_id md"
  have w: "wal_attached (se_wal e)" "wal_seal (se_wal e) = se_encryption_key e"
    using ref by (simp_all add: engine_refines_def)
  from w(1) show ?thesis
  proof (cases rule: append_ok_cases [of "se_wal e" c nonce ?r f])
    case err
    with True put ref show ?thesis by (auto simp: put_object_eq engine_refines_def)
  next
    case (ok l)
    from ok True put have s': "s' = (commit_record ?r (allocate object_id e), f @ l)"
      "res = Inr (put_target e object_id, se_next_version_id e)"
      by (auto simp: put_object_eq)
    have "is_line c (se_encryption_key e) l ?r"
      using encode_line_is_line ref nonce ok(2) w(2) by (auto simp: engine_refines_def)
    moreover have "ordered_log (rs @ [?r])"
      using ref by (intro ordered_log_snoc) (simp_all add: engine_refines_def engine_views_def put_record_def)
    moreover have "engine_views (commit_record ?r (allocate object_id e)) (rs @ [?r])"
      using ref next_v by (intro commit_record_views) (simp_all add: engine_refines_def put_record_def)
    moreover have "se_wal (commit_record ?r (allocate object_id e)) = se_wal e"
      "se_encryption_key (commit_record ?r (allocate object_id e)) = se_encryption_key e"
      by (simp_all add: commit_record_def)
    ultimately show ?thesis
      using ref by (simp add: s' engine_refines_def log_file_append)
  qed
qed

lemma put_object_untouched:
  assumes "engine_refines c (e, f) rs"
    "put_object c nonce (WriteFails 0) monitor token now object_id expected md (e, f) = (res, s')"
  shows "engine_refines c s' rs"
proof -
  have "s' = (e, f) \<or> s' = (allocate object_id e, f)"
    using assms(2) by (auto simp: put_object_eq append_and_fsync_def Let_def split: if_splits option.splits)
  then show ?thesis using assms(1) by (auto simp: engine_refines_def)
qed

lemma put_object_Inr_io:
  assumes "put_object c nonce io monitor token now object_id expected md (e, f) = (Inr x, s')"
  shows "io = AppendOk"
  using assms by (cases io) (auto simp: put_object_eq append_and_fsync_def Let_def split: if_splits option.splits)

definition good_nonces :: "bytes option \<Rightarrow> (nat \<Rightarrow> bytes) \<Rightarrow> bool" where
  "good_nonces key nonces \<longleftrightarrow> (\<forall>i. good_nonce key (nonces i))"

lemma compact_impl_ok:
  assumes "compact_impl c nonces io rs key w0 f = (Inr w, w1, f')" "codec_ok c"
    "good_nonces key nonces"
  shows "w = \<lparr>wal_seal = key, wal_attached = True\<rparr>" "log_file c key f' rs" "io = CompactOk"
proof -
  have enc: "encode_lines c key nonces rs = Some f'"
    and w: "w = \<lparr>wal_seal = key, wal_attached = True\<rparr>" and io: "io = CompactOk"
    using assms(1)
    by (auto simp: compact_impl_def open_for_append_def split: compact_io.splits option.splits)
  then show "w = \<lparr>wal_seal = key, wal_attached = True\<rparr>" "io = CompactOk" by blast+
  show "log_file c key f' rs"
    using assms(2,3) enc by (intro encode_lines_log_file) (auto simp: good_nonces_def)
qed

lemma compact_impl_err:
  assumes "compact_impl c nonces io rs key w0 f = (Inl err, w1, f')" "io \<noteq> ReopenFails"
  shows "f' = f" "w1 = w0"
  using assms by (auto simp: compact_impl_def split: compact_io.splits option.splits)

lemma view_pointer_Some:
  "view_pointer rs o' = Some v \<longleftrightarrow> (\<exists>r. head_of rs o' = Some r \<and> wr_new_version r = v)"
  by (auto simp: view_pointer_def)

lemma head_of_Some:
  assumes "head_of rs o' = Some r"
  shows "r \<in> set rs" "wr_object_id r = o'"
  using assms by (auto simp: head_of_def dest: find_rev_Some)

lemma engine_pointer_mem:
  assumes "engine_views e rs"
  shows "(o', v) \<in> set (se_version_pointer e) \<longleftrightarrow>
    (\<exists>r. head_of rs o' = Some r \<and> wr_new_version r = v)"
  using assms by (simp add: engine_views_def hm_mem_get view_pointer_Some)

text \<open>The record a head leaves in the compacted log.\<close>

definition genesis :: "u64 \<Rightarrow> 'v wal_record \<Rightarrow> 'v wal_record" where
  "genesis origin r = r\<lparr>wr_prev_version := None, wr_actor_origin := origin\<rparr>"

lemma genesis_simps [simp]:
  "wr_object_id (genesis a r) = wr_object_id r" "wr_new_version (genesis a r) = wr_new_version r"
  "wr_metadata (genesis a r) = wr_metadata r" "wr_prev_version (genesis a r) = None"
  by (simp_all add: genesis_def)

lemma version_record_of_genesis:
  "version_record_of (genesis a r) = (version_record_of r)\<lparr>vr_parent_version := None\<rparr>"
  by (simp add: version_record_of_def)

lemma head_record_eq:
  assumes "engine_views e rs" "head_of rs o' = Some r"
  shows "\<lparr>wr_object_id = o', wr_prev_version = None, wr_new_version = wr_new_version r,
      wr_metadata = (case hm_get (se_metadata e) o' of Some m \<Rightarrow> m | None \<Rightarrow> Null),
      wr_actor_origin = a\<rparr> = genesis a r"
  using assms head_of_Some [OF assms(2)]
  by (simp add: genesis_def engine_views_def view_metadata_def)

lemma mem_head_records:
  assumes "engine_views e rs"
  shows "x \<in> set (head_records Null token e) \<longleftrightarrow>
    (\<exists>o' r. head_of rs o' = Some r \<and> x = genesis (ct_origin token) r)"
proof
  assume "x \<in> set (head_records Null token e)"
  then obtain o' v where ov: "(o', v) \<in> set (se_version_pointer e)"
    and x: "x = \<lparr>wr_object_id = o', wr_prev_version = None, wr_new_version = v,
      wr_metadata = (case hm_get (se_metadata e) o' of Some m \<Rightarrow> m | None \<Rightarrow> Null),
      wr_actor_origin = ct_origin token\<rparr>"
    by (auto simp: head_records_def)
  from ov obtain r where "head_of rs o' = Some r" "wr_new_version r = v"
    by (auto simp: engine_pointer_mem [OF assms])
  with x head_record_eq [OF assms] show "\<exists>o' r. head_of rs o' = Some r \<and> x = genesis (ct_origin token) r"
    by blast
next
  assume "\<exists>o' r. head_of rs o' = Some r \<and> x = genesis (ct_origin token) r"
  then obtain o' r where r: "head_of rs o' = Some r" "x = genesis (ct_origin token) r" by blast
  then have "(o', wr_new_version r) \<in> set (se_version_pointer e)"
    by (auto simp: engine_pointer_mem [OF assms])
  then show "x \<in> set (head_records Null token e)"
    unfolding head_records_def r(2) head_record_eq [OF assms r(1), symmetric, where Null = Null]
    by (force intro: image_eqI)
qed

lemma head_records_ordered:
  assumes "engine_views e rs" "ordered_log rs"
  shows "ordered_log (head_records Null token e)"
proof -
  have keys: "map wr_object_id (head_records Null token e) = map fst (se_version_pointer e)"
    and vers: "map wr_new_version (head_records Null token e) = map snd (se_version_pointer e)"
    by (auto simp: head_records_def)
  have wf: "hm_wf (se_version_pointer e)" using assms(1) by (simp add: engine_views_def)
  have "o1 = o2" if "(o1, v) \<in> set (se_version_pointer e)" "(o2, v) \<in> set (se_version_pointer e)" for o1 o2 v
  proof -
    from that obtain r1 r2 where "head_of rs o1 = Some r1" "head_of rs o2 = Some r2"
      "wr_new_version r1 = wr_new_version r2"
      by (auto simp: engine_pointer_mem [OF assms(1)])
    then show ?thesis
      using head_of_Some ordered_log_unique [OF assms(2), of r1 r2] by metis
  qed
  then have "inj_on snd (set (se_version_pointer e))" by (auto simp: inj_on_def)
  moreover have "distinct (se_version_pointer e)" using wf by (simp add: distinct_map)
  ultimately have "distinct (map snd (se_version_pointer e))" by (simp add: distinct_map)
  moreover have "sorted_wrt (\<lambda>r s. wr_object_id r \<noteq> wr_object_id s) (head_records Null token e)"
  proof -
    from wf have "distinct (map wr_object_id (head_records Null token e))" by (simp only: keys)
    then show ?thesis by (simp only: distinct_iff_sorted_wrt sorted_wrt_map)
  qed
  then have "sorted_wrt (\<lambda>r s. wr_object_id r = wr_object_id s \<longrightarrow> wr_new_version r < wr_new_version s)
      (head_records Null token e)"
    by (rule sorted_wrt_mono_rel [rotated]) blast
  ultimately show ?thesis by (simp add: ordered_log_def vers)
qed

lemma head_of_head_records:
  assumes "engine_views e rs" "ordered_log rs"
  shows "head_of (head_records Null token e) o' = map_option (genesis (ct_origin token)) (head_of rs o')"
proof (cases "head_of rs o'")
  case None
  then have "\<forall>x \<in> set (head_records Null token e). wr_object_id x \<noteq> o'"
    using head_of_Some(2) by (fastforce simp: mem_head_records [OF assms(1)])
  then have "head_of (head_records Null token e) o' = None" by (simp add: head_of_None)
  with None show ?thesis by simp
next
  case (Some r)
  have "s = genesis (ct_origin token) r" if "s \<in> set (head_records Null token e)" "wr_object_id s = o'" for s
    using that Some head_of_Some(2) by (fastforce simp: mem_head_records [OF assms(1)])
  then have "head_of (head_records Null token e) o' = Some (genesis (ct_origin token) r)"
    using Some head_of_Some(2) [OF Some]
    by (auto simp: head_of_iff [OF head_records_ordered [OF assms]] mem_head_records [OF assms(1)])
  with Some show ?thesis by simp
qed

definition compact_chain :: "'v storage_engine \<Rightarrow> (version_id, 'v version_record) hashmap" where
  "compact_chain e =
     hm_map_values (\<lambda>r. r\<lparr>vr_parent_version := None\<rparr>)
       (hm_retain (\<lambda>v _. v \<in> set (hm_values (se_version_pointer e))) (se_version_chain e))"

lemma heads_iff:
  assumes "engine_views e rs"
  shows "v \<in> set (hm_values (se_version_pointer e)) \<longleftrightarrow>
    (\<exists>o' r. head_of rs o' = Some r \<and> wr_new_version r = v)"
  using assms by (auto simp: engine_views_def set_hm_values view_pointer_Some)

lemma compact_chain_get:
  assumes v: "engine_views e rs" and o: "ordered_log rs"
  shows "hm_get (compact_chain e) = view_chain (head_records Null token e)"
proof
  fix w
  have chain: "hm_get (se_version_chain e) w = Some vr \<longleftrightarrow>
      (\<exists>r \<in> set rs. wr_new_version r = w \<and> vr = version_record_of r)" for vr
    using v view_chain_iff [OF o] by (simp add: engine_views_def)
  have wf: "hm_wf (se_version_chain e)" using v by (simp add: engine_views_def)
  have "hm_get (compact_chain e) w = Some vr \<longleftrightarrow>
      view_chain (head_records Null token e) w = Some vr" for vr
  proof -
    have "hm_get (compact_chain e) w = Some vr \<longleftrightarrow>
        (\<exists>x. hm_get (se_version_chain e) w = Some x \<and> w \<in> set (hm_values (se_version_pointer e))
           \<and> vr = x\<lparr>vr_parent_version := None\<rparr>)"
      by (auto simp: compact_chain_def hm_retain_get [OF wf] split: option.splits)
    also have "\<dots> \<longleftrightarrow> (\<exists>r \<in> set rs. wr_new_version r = w \<and> w \<in> set (hm_values (se_version_pointer e))
           \<and> vr = (version_record_of r)\<lparr>vr_parent_version := None\<rparr>)"
      unfolding chain by blast
    also have "\<dots> \<longleftrightarrow> (\<exists>o' r. head_of rs o' = Some r \<and> wr_new_version r = w
           \<and> vr = (version_record_of r)\<lparr>vr_parent_version := None\<rparr>)"
      using ordered_log_unique [OF o] head_of_Some(1) by (metis heads_iff [OF v])
    also have "\<dots> \<longleftrightarrow> (\<exists>x \<in> set (head_records Null token e). wr_new_version x = w \<and> vr = version_record_of x)"
      by (force simp: Bex_def mem_head_records [OF v] version_record_of_genesis)
    finally show ?thesis by (simp add: view_chain_iff [OF head_records_ordered [OF v o]])
  qed
  then show "hm_get (compact_chain e) w = view_chain (head_records Null token e) w"
    by (cases "view_chain (head_records Null token e) w") (auto simp: option.expand)
qed

lemma compact_eq:
  "compact c Null nonces io monitor token now (e, f) =
     (if \<not> check_rights_ok monitor token WRITE now then (Inl Unauthorized, (e, f))
      else case compact_impl c nonces io (head_records Null token e) (se_encryption_key e) (se_wal e) f of
             (Inl err, w, f') \<Rightarrow> (Inl err, (e\<lparr>se_wal := w\<rparr>, f'))
           | (Inr w, _, f') \<Rightarrow>
               (Inr (length (se_version_chain e) - length (compact_chain e)),
                (e\<lparr>se_wal := w, se_version_chain := compact_chain e\<rparr>, f')))"
  by (cases rule: check_rights_ok_result_cases [of monitor token WRITE now])
    (simp_all add: compact_def compact_chain_def Let_def split: prod.splits sum.splits)

lemma compact_refines:
  assumes ref: "engine_refines c (e, f) rs"
    and nonces: "good_nonces (se_encryption_key e) nonces"
    and io: "io \<noteq> ReopenFails"
    and comp: "compact c Null nonces io monitor token now (e, f) = (res, s')"
  shows "engine_refines c s' (case res of Inl _ \<Rightarrow> rs | Inr _ \<Rightarrow> head_records Null token e)"
proof (cases res)
  case (Inl err)
  with comp io have "s' = (e, f)"
    by (auto simp: compact_eq split: if_splits prod.splits sum.splits dest: compact_impl_err)
  with Inl ref show ?thesis by simp
next
  case (Inr n)
  let ?rs = "head_records Null token e"
  from Inr comp obtain w w1 f' where
    w: "compact_impl c nonces io ?rs (se_encryption_key e) (se_wal e) f = (Inr w, w1, f')"
    and s': "s' = (e\<lparr>se_wal := w, se_version_chain := compact_chain e\<rparr>, f')"
    by (auto simp: compact_eq split: if_splits prod.splits sum.splits)
  have ev: "engine_views e rs" "ordered_log rs" "codec_ok c" using ref by (simp_all add: engine_refines_def)
  note impl = compact_impl_ok [OF w ev(3) nonces]
  have "hm_get (se_metadata e) = view_metadata ?rs" "hm_get (se_version_pointer e) = view_pointer ?rs"
    using ev(1)
    by (auto simp: engine_views_def view_metadata_def view_pointer_def fun_eq_iff
        head_of_head_records [OF ev(1,2)] option.map_comp comp_def)
  moreover have "\<forall>r \<in> set ?rs. wr_new_version r < se_next_version_id e"
    using ev(1) head_of_Some(1) by (fastforce simp: mem_head_records [OF ev(1)] engine_views_def)
  moreover have "hm_wf (compact_chain e)"
    using ev(1) by (simp add: compact_chain_def engine_views_def hm_wf_retain)
  ultimately have "engine_views (e\<lparr>se_wal := w, se_version_chain := compact_chain e\<rparr>) ?rs"
    using ev(1) compact_chain_get [OF ev(1,2)] by (simp add: engine_views_def)
  with Inr impl ev(3) head_records_ordered [OF ev(1,2)] show ?thesis
    by (simp add: s' engine_refines_def)
qed

text \<open>The record of another object that a purge leaves in the log.\<close>

definition restamp :: "u64 \<Rightarrow> 'v wal_record \<Rightarrow> 'v wal_record" where
  "restamp origin r = r\<lparr>wr_actor_origin := origin\<rparr>"

lemma restamp_simps [simp]:
  "wr_object_id (restamp a r) = wr_object_id r" "wr_new_version (restamp a r) = wr_new_version r"
  "wr_metadata (restamp a r) = wr_metadata r" "wr_prev_version (restamp a r) = wr_prev_version r"
  "version_record_of (restamp a r) = version_record_of r"
  by (simp_all add: restamp_def version_record_of_def)

lemma restamp_eq:
  "\<lparr>wr_object_id = vr_object_id (version_record_of r),
    wr_prev_version = vr_parent_version (version_record_of r), wr_new_version = wr_new_version r,
    wr_metadata = vr_metadata (version_record_of r), wr_actor_origin = a\<rparr> = restamp a r"
  by (simp add: restamp_def version_record_of_def)

lemma engine_chain_mem:
  assumes "engine_views e rs" "ordered_log rs"
  shows "(v, vr) \<in> set (se_version_chain e) \<longleftrightarrow>
    (\<exists>r \<in> set rs. wr_new_version r = v \<and> vr = version_record_of r)"
  using assms(1) view_chain_iff [OF assms(2)] by (simp add: engine_views_def hm_mem_get)

lemma mem_surviving_records:
  assumes "engine_views e rs" "ordered_log rs"
  shows "x \<in> set (surviving_records token obj e) \<longleftrightarrow>
    (\<exists>r \<in> set rs. wr_object_id r \<noteq> obj \<and> x = restamp (ct_origin token) r)"
proof -
  have "x \<in> set (surviving_records token obj e) \<longleftrightarrow>
      (\<exists>v vr. (v, vr) \<in> set (se_version_chain e) \<and> vr_object_id vr \<noteq> obj
        \<and> x = \<lparr>wr_object_id = vr_object_id vr, wr_prev_version = vr_parent_version vr,
               wr_new_version = v, wr_metadata = vr_metadata vr, wr_actor_origin = ct_origin token\<rparr>)"
    by (force simp: surviving_records_def)
  also have "\<dots> \<longleftrightarrow> (\<exists>r \<in> set rs. vr_object_id (version_record_of r) \<noteq> obj
        \<and> x = restamp (ct_origin token) r)"
    unfolding engine_chain_mem [OF assms] restamp_eq [symmetric] by blast
  finally show ?thesis by (simp add: version_record_of_def)
qed

lemma strict_sorted_sort_key:
  "distinct (map f xs) \<Longrightarrow> sorted_wrt (<) (map f (sort_key f xs))"
  unfolding strict_sorted_iff by (simp add: distinct_map)

lemma surviving_records_sorted:
  assumes "hm_wf (se_version_chain e)"
  shows "sorted_wrt (<) (map wr_new_version (surviving_records token obj e))"
proof -
  let ?f = "\<lambda>(v, rec). (v, \<lparr>wr_object_id = vr_object_id rec, wr_prev_version = vr_parent_version rec,
      wr_new_version = v, wr_metadata = vr_metadata rec, wr_actor_origin = ct_origin token\<rparr>)"
  let ?kept = "filter (\<lambda>(_, rec). vr_object_id rec \<noteq> obj) (se_version_chain e)"
  let ?xs = "sort_key fst (map ?f ?kept)"
  have "\<forall>x \<in> set ?xs. wr_new_version (snd x) = fst x" by auto
  then have vers: "map wr_new_version (surviving_records token obj e) = map fst ?xs"
    by (simp add: surviving_records_def comp_def)
  have "map fst (map ?f ?kept) = map fst ?kept" by (simp add: comp_def case_prod_unfold)
  moreover have "distinct (map fst ?kept)" using assms by (rule distinct_map_filter)
  ultimately have "distinct (map fst (map ?f ?kept))" by (simp only:)
  then show ?thesis
    unfolding vers by (rule strict_sorted_sort_key)
qed

lemma surviving_records_ordered:
  assumes "hm_wf (se_version_chain e)"
  shows "ordered_log (surviving_records token obj e)"
proof -
  note strict = surviving_records_sorted [OF assms, of token obj]
  then have "sorted_wrt (\<lambda>r s. wr_new_version r < wr_new_version s) (surviving_records token obj e)"
    by (simp add: sorted_wrt_map)
  then have "sorted_wrt (\<lambda>r s. wr_object_id r = wr_object_id s \<longrightarrow> wr_new_version r < wr_new_version s)
      (surviving_records token obj e)"
    by (rule sorted_wrt_mono_rel [rotated]) blast
  moreover have "distinct (map wr_new_version (surviving_records token obj e))"
    using strict by (simp only: strict_sorted_iff)
  ultimately show ?thesis by (simp only: ordered_log_def simp_thms)
qed

lemma head_of_surviving:
  assumes v: "engine_views e rs" and o: "ordered_log rs"
  shows "head_of (surviving_records token obj e) o' =
    (if o' = obj then None else map_option (restamp (ct_origin token)) (head_of rs o'))"
proof -
  have ord: "ordered_log (surviving_records token obj e)"
    using v by (intro surviving_records_ordered) (simp add: engine_views_def)
  show ?thesis
  proof (cases "o' = obj")
    case True
    then show ?thesis by (auto simp: head_of_None mem_surviving_records [OF v o])
  next
    case False
    show ?thesis
    proof (cases "head_of rs o'")
      case None
      then have "\<forall>r \<in> set rs. wr_object_id r \<noteq> o'" by (simp only: head_of_None)
      then have "head_of (surviving_records token obj e) o' = None"
        unfolding head_of_None mem_surviving_records [OF v o] Ball_def by force
      with None False show ?thesis by simp
    next
      case (Some r)
      then have r: "r \<in> set rs" "wr_object_id r = o'"
        "\<And>s. s \<in> set rs \<Longrightarrow> wr_object_id s = o' \<Longrightarrow> wr_new_version s \<le> wr_new_version r"
        unfolding head_of_iff [OF o] by blast+
      with False have "head_of (surviving_records token obj e) o' = Some (restamp (ct_origin token) r)"
        unfolding head_of_iff [OF ord] Ball_def mem_surviving_records [OF v o] by force
      with Some False show ?thesis by simp
    qed
  qed
qed

lemma surviving_chain:
  assumes v: "engine_views e rs" and o: "ordered_log rs"
  shows "hm_get (hm_retain (\<lambda>_ rec. vr_object_id rec \<noteq> obj) (se_version_chain e))
    = view_chain (surviving_records token obj e)"
proof
  fix w
  have ord: "ordered_log (surviving_records token obj e)"
    and wf: "hm_wf (se_version_chain e)"
    using v surviving_records_ordered by (auto simp: engine_views_def)
  have "hm_get (hm_retain (\<lambda>_ rec. vr_object_id rec \<noteq> obj) (se_version_chain e)) w = Some vr \<longleftrightarrow>
      view_chain (surviving_records token obj e) w = Some vr" for vr
  proof -
    have "hm_get (hm_retain (\<lambda>_ rec. vr_object_id rec \<noteq> obj) (se_version_chain e)) w = Some vr \<longleftrightarrow>
        (w, vr) \<in> set (se_version_chain e) \<and> vr_object_id vr \<noteq> obj"
      by (auto simp: hm_retain_get [OF wf] hm_mem_get [OF wf] split: option.splits)
    also have "\<dots> \<longleftrightarrow> (\<exists>r \<in> set rs. wr_object_id r \<noteq> obj \<and> wr_new_version r = w \<and> vr = version_record_of r)"
      unfolding engine_chain_mem [OF v o] by (auto simp: version_record_of_def)
    also have "\<dots> \<longleftrightarrow> (\<exists>x \<in> set (surviving_records token obj e). wr_new_version x = w \<and> vr = version_record_of x)"
      by (force simp: Bex_def mem_surviving_records [OF v o])
    finally show ?thesis by (simp add: view_chain_iff [OF ord])
  qed
  then show "hm_get (hm_retain (\<lambda>_ rec. vr_object_id rec \<noteq> obj) (se_version_chain e)) w
      = view_chain (surviving_records token obj e) w"
    by (cases "view_chain (surviving_records token obj e) w") (auto simp: option.expand)
qed

definition purge_engine :: "wal \<Rightarrow> st_object_id \<Rightarrow> 'v storage_engine \<Rightarrow> 'v storage_engine" where
  "purge_engine w obj e = e\<lparr>se_wal := w,
     se_metadata := hm_remove obj (se_metadata e),
     se_version_pointer := hm_remove obj (se_version_pointer e),
     se_version_chain := hm_retain (\<lambda>_ rec. vr_object_id rec \<noteq> obj) (se_version_chain e)\<rparr>"

definition versions_of :: "st_object_id \<Rightarrow> 'v storage_engine \<Rightarrow> 'v version_record list" where
  "versions_of obj e = filter (\<lambda>rec. vr_object_id rec = obj) (hm_values (se_version_chain e))"

lemma purge_object_eq:
  "purge_object c nonces io monitor token now obj (e, f) =
     (if \<not> check_rights_ok monitor token WRITE now then (Inl Unauthorized, (e, f))
      else if hm_get (se_metadata e) obj = None \<and> versions_of obj e = []
      then (Inl NotFound, (e, f))
      else case compact_impl c nonces io (surviving_records token obj e) (se_encryption_key e) (se_wal e) f of
             (Inl err, w, f') \<Rightarrow> (Inl err, (e\<lparr>se_wal := w\<rparr>, f'))
           | (Inr w, _, f') \<Rightarrow> (Inr (length (versions_of obj e)), (purge_engine w obj e, f')))"
proof -
  have "versions_of obj e = [] \<longleftrightarrow>
      \<not> list_ex (\<lambda>rec. vr_object_id rec = obj) (hm_values (se_version_chain e))"
    by (auto simp: versions_of_def filter_empty_conv list_ex_iff)
  then show ?thesis
    by (cases rule: check_rights_ok_result_cases [of monitor token WRITE now])
      (simp_all add: purge_object_def purge_engine_def versions_of_def Let_def split: prod.splits sum.splits)
qed

lemma purge_object_refines:
  assumes ref: "engine_refines c (e, f) rs"
    and nonces: "good_nonces (se_encryption_key e) nonces"
    and io: "io \<noteq> ReopenFails"
    and purge: "purge_object c nonces io monitor token now obj (e, f) = (res, s')"
  shows "engine_refines c s' (case res of Inl _ \<Rightarrow> rs | Inr _ \<Rightarrow> surviving_records token obj e)"
proof (cases res)
  case (Inl err)
  with purge io have "s' = (e, f)"
    by (auto simp: purge_object_eq split: if_splits prod.splits sum.splits dest: compact_impl_err)
  with Inl ref show ?thesis by simp
next
  case (Inr n)
  let ?rs = "surviving_records token obj e"
  from Inr purge obtain w w1 f' where
    w: "compact_impl c nonces io ?rs (se_encryption_key e) (se_wal e) f = (Inr w, w1, f')"
    and s': "s' = (purge_engine w obj e, f')"
    by (auto simp: purge_object_eq split: if_splits prod.splits sum.splits)
  have ev: "engine_views e rs" "ordered_log rs" "codec_ok c" using ref by (simp_all add: engine_refines_def)
  note impl = compact_impl_ok [OF w ev(3) nonces]
  have "hm_get (hm_remove obj (se_metadata e)) = view_metadata ?rs"
    "hm_get (hm_remove obj (se_version_pointer e)) = view_pointer ?rs"
    using ev(1)
    by (auto simp: engine_views_def view_metadata_def view_pointer_def fun_eq_iff
        head_of_surviving [OF ev(1,2)] option.map_comp comp_def)
  moreover have "\<forall>r \<in> set ?rs. wr_new_version r < se_next_version_id e"
    using ev(1) by (auto simp: mem_surviving_records [OF ev(1,2)] engine_views_def)
  moreover have "hm_wf (se_metadata e)" "hm_wf (se_version_pointer e)" "hm_wf (se_version_chain e)"
    using ev(1) by (simp_all add: engine_views_def)
  ultimately have "engine_views (purge_engine w obj e) ?rs"
    using surviving_chain [OF ev(1,2)] by (simp add: engine_views_def purge_engine_def hm_wf_retain)
  moreover have "ordered_log ?rs"
    using ev(1) by (intro surviving_records_ordered) (simp add: engine_views_def)
  ultimately show ?thesis using Inr impl ev(3) by (simp add: s' engine_refines_def purge_engine_def)
qed

section \<open>Sessions of calls\<close>

datatype 'v storage_call =
    PutObject bytes append_io capability_monitor capability_token instant
      "st_object_id option" "version_id option" 'v
  | Compact "nat \<Rightarrow> bytes" compact_io capability_monitor capability_token instant
  | PurgeObject "nat \<Rightarrow> bytes" compact_io capability_monitor capability_token instant st_object_id

datatype storage_reply = Written st_object_id version_id | Removed nat

fun storage_step ::
    "'v wal_codec \<Rightarrow> 'v \<Rightarrow> 'v storage_call \<Rightarrow> 'v storage
     \<Rightarrow> (StorageError, storage_reply) result \<times> 'v storage" where
  "storage_step c Null (PutObject nonce io m t now obj expected md) s =
     map_prod (map_sum id (\<lambda>(i, v). Written i v)) id (put_object c nonce io m t now obj expected md s)"
| "storage_step c Null (Compact nonces io m t now) s =
     map_prod (map_sum id Removed) id (compact c Null nonces io m t now s)"
| "storage_step c Null (PurgeObject nonces io m t now obj) s =
     map_prod (map_sum id Removed) id (purge_object c nonces io m t now obj s)"

fun call_authorized :: "'v storage_call \<Rightarrow> bool" where
  "call_authorized (PutObject _ _ m t now _ _ _) = check_rights_ok m t WRITE now"
| "call_authorized (Compact _ _ m t now) = check_rights_ok m t WRITE now"
| "call_authorized (PurgeObject _ _ m t now _) = check_rights_ok m t WRITE now"

text \<open>A call whose I/O works, or fails before it has changed the file, and whose nonces have
  the length the cipher wants.\<close>

fun call_io_ok :: "bytes option \<Rightarrow> 'v storage_call \<Rightarrow> bool" where
  "call_io_ok key (PutObject nonce io _ _ _ _ _ _) \<longleftrightarrow>
     (io = AppendOk \<or> io = WriteFails 0) \<and> good_nonce key nonce"
| "call_io_ok key (Compact nonces io _ _ _) \<longleftrightarrow> io \<noteq> ReopenFails \<and> good_nonces key nonces"
| "call_io_ok key (PurgeObject nonces io _ _ _ _) \<longleftrightarrow> io \<noteq> ReopenFails \<and> good_nonces key nonces"

lemma next_version_allocate_commit:
  "unat (se_next_version_id (commit_record r (allocate i e))) \<le> Suc (unat (se_next_version_id e))"
proof (cases "se_next_version_id e = - 1")
  case True
  then show ?thesis by (simp add: commit_record_def)
next
  case False
  then show ?thesis by (simp add: commit_record_def unat_add_one)
qed

lemma storage_step_counters:
  assumes "storage_step c Null call (e, f) = (res, (e', f'))"
  shows "se_encryption_key e' = se_encryption_key e"
    "unat (se_next_version_id e') \<le> Suc (unat (se_next_version_id e))"
proof -
  have "se_encryption_key e' = se_encryption_key e
    \<and> unat (se_next_version_id e') \<le> Suc (unat (se_next_version_id e))"
  proof (cases call)
    case (PutObject nonce io m t now obj expected md)
    then obtain r where "e' = e \<or> e' = allocate obj e \<or> e' = commit_record r (allocate obj e)"
      using assms
      by (auto simp: put_object_eq map_prod_def split: if_splits prod.splits sum.splits)
    then show ?thesis
      using next_version_allocate_commit [of r obj e] by (auto simp: commit_record_def)
  next
    case (Compact nonces io m t now)
    with assms show ?thesis
      by (auto simp: compact_eq map_prod_def split: if_splits prod.splits sum.splits)
  next
    case (PurgeObject nonces io m t now obj)
    with assms show ?thesis
      by (auto simp: purge_object_eq purge_engine_def map_prod_def split: if_splits prod.splits sum.splits)
  qed
  then show "se_encryption_key e' = se_encryption_key e"
    "unat (se_next_version_id e') \<le> Suc (unat (se_next_version_id e))" by blast+
qed

lemma storage_step_refines:
  assumes "engine_refines c (e, f) rs" "call_io_ok (se_encryption_key e) call"
    "se_next_version_id e \<noteq> - 1"
  shows "\<exists>rs'. engine_refines c (snd (storage_step c Null call (e, f))) rs'"
proof (cases call)
  case (PutObject nonce io m t now obj expected md)
  obtain res s' where s': "put_object c nonce io m t now obj expected md (e, f) = (res, s')"
    by (meson surj_pair)
  have io: "io = AppendOk \<or> io = WriteFails 0" "good_nonce (se_encryption_key e) nonce"
    using assms(2) PutObject by simp_all
  have "\<exists>rs'. engine_refines c s' rs'"
    using put_object_refines [OF assms(1) io(2) assms(3)] put_object_untouched [OF assms(1)] s' io(1) by blast
  with s' PutObject show ?thesis by simp
next
  case (Compact nonces io m t now)
  obtain res s' where "compact c Null nonces io m t now (e, f) = (res, s')"
    by (meson surj_pair)
  with compact_refines [OF assms(1) _ _ this] assms(2) Compact show ?thesis by auto
next
  case (PurgeObject nonces io m t now obj)
  obtain res s' where "purge_object c nonces io m t now obj (e, f) = (res, s')"
    by (meson surj_pair)
  with purge_object_refines [OF assms(1) _ _ this] assms(2) PurgeObject show ?thesis by auto
qed

lemma storage_session_refines:
  assumes "engine_refines c (e, f) rs" "\<forall>call \<in> set calls. call_io_ok (se_encryption_key e) call"
    "unat (se_next_version_id e) + length calls < 2 ^ 64"
    "session (storage_step c Null) calls (e, f) = (e', f')"
  shows "(\<exists>rs'. engine_refines c (e', f') rs') \<and> se_encryption_key e' = se_encryption_key e"
  using assms
proof (induction calls arbitrary: e f rs)
  case Nil
  then show ?case by auto
next
  case (Cons call calls)
  obtain res e1 f1 where step: "storage_step c Null call (e, f) = (res, (e1, f1))"
    by (metis surj_pair)
  note counters = storage_step_counters [OF step]
  have "se_next_version_id e \<noteq> - 1"
    using Cons.prems(3) by (auto simp: unat_max_word)
  then obtain rs1 where "engine_refines c (e1, f1) rs1"
    using storage_step_refines [OF Cons.prems(1), of call Null] Cons.prems(2) step by auto
  from Cons.IH [OF this] Cons.prems counters step show ?case by simp
qed

lemma get_object_cong:
  assumes "v = None \<Longrightarrow> hm_get (se_metadata e') obj = hm_get (se_metadata e) obj"
    "\<And>w. v = Some w \<Longrightarrow> hm_get (se_version_chain e') w = hm_get (se_version_chain e) w"
  shows "get_object m t now e' obj v = get_object m t now e obj v"
  using assms by (simp add: get_object_def split: sum.split option.split)

lemma get_object_authorized:
  "check_rights_ok m t READ now \<Longrightarrow> get_object m t now e obj None = ok_or NotFound (hm_get (se_metadata e) obj)"
  "check_rights_ok m t READ now \<Longrightarrow> get_object m t now e obj (Some v) =
     (case hm_get (se_version_chain e) v of
        Some rec \<Rightarrow> if vr_object_id rec = obj then Inr (vr_metadata rec) else Inl NotFound
      | None \<Rightarrow> Inl NotFound)"
  using check_rights_ok_result_Inr [of m t READ now "()"] by (simp_all add: get_object_def)

lemma get_object_allocate [simp]:
  "get_object m t now (allocate i e) obj v = get_object m t now e obj v"
  by (rule get_object_cong) simp_all

lemma same_views_same_reads:
  assumes "engine_views e rs" "engine_views e' rs"
  shows "get_object m t now e' obj v = get_object m t now e obj v"
    "current_version e' obj = current_version e obj"
  using assms by (auto simp: engine_views_def current_version_def intro: get_object_cong)

text \<open>
  Claim C5: durability.  Take a store opened on no log, and fewer than \<open>2^64\<close> writes, compactions
  and purges by any callers, authorised or not, such that every append is either complete and
  synced or fails before a byte is written, and no rewrite of the log fails at the reopening after
  its rename (it may fail anywhere before).  Then an engine opened on the log's file answers every
  read of every object and version, and every question for a current version, exactly as the
  running engine does.  The outcomes left out are those after which the file and the running engine
  do disagree: a write cut short, a sync that fails after the write, a failed reopening.
\<close>

theorem storage_durable:
  assumes "codec_ok c" "open_impl c key None = Inr s"
    "\<forall>call \<in> set calls. call_io_ok key call" "length calls < 2 ^ 64"
    "session (storage_step c Null) calls s = (e, f)"
  shows "\<exists>e'. open_impl c key (Some f) = Inr (e', f)
    \<and> (\<forall>m t now obj v. get_object m t now e' obj v = get_object m t now e obj v)
    \<and> (\<forall>obj. current_version e' obj = current_version e obj)"
proof -
  obtain e0 where s: "s = (e0, [])" and r0: "engine_refines c (e0, []) []"
    using fresh_refines [OF assms(1), of key] assms(2) by auto
  have k0: "se_encryption_key e0 = key" "se_next_version_id e0 = 0"
    using assms(2) by (auto simp: s open_impl_eq replay_lines_def empty_engine_def)
  with storage_session_refines [OF r0, of calls Null e f] assms(3,4,5) s obtain rs where
    rs: "engine_refines c (e, f) rs" and k: "se_encryption_key e = key" by auto
  from reopen_refines [OF rs] k obtain e' where
    "open_impl c key (Some f) = Inr (e', f)" "engine_refines c (e', f) rs" by auto
  then show ?thesis
    using rs same_views_same_reads [of e rs e'] by (auto simp: engine_refines_def)
qed

text \<open>
  Claim C6: a write is a compare-and-swap.  If the expected version is not the object's
  current one the write is refused with both versions and every read stays as it was; a
  write that succeeds had the current version, takes a version no record has used, is what
  the next reads of the head and of that version return, and leaves every other version and
  every other object as it was.
\<close>

theorem put_object_cas:
  assumes "engine_refines c (e, f) rs" "check_rights_ok monitor token WRITE now"
    "put_object c nonce AppendOk monitor token now object_id expected md (e, f) = (res, (e', f'))"
    "check_rights_ok reader rtoken READ rnow"
  shows "case res of
      Inl err \<Rightarrow>
        (err = Encoding
         \<or> expected \<noteq> current_version e (put_target e object_id)
           \<and> err = ConcurrentWriteConflict (put_target e object_id) expected
                     (current_version e (put_target e object_id)))
        \<and> f' = f
        \<and> (\<forall>obj v. get_object reader rtoken rnow e' obj v = get_object reader rtoken rnow e obj v)
    | Inr (obj, v) \<Rightarrow>
        obj = put_target e object_id \<and> expected = current_version e obj
        \<and> hm_get (se_version_chain e) v = None
        \<and> current_version e' obj = Some v
        \<and> get_object reader rtoken rnow e' obj None = Inr md
        \<and> get_object reader rtoken rnow e' obj (Some v) = Inr md
        \<and> (\<forall>obj2 v2. v2 \<noteq> v \<longrightarrow>
             get_object reader rtoken rnow e' obj2 (Some v2) = get_object reader rtoken rnow e obj2 (Some v2))
        \<and> (\<forall>obj2. obj2 \<noteq> obj \<longrightarrow>
             get_object reader rtoken rnow e' obj2 None = get_object reader rtoken rnow e obj2 None)"
proof -
  have w: "wal_attached (se_wal e)" using assms(1) by (simp add: engine_refines_def)
  have fresh: "hm_get (se_version_chain e) (se_next_version_id e) = None"
  proof (rule ccontr)
    assume "hm_get (se_version_chain e) (se_next_version_id e) \<noteq> None"
    then show False
      using assms(1) view_chain_iff [of rs] by (auto simp: engine_refines_def engine_views_def)
  qed
  show ?thesis
  proof (cases "hm_get (se_version_pointer e) (put_target e object_id) = expected")
    case False
    with assms(2,3) show ?thesis
      by (auto simp: put_object_eq current_version_def)
  next
    case True
    from w show ?thesis
    proof (cases rule: append_ok_cases [of _ c nonce "put_record token e object_id md" f])
      case err
      with True assms(2,3) show ?thesis by (auto simp: put_object_eq)
    next
      case (ok l)
      with True assms(2,3) have "res = Inr (put_target e object_id, se_next_version_id e)"
        "e' = commit_record (put_record token e object_id md) (allocate object_id e)"
        by (auto simp: put_object_eq)
      with True fresh show ?thesis
        by (simp add: commit_record_def put_record_def version_record_of_def current_version_def
            get_object_authorized [OF assms(4)])
    qed
  qed
qed

lemma length_compact_chain:
  assumes v: "engine_views e rs" and o: "ordered_log rs"
  shows "length (compact_chain e) = length (se_version_pointer e)"
proof -
  let ?rs = "head_records undefined undefined e"
  have wf: "hm_wf (compact_chain e)"
    using v by (simp add: compact_chain_def engine_views_def hm_wf_retain)
  have "fst ` set (compact_chain e) = {w. hm_get (compact_chain e) w \<noteq> None}"
    by (auto simp: hm_get_None_iff)
  also have "\<dots> = set (map wr_new_version ?rs)"
    unfolding compact_chain_get [OF v o, of undefined undefined]
    by (auto simp: view_chain_iff [OF head_records_ordered [OF v o]])
  finally have "set (map fst (compact_chain e)) = set (map wr_new_version ?rs)" by simp
  moreover have "distinct (map wr_new_version ?rs)"
    using head_records_ordered [OF v o] by (simp add: ordered_log_def)
  ultimately have "length (map fst (compact_chain e)) = length (map wr_new_version ?rs)"
    using wf distinct_card [of "map fst (compact_chain e)"] distinct_card [of "map wr_new_version ?rs"]
    by simp
  then show ?thesis by (simp add: head_records_def)
qed

text \<open>
  Claim C7: compaction keeps the present and drops the past.  It reports the number of
  versions minus the number of objects; every object keeps its current version and value,
  and a read of a version succeeds exactly when that version is its object's current one.
\<close>

theorem compact_exact:
  assumes "engine_refines c (e, f) rs" "good_nonces (se_encryption_key e) nonces"
    "compact c Null nonces CompactOk monitor token now (e, f) = (Inr n, (e', f'))"
    "check_rights_ok reader rtoken READ rnow"
  shows "n = length (se_version_chain e) - length (se_version_pointer e)
    \<and> (\<forall>obj. current_version e' obj = current_version e obj
         \<and> get_object reader rtoken rnow e' obj None = get_object reader rtoken rnow e obj None)
    \<and> (\<forall>obj v. get_object reader rtoken rnow e' obj (Some v) =
         (if current_version e obj = Some v then get_object reader rtoken rnow e obj None
          else Inl NotFound))"
proof -
  have v: "engine_views e rs" and o: "ordered_log rs" using assms(1) by (simp_all add: engine_refines_def)
  from assms(3) obtain w where e': "e' = e\<lparr>se_wal := w, se_version_chain := compact_chain e\<rparr>"
    and n: "n = length (se_version_chain e) - length (compact_chain e)"
    by (auto simp: compact_eq split: if_splits prod.splits sum.splits)
  note chain = compact_chain_get [OF v o, of Null token]
  have read: "get_object reader rtoken rnow e' obj (Some x) =
      (if current_version e obj = Some x then get_object reader rtoken rnow e obj None else Inl NotFound)"
    for obj x
  proof (cases "\<exists>r. head_of rs obj = Some r \<and> wr_new_version r = x")
    case True
    then obtain r where r: "head_of rs obj = Some r" "wr_new_version r = x" by blast
    then have "view_chain (head_records Null token e) x = Some (version_record_of (genesis (ct_origin token) r))"
      unfolding view_chain_iff [OF head_records_ordered [OF v o]] Bex_def mem_head_records [OF v]
      by (intro exI [of _ "genesis (ct_origin token) r"]) auto
    moreover have "vr_object_id (version_record_of (genesis (ct_origin token) r)) = obj"
      "vr_metadata (version_record_of (genesis (ct_origin token) r)) = wr_metadata r"
      using head_of_Some(2) [OF r(1)] by (simp_all add: version_record_of_def)
    moreover have "current_version e obj = Some x" "hm_get (se_metadata e) obj = Some (wr_metadata r)"
      using v r by (simp_all add: current_version_def engine_views_def view_pointer_Some view_metadata_def)
    ultimately show ?thesis
      by (simp add: get_object_authorized [OF assms(4)] e' chain)
  next
    case False
    then have "current_version e obj \<noteq> Some x"
      using v by (auto simp: current_version_def engine_views_def view_pointer_Some)
    moreover have "vr_object_id vr \<noteq> obj" if "view_chain (head_records Null token e) x = Some vr" for vr
      using that False head_of_Some(2)
      unfolding view_chain_iff [OF head_records_ordered [OF v o]] Bex_def mem_head_records [OF v]
      by (fastforce simp: version_record_of_def)
    ultimately show ?thesis
      by (simp add: get_object_authorized [OF assms(4)] e' chain split: option.split)
  qed
  show ?thesis
    using read length_compact_chain [OF v o]
    by (simp add: n e' current_version_def get_object_authorized [OF assms(4)])
qed

lemma versions_of_iff:
  assumes "engine_views e rs" "ordered_log rs"
  shows "length (versions_of obj e) = card {r \<in> set rs. wr_object_id r = obj}"
proof -
  let ?A = "{r \<in> set rs. wr_object_id r = obj}"
  let ?kept = "filter (\<lambda>(_, rec). vr_object_id rec = obj) (se_version_chain e)"
  have "length (versions_of obj e) = length (map fst ?kept)"
    by (simp add: versions_of_def hm_values_def filter_map comp_def case_prod_unfold)
  also have "\<dots> = card (set (map fst ?kept))"
    using assms(1) by (intro distinct_card [symmetric] distinct_map_filter) (simp add: engine_views_def)
  also have "set (map fst ?kept) = wr_new_version ` ?A"
    using engine_chain_mem [OF assms] by (force simp: version_record_of_def)
  also have "card (wr_new_version ` ?A) = card ?A"
    using ordered_log_unique [OF assms(2)] by (intro card_image) (auto simp: inj_on_def)
  finally show ?thesis .
qed

text \<open>
  Claim C8: erasure.  A purge that succeeds reports how many records of the object the log
  held, leaves a log without any record of the object, answers every read of it with not
  found, and leaves every version of every other object readable as before.
\<close>

theorem purge_object_erases:
  assumes "engine_refines c (e, f) rs" "good_nonces (se_encryption_key e) nonces"
    "purge_object c nonces CompactOk monitor token now obj (e, f) = (Inr n, (e', f'))"
    "check_rights_ok reader rtoken READ rnow"
  shows "n = card {r \<in> set rs. wr_object_id r = obj}
    \<and> (\<exists>rs'. replay_lines c (se_encryption_key e) (Some f') = Inr rs'
           \<and> (\<forall>r \<in> set rs'. wr_object_id r \<noteq> obj))
    \<and> (\<forall>v. get_object reader rtoken rnow e' obj v = Inl NotFound)
    \<and> (\<forall>obj2 v. obj2 \<noteq> obj \<longrightarrow>
         get_object reader rtoken rnow e' obj2 v = get_object reader rtoken rnow e obj2 v)"
proof -
  have v: "engine_views e rs" and o: "ordered_log rs" using assms(1) by (simp_all add: engine_refines_def)
  have wf: "hm_wf (se_version_chain e)" using v by (simp add: engine_views_def)
  have n: "n = length (versions_of obj e)" and e': "\<exists>w. e' = purge_engine w obj e"
    using assms(3) by (auto simp: purge_object_eq split: if_splits prod.splits sum.splits)
  from purge_object_refines [OF assms(1,2) _ assms(3)]
  have "engine_refines c (e', f') (surviving_records token obj e)" by simp
  then have "replay_lines c (se_encryption_key e) (Some f') = Inr (surviving_records token obj e)"
    using e' by (auto simp: engine_refines_def purge_engine_def intro: replay_log_file)
  moreover have "\<forall>r \<in> set (surviving_records token obj e). wr_object_id r \<noteq> obj"
    by (auto simp: mem_surviving_records [OF v o])
  moreover have "get_object reader rtoken rnow e' obj x = Inl NotFound" for x
    using e' by (cases x) (auto simp: get_object_authorized [OF assms(4)] purge_engine_def
        hm_retain_get [OF wf] split: option.split option.split_asm if_split_asm)
  moreover have "get_object reader rtoken rnow e' obj2 x = get_object reader rtoken rnow e obj2 x"
    if "obj2 \<noteq> obj" for obj2 x
    using e' that by (cases x) (auto simp: get_object_authorized [OF assms(4)] purge_engine_def
        hm_retain_get [OF wf] split: option.split option.split_asm if_split_asm)
  ultimately show ?thesis using n versions_of_iff [OF v o] by simp
qed

text \<open>
  A compaction that fails after its rename detaches the engine from its log.  The
  call reports an error and the running engine goes on; a write it then acknowledges (and
  serves) goes to the replaced file, so that the engine opened on the log next does not know it.
\<close>

theorem compact_reopen_failure_loses_writes:
  assumes "engine_refines c (e, f) rs" "good_nonces (se_encryption_key e) nonces"
    "compact c Null nonces ReopenFails m t now (e, f) = (Inl (WalError OpenFailed), (e1, f1))"
    "put_object c nonce AppendOk m2 t2 now2 object_id expected md (e1, f1) = (Inr (obj, v), (e2, f2))"
    "check_rights_ok reader rtoken READ rnow"
  shows "get_object reader rtoken rnow e2 obj (Some v) = Inr md
    \<and> (\<exists>e3. open_impl c (se_encryption_key e) (Some f2) = Inr (e3, f2)
           \<and> get_object reader rtoken rnow e3 obj (Some v) = Inl NotFound)"
proof -
  let ?rs = "head_records Null t e"
  have ev: "engine_views e rs" "ordered_log rs" "codec_ok c" using assms(1) by (simp_all add: engine_refines_def)
  have e1: "e1 = e\<lparr>se_wal := (se_wal e)\<lparr>wal_attached := False\<rparr>\<rparr>"
    and enc: "encode_lines c (se_encryption_key e) nonces ?rs = Some f1"
    using assms(3) by (auto simp: compact_eq compact_impl_def split: if_splits option.splits)
  have e2: "e2 = commit_record (put_record t2 e1 object_id md) (allocate object_id e1)"
    "obj = put_target e1 object_id" "v = se_next_version_id e1" "f2 = f1"
    using assms(4) e1
    by (auto simp: put_object_eq append_and_fsync_def split: if_splits option.splits)
  have serve: "get_object reader rtoken rnow e2 obj (Some v) = Inr md"
    by (simp add: get_object_authorized [OF assms(5)] e2 commit_record_def put_record_def version_record_of_def)
  have "log_file c (se_encryption_key e) f1 ?rs"
    using ev(3) enc assms(2) by (intro encode_lines_log_file) (auto simp: good_nonces_def)
  then have rp: "replay_lines c (se_encryption_key e) (Some f1) = Inr ?rs" by (rule replay_log_file)
  let ?e3 = "fold apply_record ?rs
    (empty_engine \<lparr>wal_seal = se_encryption_key e, wal_attached = True\<rparr> (se_encryption_key e))"
  have less: "\<forall>r \<in> set ?rs. wr_new_version r < se_next_version_id e"
    using ev(1) head_of_Some(1) by (fastforce simp: mem_head_records [OF ev(1)] engine_views_def)
  then have "engine_views ?e3 ?rs" by (intro fold_apply_views) auto
  then have "hm_get (se_version_chain ?e3) v = view_chain ?rs v" by (simp add: engine_views_def)
  also have "\<dots> = None"
    using less e1 by (cases "view_chain ?rs v")
      (auto simp: e2(3) view_chain_iff [OF head_records_ordered [OF ev(1,2)]])
  finally have "get_object reader rtoken rnow ?e3 obj (Some v) = Inl NotFound"
    by (simp add: get_object_authorized [OF assms(5)])
  with serve rp show ?thesis by (simp add: open_impl_eq e2(4))
qed

lemma fold_next_object_id:
  "se_next_object_id (fold apply_record rs e) =
     fold max (map (\<lambda>r. wr_object_id r + 1) rs) (se_next_object_id e)"
  by (induction rs arbitrary: e) (simp_all add: apply_record_def max.commute)

lemma fold_max_upper:
  fixes b :: "'a::linorder"
  shows "a \<le> b \<Longrightarrow> \<forall>x \<in> set xs. x \<le> b \<Longrightarrow> fold max xs a \<le> b"
  by (induction xs arbitrary: a) auto

lemma fold_max_start: "a \<le> fold max xs (a :: 'a::linorder)"
proof (induction xs arbitrary: a)
  case Nil
  then show ?case by simp
next
  case (Cons x xs)
  from Cons.IH [of "max x a"] show ?case by simp
qed

lemma fold_max_member: "x \<in> set xs \<Longrightarrow> x \<le> fold max xs (a :: 'a::linorder)"
proof (induction xs arbitrary: a)
  case Nil
  then show ?case by simp
next
  case (Cons y xs)
  then show ?case using fold_max_start [of "max y a" xs] by auto
qed

text \<open>
  Identifiers come back.  If the purged object has the largest identifier in use
  and the one before it is in use, the engine opened on the log after the purge creates its
  next object under the purged identifier, so a stale reference to what was erased reads the
  new object.
\<close>

theorem purge_reopen_reuses_identifier:
  assumes "engine_refines c (e, f) rs" "good_nonces (se_encryption_key e) nonces"
    "purge_object c nonces CompactOk m t now obj (e, f) = (Inr n, (e', f'))"
    "\<forall>r \<in> set rs. wr_object_id r \<le> obj" "\<exists>r \<in> set rs. wr_object_id r + 1 = obj"
  shows "\<exists>e2. open_impl c (se_encryption_key e) (Some f') = Inr (e2, f') \<and> put_target e2 None = obj"
proof -
  let ?rs = "surviving_records t obj e"
  have ev: "engine_views e rs" "ordered_log rs" using assms(1) by (simp_all add: engine_refines_def)
  have key: "se_encryption_key e' = se_encryption_key e"
    using assms(3) by (auto simp: purge_object_eq purge_engine_def split: if_splits prod.splits sum.splits)
  from purge_object_refines [OF assms(1,2) _ assms(3)] have "engine_refines c (e', f') ?rs" by simp
  with key have "replay_lines c (se_encryption_key e) (Some f') = Inr ?rs"
    by (auto simp: engine_refines_def intro: replay_log_file)
  then have "open_impl c (se_encryption_key e) (Some f') = Inr (fold apply_record ?rs
      (empty_engine \<lparr>wal_seal = se_encryption_key e, wal_attached = True\<rparr> (se_encryption_key e)), f')"
    by (simp add: open_impl_eq)
  moreover have "wr_object_id r + 1 \<le> obj" if "r \<in> set ?rs" for r
  proof -
    from that assms(4) have "wr_object_id r < obj" by (auto simp: mem_surviving_records [OF ev] less_le)
    then show ?thesis by (rule inc_le)
  qed
  moreover have "obj \<in> (\<lambda>r. wr_object_id r + 1) ` set ?rs"
  proof -
    from assms(5) obtain r where r: "r \<in> set rs" "wr_object_id r + 1 = obj" by blast
    then have "wr_object_id r \<noteq> obj" by auto
    with r have "restamp (ct_origin t) r \<in> set ?rs" by (auto simp: mem_surviving_records [OF ev])
    with r(2) show ?thesis by (intro image_eqI [of _ _ "restamp (ct_origin t) r"]) simp_all
  qed
  ultimately show ?thesis
    by (auto simp: put_target_def fold_next_object_id empty_engine_def
        intro!: antisym fold_max_upper fold_max_member)
qed

section \<open>Writes are guarded\<close>

interpretation storage_guard: guarded_operation call_authorized "storage_step c Null"
  for c :: "'v wal_codec" and Null :: 'v
proof (rule guarded_operation.intro)
  fix call :: "'v storage_call" and s :: "'v storage"
  assume "\<not> call_authorized call"
  then show "\<exists>e. storage_step c Null call s = (Inl e, s)"
    by (cases s; cases call) (simp_all add: put_object_eq compact_eq purge_object_eq)
qed

text \<open>
  Without the right to write there is no effect.  Whatever the callers of a
  session attempt, the store and its file end as if the calls whose token the monitor does
  not accept for writing had never been made.
\<close>

theorem storage_unauthorized_invisible:
  "session (storage_step c Null) calls s =
     session (storage_step c Null) (filter call_authorized calls) s"
  by (rule storage_guard.authorized_filter)

section \<open>A concrete store\<close>

definition demo_put :: "u64 option \<Rightarrow> u64 option \<Rightarrow> nat \<Rightarrow> nat storage_call" where
  "demo_put obj expected md = PutObject [] AppendOk demo_monitor demo_root 0 obj expected md"

definition demo_calls :: "nat storage_call list" where
  "demo_calls = [demo_put None None 1, demo_put None None 2, demo_put (Some 0) (Some 0) 3]"

definition demo_empty :: "nat storage" where
  "demo_empty = (empty_engine \<lparr>wal_seal = None, wal_attached = True\<rparr> None, [])"

definition demo_store :: "nat storage" where
  "demo_store = session (storage_step demo_codec 0) demo_calls demo_empty"

definition demo_engine :: "nat storage_engine" where
  "demo_engine = \<lparr>se_wal = \<lparr>wal_seal = None, wal_attached = True\<rparr>,
     se_metadata = [(0, 3), (1, 2)], se_version_pointer = [(0, 2), (1, 1)],
     se_version_chain = [(0, \<lparr>vr_object_id = 0, vr_parent_version = None, vr_metadata = 1\<rparr>),
       (1, \<lparr>vr_object_id = 1, vr_parent_version = None, vr_metadata = 2\<rparr>),
       (2, \<lparr>vr_object_id = 0, vr_parent_version = Some 0, vr_metadata = 3\<rparr>)],
     se_next_object_id = 2, se_next_version_id = 3, se_encryption_key = None\<rparr>"

lemma demo_append_eq:
  "append_and_fsync demo_codec [] AppendOk r \<lparr>wal_seal = None, wal_attached = b\<rparr> f =
     (Inr (), if b then f @ 123 # enc_body r @ [125, 10] else f)"
  by (simp add: append_and_fsync_def encode_line_def demo_codec_def demo_encode_def)

lemma demo_store_engine: "fst demo_store = demo_engine"
  by (simp add: demo_store_def demo_calls_def demo_put_def demo_empty_def put_object_eq demo_append_eq
      empty_engine_def put_target_def put_record_def commit_record_def allocate_def
      version_record_of_def demo_engine_def)

lemma demo_open: "open_impl demo_codec None None = Inr demo_empty"
  by (simp add: open_impl_eq replay_lines_def demo_empty_def)

lemma demo_io: "\<forall>call \<in> set demo_calls. call_io_ok None call"
  by (simp add: demo_calls_def demo_put_def good_nonce_def)

lemma demo_refines: "\<exists>f rs. demo_store = (demo_engine, f) \<and> engine_refines demo_codec (demo_engine, f) rs
    \<and> (\<forall>r \<in> set rs. wr_object_id r \<le> 1) \<and> (\<exists>r \<in> set rs. wr_object_id r + 1 = 1)"
proof -
  obtain f where s: "demo_store = (demo_engine, f)"
    using demo_store_engine by (metis prod.collapse)
  obtain e0 where "open_impl demo_codec None None = Inr (e0, [])" "engine_refines demo_codec (e0, []) []"
    using fresh_refines [OF demo_codec_ok, of None] by blast
  then have r0: "engine_refines demo_codec (fst demo_empty, snd demo_empty) []" by (simp add: demo_open)
  have key: "se_encryption_key (fst demo_empty) = None" "se_next_version_id (fst demo_empty) = 0"
    by (simp_all add: demo_empty_def empty_engine_def)
  have "session (storage_step demo_codec 0) demo_calls (fst demo_empty, snd demo_empty) = (demo_engine, f)"
    by (simp add: demo_store_def [symmetric] s)
  with storage_session_refines [OF r0, of demo_calls 0 demo_engine f] demo_io key
  obtain rs where rs: "engine_refines demo_codec (demo_engine, f) rs"
    by (auto simp: demo_calls_def)
  then have ev: "engine_views demo_engine rs" "ordered_log rs" by (simp_all add: engine_refines_def)
  have "wr_object_id r \<le> 1" if "r \<in> set rs" for r
  proof -
    from that engine_chain_mem [OF ev, of "wr_new_version r" "version_record_of r"]
    have "(wr_new_version r, version_record_of r) \<in> set (se_version_chain demo_engine)" by blast
    then show ?thesis by (auto simp: demo_engine_def version_record_of_def)
  qed
  moreover have "\<exists>r \<in> set rs. wr_object_id r + 1 = 1"
    using engine_chain_mem [OF ev, of 0 "\<lparr>vr_object_id = 0, vr_parent_version = None, vr_metadata = 1\<rparr>"]
    by (auto simp: demo_engine_def version_record_of_def)
  ultimately show ?thesis using s rs by blast
qed

theorem storage_durable_witness:
  "\<exists>f e'. demo_store = (demo_engine, f) \<and> open_impl demo_codec None (Some f) = Inr (e', f)
     \<and> get_object demo_monitor demo_root 0 e' 0 (Some 0) = Inr 1
     \<and> get_object demo_monitor demo_root 0 e' 0 None = Inr 3"
proof -
  obtain f where s: "demo_store = (demo_engine, f)" using demo_refines by blast
  have len: "length demo_calls < 2 ^ 64" by (simp add: demo_calls_def)
  from storage_durable [OF demo_codec_ok demo_open demo_io len s [unfolded demo_store_def]] obtain e' where
    "open_impl demo_codec None (Some f) = Inr (e', f)"
    "\<forall>m t now obj v. get_object m t now e' obj v = get_object m t now demo_engine obj v"
    by blast
  moreover have "get_object demo_monitor demo_root 0 demo_engine 0 (Some 0) = Inr 1"
    "get_object demo_monitor demo_root 0 demo_engine 0 None = Inr 3"
    by (simp_all add: get_object_def demo_engine_def)
  ultimately show ?thesis using s by auto
qed

theorem put_object_cas_witness:
  "\<exists>f e' f'. demo_store = (demo_engine, f)
     \<and> put_object demo_codec [] AppendOk demo_monitor demo_root 0 (Some 0) (Some 2) 9 (demo_engine, f)
         = (Inr (0, 3), (e', f'))
     \<and> get_object demo_monitor demo_root 0 e' 0 None = Inr 9
     \<and> get_object demo_monitor demo_root 0 e' 0 (Some 2) = Inr 3"
proof -
  obtain f rs where s: "demo_store = (demo_engine, f)"
    and ref: "engine_refines demo_codec (demo_engine, f) rs" using demo_refines by blast
  obtain e' f' where put: "put_object demo_codec [] AppendOk demo_monitor demo_root 0 (Some 0) (Some 2) 9
      (demo_engine, f) = (Inr (0, 3), (e', f'))"
    by (simp add: put_object_eq demo_append_eq put_target_def demo_engine_def)
  have w: "check_rights_ok demo_monitor demo_root WRITE 0" "check_rights_ok demo_monitor demo_root READ 0"
    by simp_all
  note cas = put_object_cas [OF ref w(1) put w(2), unfolded sum.case prod.case]
  then have "get_object demo_monitor demo_root 0 e' 0 None = Inr 9" by blast
  moreover have "get_object demo_monitor demo_root 0 e' 0 (Some v) =
      get_object demo_monitor demo_root 0 demo_engine 0 (Some v)" if "v \<noteq> 3" for v
    using cas that by blast
  note this [of 2, simplified]
  moreover have "get_object demo_monitor demo_root 0 demo_engine 0 (Some 2) = Inr 3"
    by (simp add: get_object_def demo_engine_def)
  ultimately show ?thesis using s put by auto
qed

lemma demo_nonces: "good_nonces None nonces"
  by (simp add: good_nonces_def good_nonce_def)

lemma demo_encode_line: "encode_line demo_codec None n r = Some (123 # enc_body r @ [125, 10])"
  by (simp add: encode_line_def demo_codec_def demo_encode_def)

lemma demo_encode_lines: "\<exists>f. encode_lines demo_codec None nonces rs = Some f"
proof (induction rs arbitrary: nonces)
  case Nil
  then show ?case by simp
next
  case (Cons r rs)
  obtain f where "encode_lines demo_codec None (\<lambda>i. nonces (Suc i)) rs = Some f"
    using Cons.IH [of "\<lambda>i. nonces (Suc i)"] by blast
  then show ?case by (simp add: demo_encode_line)
qed

theorem compact_exact_witness:
  "\<exists>f e' f'. demo_store = (demo_engine, f)
     \<and> compact demo_codec 0 (\<lambda>_. []) CompactOk demo_monitor demo_root 0 (demo_engine, f) = (Inr 1, (e', f'))
     \<and> get_object demo_monitor demo_root 0 e' 0 (Some 0) = Inl NotFound
     \<and> get_object demo_monitor demo_root 0 e' 0 None = Inr 3"
proof -
  obtain f rs where s: "demo_store = (demo_engine, f)"
    and ref: "engine_refines demo_codec (demo_engine, f) rs" using demo_refines by blast
  obtain n e' f' where comp: "compact demo_codec 0 (\<lambda>_. []) CompactOk demo_monitor demo_root 0 (demo_engine, f)
      = (Inr n, (e', f'))"
    using demo_encode_lines [of "\<lambda>_. []" "head_records 0 demo_root demo_engine"]
    by (auto simp: compact_eq compact_impl_def demo_engine_def)
  have k: "good_nonces (se_encryption_key demo_engine) (\<lambda>_. [])"
    by (simp add: demo_engine_def demo_nonces)
  have r: "check_rights_ok demo_monitor demo_root READ 0" by simp
  have cur: "current_version demo_engine 0 = Some 2" "length (se_version_chain demo_engine) = 3"
    "length (se_version_pointer demo_engine) = 2"
    by (simp_all add: current_version_def demo_engine_def)
  have get: "get_object demo_monitor demo_root 0 demo_engine 0 None = Inr 3"
    by (simp add: get_object_def demo_engine_def)
  from compact_exact [OF ref k comp r] cur get s comp show ?thesis by auto
qed

theorem purge_object_erases_witness:
  "\<exists>f e' f' rs. demo_store = (demo_engine, f)
     \<and> purge_object demo_codec (\<lambda>_. []) CompactOk demo_monitor demo_root 0 0 (demo_engine, f) = (Inr 2, (e', f'))
     \<and> replay demo_codec (Some f') = Inr rs \<and> (\<forall>r \<in> set rs. wr_object_id r \<noteq> 0)
     \<and> get_object demo_monitor demo_root 0 e' 1 None = Inr 2"
proof -
  obtain f rs where s: "demo_store = (demo_engine, f)"
    and ref: "engine_refines demo_codec (demo_engine, f) rs" using demo_refines by blast
  obtain e' f' where purge: "purge_object demo_codec (\<lambda>_. []) CompactOk demo_monitor demo_root 0 0
      (demo_engine, f) = (Inr 2, (e', f'))"
    using demo_encode_lines [of "\<lambda>_. []" "surviving_records demo_root 0 demo_engine"]
    by (auto simp: purge_object_eq compact_impl_def demo_engine_def versions_of_def hm_values_def)
  have k: "good_nonces (se_encryption_key demo_engine) (\<lambda>_. [])" "se_encryption_key demo_engine = None"
    by (simp_all add: demo_engine_def demo_nonces)
  have r: "check_rights_ok demo_monitor demo_root READ 0" by simp
  have "get_object demo_monitor demo_root 0 demo_engine 1 None = Inr 2"
    by (simp add: get_object_def demo_engine_def)
  with purge_object_erases [OF ref k(1) purge r] s purge show ?thesis
    by (auto simp: k(2) replay_def)
qed

theorem compact_reopen_failure_loses_writes_witness:
  "\<exists>f e1 f1 e2 f2 e3. demo_store = (demo_engine, f)
     \<and> compact demo_codec 0 (\<lambda>_. []) ReopenFails demo_monitor demo_root 0 (demo_engine, f)
         = (Inl (WalError OpenFailed), (e1, f1))
     \<and> put_object demo_codec [] AppendOk demo_monitor demo_root 0 None None 9 (e1, f1) = (Inr (2, 3), (e2, f2))
     \<and> open_impl demo_codec None (Some f2) = Inr (e3, f2)
     \<and> get_object demo_monitor demo_root 0 e2 2 (Some 3) = Inr 9
     \<and> get_object demo_monitor demo_root 0 e3 2 (Some 3) = Inl NotFound"
proof -
  obtain f rs where s: "demo_store = (demo_engine, f)"
    and ref: "engine_refines demo_codec (demo_engine, f) rs" using demo_refines by blast
  obtain f1 where f1: "encode_lines demo_codec None (\<lambda>_. []) (head_records 0 demo_root demo_engine) = Some f1"
    using demo_encode_lines by blast
  let ?e1 = "demo_engine\<lparr>se_wal := \<lparr>wal_seal = None, wal_attached = False\<rparr>\<rparr>"
  have k: "good_nonces (se_encryption_key demo_engine) (\<lambda>_. [])" "se_encryption_key demo_engine = None"
    "se_wal demo_engine = \<lparr>wal_seal = None, wal_attached = True\<rparr>"
    by (simp_all add: demo_engine_def demo_nonces)
  have comp: "compact demo_codec 0 (\<lambda>_. []) ReopenFails demo_monitor demo_root 0 (demo_engine, f)
      = (Inl (WalError OpenFailed), (?e1, f1))"
    using f1 by (simp add: compact_eq compact_impl_def k)
  obtain e2 f2 where put: "put_object demo_codec [] AppendOk demo_monitor demo_root 0 None None 9 (?e1, f1)
      = (Inr (2, 3), (e2, f2))"
    by (simp add: put_object_eq demo_append_eq put_target_def demo_engine_def)
  have r: "check_rights_ok demo_monitor demo_root READ 0" by simp
  from compact_reopen_failure_loses_writes [OF ref k(1) comp put r] s comp put show ?thesis
    by (auto simp: k(2))
qed

theorem purge_reopen_reuses_identifier_witness:
  "\<exists>f e' f' e2. demo_store = (demo_engine, f)
     \<and> purge_object demo_codec (\<lambda>_. []) CompactOk demo_monitor demo_root 0 1 (demo_engine, f) = (Inr 1, (e', f'))
     \<and> open_impl demo_codec None (Some f') = Inr (e2, f') \<and> put_target e2 None = 1"
proof -
  obtain f rs where s: "demo_store = (demo_engine, f)"
    and ref: "engine_refines demo_codec (demo_engine, f) rs"
    and ids: "\<forall>r \<in> set rs. wr_object_id r \<le> 1" "\<exists>r \<in> set rs. wr_object_id r + 1 = 1"
    using demo_refines by blast
  obtain e' f' where purge: "purge_object demo_codec (\<lambda>_. []) CompactOk demo_monitor demo_root 0 1
      (demo_engine, f) = (Inr 1, (e', f'))"
    using demo_encode_lines [of "\<lambda>_. []" "surviving_records demo_root 1 demo_engine"]
    by (auto simp: purge_object_eq compact_impl_def demo_engine_def versions_of_def hm_values_def)
  have k: "good_nonces (se_encryption_key demo_engine) (\<lambda>_. [])" "se_encryption_key demo_engine = None"
    by (simp_all add: demo_engine_def demo_nonces)
  from purge_reopen_reuses_identifier [OF ref k(1) purge ids] s purge show ?thesis
    by (auto simp: k(2))
qed

end
