(* ===== verification/Wire_Token.thy ===== *)
theory Wire_Token
  imports Capability
begin

text \<open>
  Tokens that cross a process boundary, \<open>crates/hyperion-capability/src/wire.rs\<close>: the
  claimed fields of a token, the bytes a signature covers, and the two ways a monitor
  turns a wire token back into a capability.  The signature scheme is not part of the
  repository; it is the parameters \<open>sign\<close> and \<open>verify\<close> of the definitions.
\<close>

section \<open>Little-endian bytes\<close>

definition to_le_bytes :: "nat \<Rightarrow> 'a::len word \<Rightarrow> u8 list" where
  "to_le_bytes n w = map (\<lambda>i. ucast (drop_bit (8 * i) w)) [0..<n]"

section \<open>Wire tokens\<close>

record 'sig wire_token =
  wt_token_id :: u64
  wt_object_id :: u64
  wt_rights :: u32
  wt_generation :: u64
  wt_origin :: u64
  wt_expiry_millis_remaining :: "u64 option"
  wt_signature :: "'sig option"

definition canonical_bytes :: "'sig wire_token \<Rightarrow> u8 list" where
  "canonical_bytes wire =
     to_le_bytes 8 (wt_token_id wire) @ to_le_bytes 8 (wt_object_id wire)
     @ to_le_bytes 4 (wt_rights wire) @ to_le_bytes 8 (wt_generation wire)
     @ to_le_bytes 8 (wt_origin wire)
     @ (case wt_expiry_millis_remaining wire of
          Some ms \<Rightarrow> 1 # to_le_bytes 8 ms
        | None \<Rightarrow> [0])"

text \<open>\<open>as_millis\<close> of a duration in nanoseconds, and its conversion to a \<open>u64\<close>, which keeps
  the low bits.\<close>

definition millis_of :: "duration \<Rightarrow> u64" where
  "millis_of d = of_nat (d div 1000000)"

definition from_millis :: "u64 \<Rightarrow> duration" where
  "from_millis ms = unat ms * 1000000"

definition wire_from_token :: "capability_token \<Rightarrow> instant \<Rightarrow> 'sig wire_token" where
  "wire_from_token t now =
     \<lparr>wt_token_id = ct_token_id t, wt_object_id = ct_object_id t, wt_rights = ct_rights t,
      wt_generation = ct_generation t, wt_origin = ct_origin t,
      wt_expiry_millis_remaining = map_option (\<lambda>e. millis_of (e - now)) (ct_expiry t),
      wt_signature = None\<rparr>"

definition wire_signed ::
    "(u8 list \<Rightarrow> 'sig) \<Rightarrow> capability_token \<Rightarrow> instant \<Rightarrow> 'sig wire_token" where
  "wire_signed sign t now =
     (let wire = wire_from_token t now
      in wire\<lparr>wt_signature := Some (sign (canonical_bytes wire))\<rparr>)"

text \<open>The deadline is rebuilt from the clock reading at arrival; the check reads the clock
  once more.\<close>

definition claimed_token :: "'sig wire_token \<Rightarrow> instant \<Rightarrow> capability_token" where
  "claimed_token wire now =
     from_wire_parts (wt_token_id wire) (wt_object_id wire) (wt_rights wire)
       (wt_generation wire) (wt_origin wire)
       (map_option (\<lambda>ms. now + from_millis ms) (wt_expiry_millis_remaining wire))"

definition reconstruct_and_check ::
    "capability_monitor \<Rightarrow> 'sig wire_token \<Rightarrow> instant \<Rightarrow> instant
     \<Rightarrow> (Fault, capability_token) result" where
  "reconstruct_and_check m wire now now' =
     (let token = claimed_token wire now
      in case check_live m token now' of Inl e \<Rightarrow> Inl e | Inr _ \<Rightarrow> Inr token)"

definition authenticate_wire_token ::
    "capability_monitor \<Rightarrow> 'sig wire_token \<Rightarrow> instant \<Rightarrow> instant
     \<Rightarrow> (Fault, capability_token) result" where
  "authenticate_wire_token m wire now now' = reconstruct_and_check m wire now now'"

definition authenticate_wire_token_signed ::
    "(u8 list \<Rightarrow> 'sig \<Rightarrow> 'key \<Rightarrow> bool) \<Rightarrow> capability_monitor \<Rightarrow> 'sig wire_token \<Rightarrow> 'key
     \<Rightarrow> instant \<Rightarrow> instant \<Rightarrow> (Fault, capability_token) result" where
  "authenticate_wire_token_signed verify m wire verifying_key now now' =
     (case wt_signature wire of
        None \<Rightarrow> Inl SignatureInvalid
      | Some signature \<Rightarrow>
          if \<not> verify (canonical_bytes wire) signature verifying_key then Inl SignatureInvalid
          else reconstruct_and_check m wire now now')"

section \<open>The signed bytes determine every claimed field\<close>

lemma length_to_le_bytes [simp]: "length (to_le_bytes n w) = n"
  by (simp add: to_le_bytes_def)

lemma to_le_bytes_inj:
  fixes a b :: "'a::len word"
  assumes "to_le_bytes n a = to_le_bytes n b" "LENGTH('a) = 8 * n"
  shows "a = b"
proof (rule bit_word_eqI)
  fix k
  assume "k < LENGTH('a)"
  with assms(2) have i: "k div 8 < n" by auto
  from assms(1) i have "to_le_bytes n a ! (k div 8) = to_le_bytes n b ! (k div 8)" by simp
  then have "(ucast (drop_bit (8 * (k div 8)) a) :: u8) = ucast (drop_bit (8 * (k div 8)) b)"
    using i by (simp add: to_le_bytes_def)
  then have "bit (ucast (drop_bit (8 * (k div 8)) a) :: u8) (k mod 8) =
             bit (ucast (drop_bit (8 * (k div 8)) b) :: u8) (k mod 8)"
    by simp
  then show "bit a k = bit b k"
    by (simp add: bit_unsigned_iff bit_drop_bit_eq)
qed

lemma canonical_bytes_inj:
  assumes eq: "canonical_bytes w = canonical_bytes v"
  shows "w = v\<lparr>wt_signature := wt_signature w\<rparr>"
proof -
  have parts: "to_le_bytes 8 (wt_token_id w) = to_le_bytes 8 (wt_token_id v)"
    "to_le_bytes 8 (wt_object_id w) = to_le_bytes 8 (wt_object_id v)"
    "to_le_bytes 4 (wt_rights w) = to_le_bytes 4 (wt_rights v)"
    "to_le_bytes 8 (wt_generation w) = to_le_bytes 8 (wt_generation v)"
    "to_le_bytes 8 (wt_origin w) = to_le_bytes 8 (wt_origin v)"
    "(case wt_expiry_millis_remaining w of Some ms \<Rightarrow> 1 # to_le_bytes 8 ms | None \<Rightarrow> [0]) =
     (case wt_expiry_millis_remaining v of Some ms \<Rightarrow> 1 # to_le_bytes 8 ms | None \<Rightarrow> [0])"
    using eq by (simp_all add: canonical_bytes_def append_eq_append_conv)
  have "wt_expiry_millis_remaining w = wt_expiry_millis_remaining v"
    using parts(6) by (auto split: option.splits dest: to_le_bytes_inj)
  then show ?thesis
    using parts(1-5)
    by (auto dest!: to_le_bytes_inj)
qed

section \<open>What a wire token gives\<close>

lemma reconstruct_and_check_Inr:
  "reconstruct_and_check m w now now' = Inr t \<longleftrightarrow>
     t = claimed_token w now \<and> is_live m t now'"
  by (auto simp: reconstruct_and_check_def Let_def check_live_iff [symmetric] split: sum.splits)

lemma claimed_token_simps [simp]:
  "ct_token_id (claimed_token w now) = wt_token_id w"
  "ct_object_id (claimed_token w now) = wt_object_id w"
  "ct_rights (claimed_token w now) = wt_rights w"
  "ct_generation (claimed_token w now) = wt_generation w"
  "ct_origin (claimed_token w now) = wt_origin w"
  "ct_expiry (claimed_token w now) =
     map_option (\<lambda>ms. now + from_millis ms) (wt_expiry_millis_remaining w)"
  by (simp_all add: claimed_token_def from_wire_parts_def)

lemma is_live_cong:
  assumes "is_live m t now" "ct_token_id t' = ct_token_id t" "ct_object_id t' = ct_object_id t"
    "ct_rights t' = ct_rights t" "ct_generation t' = ct_generation t" "\<not> is_expired t' now'"
  shows "is_live m t' now'"
  using assms by (simp add: is_live_def)

lemma from_millis_of:
  "d < 2 ^ 64 * 1000000 \<Longrightarrow> from_millis (millis_of d) = d div 1000000 * 1000000"
  by (simp add: from_millis_def millis_of_def unat_of_nat less_mult_imp_div_less take_bit_eq_mod)

text \<open>
  Claim C11: what a token becomes on the wire.  A live token with less than \<open>2^64\<close> milliseconds
  to live arrives with every field as sent except the expiry, which is the arrival plus the lifetime
  that remained at the sending, cut to whole milliseconds; a token without an expiry arrives as
  itself.  The receiver accepts it exactly until that deadline, and afterwards reports it expired.
\<close>

theorem wire_roundtrip:
  assumes "is_live m t sent" "\<And>e. ct_expiry t = Some e \<Longrightarrow> e - sent < 2 ^ 64 * 1000000"
  shows "authenticate_wire_token m (wire_from_token t sent :: 'sig wire_token) arrived checked =
    (case ct_expiry t of
       None \<Rightarrow> Inr t
     | Some e \<Rightarrow>
         if arrived + (e - sent) div 1000000 * 1000000 < checked then Inl Expired
         else Inr (t\<lparr>ct_expiry := Some (arrived + (e - sent) div 1000000 * 1000000)\<rparr>))"
proof -
  let ?t' = "t\<lparr>ct_expiry := map_option (\<lambda>e. arrived + (e - sent) div 1000000 * 1000000) (ct_expiry t)\<rparr>"
  have claimed: "claimed_token (wire_from_token t sent :: 'sig wire_token) arrived = ?t'"
    using assms(2) by (cases "ct_expiry t")
      (simp_all add: claimed_token_def from_wire_parts_def wire_from_token_def from_millis_of)
  have "check_live m ?t' checked = (if is_expired ?t' checked then Inl Expired else Inr ())"
    using assms(1) by (simp add: check_live_def is_live_def)
  with claimed show ?thesis
    by (cases "ct_expiry t")
      (simp_all add: authenticate_wire_token_def reconstruct_and_check_def is_expired_def)
qed

theorem wire_roundtrip_witness:
  "authenticate_wire_token demo_monitor (wire_from_token demo_root 40 :: unit wire_token) 90 91 = Inr demo_root
   \<and> authenticate_wire_token demo_monitor (wire_from_token (demo_child\<lparr>ct_expiry := Some 2500050\<rparr>) 50 :: unit wire_token)
         90 2000090
       = Inr (demo_child\<lparr>ct_expiry := Some 2000090\<rparr>)
   \<and> authenticate_wire_token demo_monitor (wire_from_token (demo_child\<lparr>ct_expiry := Some 2500050\<rparr>) 50 :: unit wire_token)
         90 2000091
       = Inl Expired"
proof -
  let ?child = "demo_child\<lparr>ct_expiry := Some 2500050\<rparr>"
  have live: "is_live demo_monitor demo_root 40" "is_live demo_monitor ?child 50"
    by (simp_all add: is_live_def matches_record_def live_generation_def is_expired_def demo_defs)
  have e: "ct_expiry demo_root = None" by (simp add: demo_root_def)
  show ?thesis
    using wire_roundtrip [where 'sig = unit, OF live(1), of 90 91]
      wire_roundtrip [where 'sig = unit, OF live(2), of 90 2000090]
      wire_roundtrip [where 'sig = unit, OF live(2), of 90 2000091]
    by (simp add: e)
qed

text \<open>
  Claim C10: on the signed path, a verifying key that accepts only what its keystore signed
  lets through only tokens that keystore really sent, with every field as sent; the token
  is also live in the monitor.
\<close>

theorem signed_wire_token_genuine:
  assumes unforgeable: "\<And>bytes sg. verify bytes sg key \<Longrightarrow> \<exists>w0 \<in> sent_wires. bytes = canonical_bytes w0"
    and ok: "authenticate_wire_token_signed verify m w key arrived checked = Inr t"
  shows "\<exists>w0 \<in> sent_wires. w = w0\<lparr>wt_signature := wt_signature w\<rparr>
           \<and> t = claimed_token w0 arrived \<and> is_live m t checked"
proof -
  from ok obtain sg where "verify (canonical_bytes w) sg key"
    and t: "t = claimed_token w arrived" "is_live m t checked"
    by (auto simp: authenticate_wire_token_signed_def reconstruct_and_check_Inr
        split: option.splits if_splits)
  with unforgeable obtain w0 where w0: "w0 \<in> sent_wires" "canonical_bytes w = canonical_bytes w0"
    by blast
  from canonical_bytes_inj [OF w0(2)] have eq: "w = w0\<lparr>wt_signature := wt_signature w\<rparr>" .
  have "claimed_token w arrived = claimed_token w0 arrived"
    by (subst eq) (simp add: claimed_token_def)
  with w0(1) eq t show ?thesis by auto
qed

theorem signed_wire_token_genuine_witness:
  "\<exists>w0 \<in> {wire_from_token demo_root 40 :: u8 list wire_token}.
     (wire_signed (\<lambda>bytes. bytes) demo_root 40 :: u8 list wire_token) =
        w0\<lparr>wt_signature := wt_signature (wire_signed (\<lambda>bytes. bytes) demo_root 40)\<rparr>
     \<and> demo_root = claimed_token w0 90 \<and> is_live demo_monitor demo_root 91"
proof (rule signed_wire_token_genuine
    [where verify = "\<lambda>bytes sg key. sg = bytes \<and>
        bytes = canonical_bytes (wire_from_token demo_root 40 :: u8 list wire_token)" and key = "()"])
  show "\<exists>w0 \<in> {wire_from_token demo_root 40 :: u8 list wire_token}. bytes = canonical_bytes w0"
    if "sg = bytes \<and> bytes = canonical_bytes (wire_from_token demo_root 40 :: u8 list wire_token)"
    for bytes sg
    using that by simp
  have "is_live demo_monitor demo_root 91"
    by (simp add: is_live_def matches_record_def live_generation_def is_expired_def demo_defs)
  then show "authenticate_wire_token_signed
        (\<lambda>bytes sg key. sg = bytes \<and>
          bytes = canonical_bytes (wire_from_token demo_root 40 :: u8 list wire_token))
        demo_monitor (wire_signed (\<lambda>bytes. bytes) demo_root 40) () 90 91 = Inr demo_root"
    by (simp add: authenticate_wire_token_signed_def wire_signed_def Let_def
        reconstruct_and_check_Inr claimed_token_def from_wire_parts_def wire_from_token_def
        demo_root_def canonical_bytes_def)
qed

text \<open>
  The expiry of a token restarts when its wire form arrives.  A wire token made
  while the token was live is accepted at any later time, whatever the original deadline,
  with a deadline of its arrival plus the lifetime that remained when it was made.  The
  comment on \<open>expiry_millis_remaining\<close> says the opposite: that transit only makes the
  deadline earlier and never makes an expired token look unexpired.
\<close>

theorem wire_expiry_restarts:
  assumes live: "is_live m t sent" and e: "ct_expiry t = Some e"
    and lifetime: "e - sent < 2 ^ 64 * 1000000"
  shows "\<exists>t'. authenticate_wire_token m (wire_from_token t sent :: 'sig wire_token) arrived arrived
             = Inr t'
           \<and> ct_token_id t' = ct_token_id t \<and> ct_rights t' = ct_rights t
           \<and> ct_expiry t' = Some (arrived + (e - sent) div 1000000 * 1000000)"
proof -
  let ?t' = "claimed_token (wire_from_token t sent :: 'sig wire_token) arrived"
  have exp: "ct_expiry ?t' = Some (arrived + (e - sent) div 1000000 * 1000000)"
    using e from_millis_of [OF lifetime] by (simp add: wire_from_token_def)
  have "is_live m ?t' arrived"
    by (rule is_live_cong [OF live]) (simp_all add: wire_from_token_def is_expired_def e)
  with exp show ?thesis
    by (simp add: authenticate_wire_token_def reconstruct_and_check_Inr)
      (simp add: wire_from_token_def)
qed

theorem wire_expiry_restarts_witness:
  "is_expired demo_child 5000000 \<and>
   (\<exists>t'. authenticate_wire_token demo_monitor (wire_from_token demo_child 50 :: unit wire_token)
           5000000 5000000 = Inr t' \<and> \<not> is_expired t' 5000000)"
proof -
  have live: "is_live demo_monitor demo_child 50"
    by (simp add: is_live_def matches_record_def live_generation_def is_expired_def demo_defs)
  have e: "ct_expiry demo_child = Some 110" by (simp add: demo_child_def)
  from wire_expiry_restarts [OF live e, of 5000000] show ?thesis
    by (auto simp: is_expired_def demo_child_def)
qed

text \<open>
  Claim C13: on the unsigned path revocation does not bind a holder who rewrites the
  generation.  After a token is revoked, its old wire form with the generation raised by
  one is accepted again, with all its rights: the monitor compares the claimed generation
  with the live one and nothing ties the claim to the token that was issued.
\<close>

theorem revoked_wire_token_resurrected:
  assumes wf: "monitor_wf NEXT m" and live: "is_live m t sent" and e: "ct_expiry t = None"
    and revoke: "cap_revoke m t = Some (m', receipt)"
  shows "\<not> is_live m' t now
         \<and> authenticate_wire_token m'
             ((wire_from_token t sent :: 'sig wire_token)\<lparr>wt_generation := ct_generation t + 1\<rparr>)
             arrived checked
           = Inr (t\<lparr>ct_generation := ct_generation t + 1\<rparr>)"
proof -
  from live obtain n where n: "hm_get (cm_graph m) (ct_token_id t) = Some n"
    "rn_object_id n = ct_object_id t" "rn_rights n = ct_rights t"
    "rn_live_generation n = ct_generation t"
    by (rule is_live_node)
  from graph_revoke_wf [OF wf, of "ct_token_id t"] revoke
  have "hm_get (cm_graph m') = bumped (cm_graph m) (subtree (cm_graph m) (ct_token_id t))"
    by (auto simp: cap_revoke_def)
  with n(1) have n': "hm_get (cm_graph m') (ct_token_id t) = Some (bump n)"
    by (simp add: bumped_def)
  let ?w = "(wire_from_token t sent :: 'sig wire_token)\<lparr>wt_generation := ct_generation t + 1\<rparr>"
  have claim: "claimed_token ?w arrived = t\<lparr>ct_generation := ct_generation t + 1\<rparr>"
    using e by (simp add: claimed_token_def from_wire_parts_def wire_from_token_def)
  have "is_live m' (t\<lparr>ct_generation := ct_generation t + 1\<rparr>) checked"
    using n n' e by (simp add: is_live_def matches_record_def live_generation_def bump_def
        is_expired_def)
  moreover have "\<not> is_live m' t now"
    using n n' by (simp add: is_live_def live_generation_def bump_def)
  ultimately show ?thesis
    using claim by (simp add: authenticate_wire_token_def reconstruct_and_check_Inr)
qed

theorem revoked_wire_token_resurrected_witness:
  "\<exists>m' receipt. cap_revoke demo_monitor demo_root = Some (m', receipt)
     \<and> \<not> is_live m' demo_root 60
     \<and> authenticate_wire_token m'
         ((wire_from_token demo_root 40 :: unit wire_token)\<lparr>wt_generation := 1\<rparr>) 70 71
       = Inr (demo_root\<lparr>ct_generation := 1\<rparr>)"
proof -
  have live: "is_live demo_monitor demo_root 40"
    by (simp add: is_live_def matches_record_def live_generation_def is_expired_def demo_defs)
  obtain m' receipt where r: "cap_revoke demo_monitor demo_root = Some (m', receipt)"
    using graph_revoke_wf [OF demo_monitor_wf, of "ct_token_id demo_root"]
    by (auto simp: cap_revoke_def)
  have "ct_expiry demo_root = None" "ct_generation demo_root = 0" by (simp_all add: demo_root_def)
  with revoked_wire_token_resurrected [OF demo_monitor_wf live _ r] r show ?thesis by auto
qed

end
