(* ===== verification/Events.thy ===== *)
theory Events
  imports Storage
begin

text \<open>
  The event bus, \<open>crates/hyperion-events/src/bus.rs\<close> and \<open>types.rs\<close>: topics, patterns,
  delivery classes and backpressure policies, publishing to every matching mailbox, the
  receive side, acknowledgements and the durable log of theory Wal.

  A mailbox is shared between the bus and the subscription's handle, so mailboxes live in a
  store of their own, addressed by the subscription's number; the bus holds addresses.  The
  files of durable subscriptions are a map from the directory and the number in their name
  to their bytes.  Publishing releases the bus before it delivers; \<open>publish_assign\<close> is what
  happens under the lock, \<open>deliver\<close> what happens to one mailbox.  A wait for a free slot or
  for an event is the value None of the operation.
\<close>

section \<open>Topics, events and patterns\<close>

datatype TopicKind = ObjectChanged | AgentProgress | DeviceLifecycle | WorkspaceTrigger | Custom

type_synonym schema_id = string

datatype SubjectId = Object u64 | ObjectSubtree u64 | Agent u64 | Intent u64 | Device u64

fun raw :: "SubjectId \<Rightarrow> u64" where
  "raw (Object i) = i"
| "raw (ObjectSubtree i) = i"
| "raw (Agent i) = i"
| "raw (Intent i) = i"
| "raw (Device i) = i"

record topic =
  tp_kind :: TopicKind
  tp_subject :: SubjectId
  tp_schema_id :: schema_id

definition topic_new :: "TopicKind \<Rightarrow> SubjectId \<Rightarrow> schema_id \<Rightarrow> topic" where
  "topic_new kind subject schema_id =
     \<lparr>tp_kind = kind, tp_subject = subject, tp_schema_id = schema_id\<rparr>"

datatype 'j EventPayload = Inline 'j | ObjectRef u64 u64

record 'j event =
  ev_topic :: topic
  ev_seq :: u64
  ev_timestamp :: u64
  ev_payload :: "'j EventPayload"
  ev_ancestors :: "u64 list"

datatype DeliveryClass = AtMostOnce | AtLeastOnce

datatype BackpressurePolicy = Coalesce | Buffer u32 | Durable | Block

type_synonym subscription_id = u64

datatype TopicPattern = Exact topic | Subtree TopicKind SubjectId | KindScoped TopicKind

fun pattern_matches :: "TopicPattern \<Rightarrow> 'j event \<Rightarrow> bool" where
  "pattern_matches (Exact t) event = (ev_topic event = t)"
| "pattern_matches (Subtree kind rt) event =
     (tp_kind (ev_topic event) = kind
      \<and> (raw (tp_subject (ev_topic event)) = raw rt \<or> List.member (ev_ancestors event) (raw rt)))"
| "pattern_matches (KindScoped kind) event = (tp_kind (ev_topic event) = kind)"

fun is_kind_scoped :: "TopicPattern \<Rightarrow> bool" where
  "is_kind_scoped (KindScoped _) = True"
| "is_kind_scoped _ = False"

text \<open>\<open>EventPanic\<close> is a failed \<open>expect\<close>.\<close>

datatype EventFault =
    EventUnauthorized
  | IncompatibleDeliveryBackpressure DeliveryClass BackpressurePolicy
  | NoSuchSubscription
  | AckNotApplicable
  | NotDurable
  | EventStorageError
  | EventPanic

fun valid_combination :: "DeliveryClass \<Rightarrow> BackpressurePolicy \<Rightarrow> bool" where
  "valid_combination AtMostOnce Coalesce = True"
| "valid_combination AtLeastOnce Durable = True"
| "valid_combination _ (Buffer _) = True"
| "valid_combination _ Block = True"
| "valid_combination _ _ = False"

section \<open>Mailboxes and the bus\<close>

definition BLOCK_CAPACITY :: nat where "BLOCK_CAPACITY = 64"

type_synonym directory = string
type_synonym durable_path = "directory \<times> subscription_id"

record 'j subscriber_state =
  ss_pattern :: TopicPattern
  ss_delivery :: DeliveryClass
  ss_backpressure :: BackpressurePolicy
  ss_holder :: capability_token
  ss_queue :: "'j event list"
  ss_coalesced :: "(topic, 'j event) hashmap"
  ss_dropped :: u64
  ss_last_acked_seq :: u64
  ss_durable_path :: "durable_path option"
  ss_durable_wal :: "wal option"

record bus_state =
  bs_subscriptions :: "subscription_id list"
  bs_next_seq :: "(topic, u64) hashmap"
  bs_next_sub_id :: u64
  bs_durable_dir :: "directory option"

type_synonym disk = "(durable_path, bytes) hashmap"

record 'j event_system =
  es_bus :: bus_state
  es_mailboxes :: "(subscription_id, 'j subscriber_state) hashmap"
  es_disk :: disk

text \<open>The JSON form of an event, and the codec of the log's records.\<close>

record 'j event_codec =
  ec_wal :: "'j wal_codec"
  ec_to_value :: "'j event \<Rightarrow> 'j option"
  ec_from_value :: "'j \<Rightarrow> 'j event option"

definition event_bus_new :: "directory option \<Rightarrow> disk \<Rightarrow> 'j event_system" where
  "event_bus_new durable_dir disk =
     \<lparr>es_bus = \<lparr>bs_subscriptions = [], bs_next_seq = [], bs_next_sub_id = 1,
                bs_durable_dir = durable_dir\<rparr>,
      es_mailboxes = [], es_disk = disk\<rparr>"

definition authorize_publish ::
    "capability_monitor \<Rightarrow> capability_token \<Rightarrow> instant \<Rightarrow> trust_boundary_id
     \<Rightarrow> (EventFault, unit) result" where
  "authorize_publish monitor token now owner =
     (case check_rights_ok_result monitor token WRITE now of
        Inl _ \<Rightarrow> Inl EventUnauthorized
      | Inr _ \<Rightarrow> if ct_origin token \<noteq> owner then Inl EventUnauthorized else Inr ())"

definition authorize_subscribe ::
    "capability_monitor \<Rightarrow> capability_token \<Rightarrow> instant \<Rightarrow> trust_boundary_id \<Rightarrow> TopicPattern
     \<Rightarrow> (EventFault, unit) result" where
  "authorize_subscribe monitor token now owner pattern =
     (case check_rights_ok_result monitor token READ now of
        Inl _ \<Rightarrow> Inl EventUnauthorized
      | Inr _ \<Rightarrow>
          if is_kind_scoped pattern
          then (if contains (ct_rights token) GRANT then Inr () else Inl EventUnauthorized)
          else if ct_origin token = owner then Inr () else Inl EventUnauthorized)"

definition mailbox_of :: "'j event_system \<Rightarrow> subscription_id \<Rightarrow> (EventFault, subscription_id) result" where
  "mailbox_of s sid =
     (if List.member (bs_subscriptions (es_bus s)) sid then Inr sid else Inl NoSuchSubscription)"

definition append_durable ::
    "'j event_codec \<Rightarrow> append_io \<Rightarrow> 'j subscriber_state \<Rightarrow> 'j event \<Rightarrow> disk \<Rightarrow> disk" where
  "append_durable c io st event disk =
     (case (ss_durable_wal st, ss_durable_path st) of
        (Some w, Some path) \<Rightarrow>
          (case ec_to_value c event of
             None \<Rightarrow> disk
           | Some metadata \<Rightarrow>
               (let record = \<lparr>wr_object_id = 0,
                              wr_prev_version = (if 1 < ev_seq event then Some (ev_seq event - 1) else None),
                              wr_new_version = ev_seq event, wr_metadata = metadata,
                              wr_actor_origin = ct_origin (ss_holder st)\<rparr>;
                    file = (case hm_get disk path of None \<Rightarrow> [] | Some f \<Rightarrow> f)
                in hm_insert path (snd (append_and_fsync (ec_wal c) [] io record w file)) disk))
      | _ \<Rightarrow> disk)"

definition deliver ::
    "'j event_codec \<Rightarrow> append_io \<Rightarrow> 'j event \<Rightarrow> 'j subscriber_state \<Rightarrow> disk
     \<Rightarrow> ('j subscriber_state \<times> disk) option" where
  "deliver c io event st disk =
     (case ss_backpressure st of
        Coalesce \<Rightarrow>
          Some (st\<lparr>ss_coalesced := hm_insert (ev_topic event) event (ss_coalesced st)\<rparr>, disk)
      | Durable \<Rightarrow>
          Some (st\<lparr>ss_queue := ss_queue st @ [event]\<rparr>, append_durable c io st event disk)
      | Buffer capacity \<Rightarrow>
          (let st = (if unat capacity \<le> length (ss_queue st)
                     then st\<lparr>ss_queue := tl (ss_queue st), ss_dropped := ss_dropped st + 1\<rparr>
                     else st)
           in Some (st\<lparr>ss_queue := ss_queue st @ [event]\<rparr>, disk))
      | Block \<Rightarrow>
          (if BLOCK_CAPACITY \<le> length (ss_queue st) then None
           else Some (st\<lparr>ss_queue := ss_queue st @ [event]\<rparr>, disk)))"

definition deliver_to ::
    "'j event_codec \<Rightarrow> append_io \<Rightarrow> 'j event \<Rightarrow> subscription_id \<Rightarrow> 'j event_system
     \<Rightarrow> 'j event_system option" where
  "deliver_to c io event sid s =
     (case hm_get (es_mailboxes s) sid of
        None \<Rightarrow> Some s
      | Some st \<Rightarrow>
          map_option (\<lambda>(st', disk'). s\<lparr>es_mailboxes := hm_insert sid st' (es_mailboxes s), es_disk := disk'\<rparr>)
            (deliver c io event st (es_disk s)))"

fun deliver_all ::
    "'j event_codec \<Rightarrow> append_io \<Rightarrow> 'j event \<Rightarrow> subscription_id list \<Rightarrow> 'j event_system
     \<Rightarrow> 'j event_system option" where
  "deliver_all c io event [] s = Some s"
| "deliver_all c io event (sid # sids) s =
     Option.bind (deliver_to c io event sid s) (deliver_all c io event sids)"

definition matching :: "'j event \<Rightarrow> 'j event_system \<Rightarrow> subscription_id list" where
  "matching event s =
     filter (\<lambda>sid. case hm_get (es_mailboxes s) sid of
                     None \<Rightarrow> False | Some st \<Rightarrow> pattern_matches (ss_pattern st) event)
       (bs_subscriptions (es_bus s))"

definition publish_assign ::
    "capability_monitor \<Rightarrow> capability_token \<Rightarrow> instant \<Rightarrow> u64 \<Rightarrow> trust_boundary_id \<Rightarrow> topic
     \<Rightarrow> 'j EventPayload \<Rightarrow> u64 list \<Rightarrow> 'j event_system
     \<Rightarrow> (EventFault, 'j event \<times> subscription_id list) result \<times> 'j event_system" where
  "publish_assign monitor token now timestamp owner topic payload ancestors s =
     (case authorize_publish monitor token now owner of
        Inl e \<Rightarrow> (Inl e, s)
      | Inr _ \<Rightarrow>
          (let seq = (case hm_get (bs_next_seq (es_bus s)) topic of None \<Rightarrow> 0 | Some n \<Rightarrow> n) + 1;
               bus = (es_bus s)\<lparr>bs_next_seq := hm_insert topic seq (bs_next_seq (es_bus s))\<rparr>;
               event = \<lparr>ev_topic = topic, ev_seq = seq, ev_timestamp = timestamp,
                        ev_payload = payload, ev_ancestors = ancestors\<rparr>
           in (Inr (event, matching event s), s\<lparr>es_bus := bus\<rparr>)))"

definition publish ::
    "'j event_codec \<Rightarrow> append_io \<Rightarrow> capability_monitor \<Rightarrow> capability_token \<Rightarrow> instant \<Rightarrow> u64
     \<Rightarrow> trust_boundary_id \<Rightarrow> topic \<Rightarrow> 'j EventPayload \<Rightarrow> u64 list \<Rightarrow> 'j event_system
     \<Rightarrow> ((EventFault, u64) result \<times> 'j event_system) option" where
  "publish c io monitor token now timestamp owner topic payload ancestors s =
     (case publish_assign monitor token now timestamp owner topic payload ancestors s of
        (Inl e, s') \<Rightarrow> Some (Inl e, s')
      | (Inr (event, sids), s') \<Rightarrow>
          map_option (\<lambda>s''. (Inr (ev_seq event), s'')) (deliver_all c io event sids s'))"

definition subscribe ::
    "bool \<Rightarrow> capability_monitor \<Rightarrow> capability_token \<Rightarrow> instant \<Rightarrow> trust_boundary_id \<Rightarrow> TopicPattern
     \<Rightarrow> DeliveryClass \<Rightarrow> BackpressurePolicy \<Rightarrow> 'j event_system
     \<Rightarrow> (EventFault, subscription_id) result \<times> 'j event_system" where
  "subscribe io_ok monitor token now owner pattern delivery backpressure s =
     (if \<not> valid_combination delivery backpressure
      then (Inl (IncompatibleDeliveryBackpressure delivery backpressure), s)
      else case authorize_subscribe monitor token now owner pattern of
        Inl e \<Rightarrow> (Inl e, s)
      | Inr _ \<Rightarrow>
          (let sid = bs_next_sub_id (es_bus s);
               bus = (es_bus s)\<lparr>bs_next_sub_id := sid + 1\<rparr>;
               mailbox = (\<lambda>path w. \<lparr>ss_pattern = pattern, ss_delivery = delivery,
                  ss_backpressure = backpressure, ss_holder = token, ss_queue = [],
                  ss_coalesced = [], ss_dropped = 0, ss_last_acked_seq = 0,
                  ss_durable_path = path, ss_durable_wal = w\<rparr>);
               register = (\<lambda>path w disk.
                  (Inr sid,
                   s\<lparr>es_bus := bus\<lparr>bs_subscriptions := List.insert sid (bs_subscriptions bus)\<rparr>,
                     es_mailboxes := hm_insert sid (mailbox path w) (es_mailboxes s),
                     es_disk := disk\<rparr>))
           in if backpressure = Durable
              then case bs_durable_dir bus of
                     None \<Rightarrow> (Inl EventStorageError, s\<lparr>es_bus := bus\<rparr>)
                   | Some dir \<Rightarrow>
                       (if \<not> io_ok then (Inl EventStorageError, s\<lparr>es_bus := bus\<rparr>)
                        else let path = (dir, sid);
                                 (w, file) = open_for_append None (hm_get (es_disk s) path)
                             in register (Some path) (Some w) (hm_insert path file (es_disk s)))
              else register None None (es_disk s)))"

definition unsubscribe ::
    "subscription_id \<Rightarrow> 'j event_system \<Rightarrow> (EventFault, unit) result \<times> 'j event_system" where
  "unsubscribe sid s =
     (if List.member (bs_subscriptions (es_bus s)) sid
      then (Inr (), s\<lparr>es_bus := (es_bus s)\<lparr>bs_subscriptions := remove1 sid (bs_subscriptions (es_bus s))\<rparr>\<rparr>)
      else (Inl NoSuchSubscription, s))"

definition ack ::
    "subscription_id \<Rightarrow> u64 \<Rightarrow> 'j event_system \<Rightarrow> (EventFault, unit) result \<times> 'j event_system" where
  "ack sid seq s =
     (case and_then (mailbox_of s sid) (\<lambda>a. ok_or NoSuchSubscription (hm_get (es_mailboxes s) a)) of
        Inl e \<Rightarrow> (Inl e, s)
      | Inr st \<Rightarrow>
          if ss_delivery st \<noteq> AtLeastOnce then (Inl AckNotApplicable, s)
          else (Inr (),
                if ss_last_acked_seq st < seq
                then s\<lparr>es_mailboxes := hm_insert sid (st\<lparr>ss_last_acked_seq := seq\<rparr>) (es_mailboxes s)\<rparr>
                else s))"

definition replay_from ::
    "'j event_codec \<Rightarrow> subscription_id \<Rightarrow> u64 \<Rightarrow> 'j event_system \<Rightarrow> (EventFault, 'j event list) result" where
  "replay_from c sid since s =
     and_then (mailbox_of s sid) (\<lambda>a.
     and_then (ok_or NoSuchSubscription (hm_get (es_mailboxes s) a)) (\<lambda>st.
       if ss_backpressure st \<noteq> Durable then Inl NotDurable
       else case ss_durable_path st of
         None \<Rightarrow> Inl EventPanic
       | Some path \<Rightarrow>
           (case replay (ec_wal c) (hm_get (es_disk s) path) of
              Inl _ \<Rightarrow> Inl EventStorageError
            | Inr records \<Rightarrow>
                Inr (sort_key ev_seq
                  (filter (\<lambda>e. since < ev_seq e)
                    (List.map_filter (\<lambda>r. ec_from_value c (wr_metadata r)) records))))))"

definition dropped_count :: "subscription_id \<Rightarrow> 'j event_system \<Rightarrow> (EventFault, u64) result" where
  "dropped_count sid s =
     and_then (mailbox_of s sid) (\<lambda>a.
       map_sum id ss_dropped (ok_or NoSuchSubscription (hm_get (es_mailboxes s) a)))"

definition take_ready :: "'j subscriber_state \<Rightarrow> 'j event option \<times> 'j subscriber_state" where
  "take_ready st =
     (case ss_backpressure st of
        Coalesce \<Rightarrow>
          (case ss_coalesced st of
             [] \<Rightarrow> (None, st)
           | (k, _) # _ \<Rightarrow>
               (hm_get (ss_coalesced st) k, st\<lparr>ss_coalesced := hm_remove k (ss_coalesced st)\<rparr>))
      | _ \<Rightarrow>
          (case ss_queue st of
             [] \<Rightarrow> (None, st)
           | e # es \<Rightarrow> (Some e, st\<lparr>ss_queue := es\<rparr>)))"

definition try_recv :: "subscription_id \<Rightarrow> 'j event_system \<Rightarrow> 'j event option \<times> 'j event_system" where
  "try_recv sid s =
     (case hm_get (es_mailboxes s) sid of
        None \<Rightarrow> (None, s)
      | Some st \<Rightarrow>
          (let (e, st') = take_ready st
           in (e, s\<lparr>es_mailboxes := hm_insert sid st' (es_mailboxes s)\<rparr>)))"

text \<open>\<open>recv\<close> waits when nothing is ready: it then has no result yet.\<close>

definition recv :: "subscription_id \<Rightarrow> 'j event_system \<Rightarrow> ('j event \<times> 'j event_system) option" where
  "recv sid s =
     (case try_recv sid s of
        (None, _) \<Rightarrow> None
      | (Some e, s') \<Rightarrow> Some (e, s'))"

section \<open>What a mailbox holds\<close>

definition pending :: "'j subscriber_state \<Rightarrow> 'j event set" where
  "pending st = set (ss_queue st) \<union> snd ` set (ss_coalesced st)"

definition in_order :: "'j event list \<Rightarrow> bool" where
  "in_order = sorted_wrt (\<lambda>a b. ev_topic a = ev_topic b \<longrightarrow> ev_seq a < ev_seq b)"

definition within_capacity :: "'j subscriber_state \<Rightarrow> bool" where
  "within_capacity st =
     (case ss_backpressure st of
        Buffer c \<Rightarrow> length (ss_queue st) \<le> max 1 (unat c)
      | Block \<Rightarrow> length (ss_queue st) \<le> BLOCK_CAPACITY
      | Coalesce \<Rightarrow> ss_queue st = []
      | Durable \<Rightarrow> True)"

definition last_seq :: "bus_state \<Rightarrow> topic \<Rightarrow> u64" where
  "last_seq b t = (case hm_get (bs_next_seq b) t of None \<Rightarrow> 0 | Some n \<Rightarrow> n)"

definition mailbox_ok :: "bus_state \<Rightarrow> 'j subscriber_state \<Rightarrow> bool" where
  "mailbox_ok b st \<longleftrightarrow>
     within_capacity st \<and> in_order (ss_queue st)
     \<and> hm_wf (ss_coalesced st) \<and> (\<forall>(t, e) \<in> set (ss_coalesced st). ev_topic e = t)
     \<and> (\<forall>e \<in> pending st. pattern_matches (ss_pattern st) e \<and> ev_seq e \<le> last_seq b (ev_topic e))
     \<and> (ss_backpressure st = Durable \<longrightarrow> ss_durable_path st \<noteq> None \<and> ss_durable_wal st \<noteq> None)"

definition events_inv :: "'j event_system \<Rightarrow> bool" where
  "events_inv s \<longleftrightarrow>
     (\<forall>sid st. hm_get (es_mailboxes s) sid = Some st \<longrightarrow> mailbox_ok (es_bus s) st)
     \<and> (\<forall>sid \<in> set (bs_subscriptions (es_bus s)). hm_get (es_mailboxes s) sid \<noteq> None)"

lemma in_order_Nil [simp]: "in_order []"
  by (simp add: in_order_def)

lemma in_order_snoc:
  "in_order (q @ [e]) \<longleftrightarrow> in_order q \<and> (\<forall>x \<in> set q. ev_topic x = ev_topic e \<longrightarrow> ev_seq x < ev_seq e)"
  by (simp add: in_order_def sorted_wrt_append)

lemma in_order_tl: "in_order q \<Longrightarrow> in_order (tl q)"
  by (cases q) (simp_all add: in_order_def)

lemma in_set_tl: "x \<in> set (tl q) \<Longrightarrow> x \<in> set q"
  by (cases q) auto

lemma set_hm_insert: "x \<in> set (hm_insert k v m) \<Longrightarrow> x = (k, v) \<or> x \<in> set m"
  by (induction m) (auto split: if_splits)

text \<open>A mailbox that has seen only older events of the topic stays well-formed when it is
  handed the next one.\<close>

lemma deliver_mailbox_ok:
  assumes ok: "mailbox_ok b st" and m: "pattern_matches (ss_pattern st) e"
    and new: "last_seq b (ev_topic e) < ev_seq e"
    and b': "\<And>t. last_seq b' t = (if t = ev_topic e then ev_seq e else last_seq b t)"
    and d: "deliver c io e st disk = Some (st', disk')"
  shows "mailbox_ok b' st' \<and> ss_pattern st' = ss_pattern st"
proof -
  have mono: "ev_seq x \<le> last_seq b' (ev_topic x)" if "x \<in> pending st" for x
    using that ok new by (auto simp: mailbox_ok_def b' intro: order_trans)
  have older: "ev_seq x < ev_seq e" if "x \<in> set (ss_queue st)" "ev_topic x = ev_topic e" for x
  proof -
    from that(1) have "x \<in> pending st" by (simp add: pending_def)
    with ok have "ev_seq x \<le> last_seq b (ev_topic x)" unfolding mailbox_ok_def by blast
    with that(2) new show ?thesis by auto
  qed
  have pm: "pattern_matches (ss_pattern st) x" if "x \<in> pending st" for x
    using that ok by (auto simp: mailbox_ok_def)
  have here: "last_seq b' (ev_topic e) = ev_seq e" by (simp add: b')
  have keep: "pattern_matches (ss_pattern st) x \<and> ev_seq x \<le> last_seq b' (ev_topic x)"
    if "x = e \<or> x \<in> pending st" for x
    using that m here mono pm by auto
  show ?thesis
  proof (cases "ss_backpressure st")
    case Coalesce
    let ?c = "hm_insert (ev_topic e) e (ss_coalesced st)"
    from Coalesce d have st': "st' = st\<lparr>ss_coalesced := ?c\<rparr>" by (simp add: deliver_def)
    have mem: "x = e \<or> x \<in> pending st" if "x \<in> pending st'" for x
      using that by (auto simp: st' pending_def dest!: set_hm_insert)
    have "\<forall>(t, x) \<in> set ?c. ev_topic x = t"
      using ok by (auto simp: mailbox_ok_def dest!: set_hm_insert)
    moreover have "\<forall>x \<in> pending st'. pattern_matches (ss_pattern st) x \<and> ev_seq x \<le> last_seq b' (ev_topic x)"
      using mem keep by blast
    ultimately show ?thesis
      using ok Coalesce by (simp add: mailbox_ok_def st' within_capacity_def)
  next
    case (Buffer k)
    let ?q = "if unat k \<le> length (ss_queue st) then tl (ss_queue st) else ss_queue st"
    from Buffer d have q: "ss_queue st' = ?q @ [e]" "ss_coalesced st' = ss_coalesced st"
      "ss_pattern st' = ss_pattern st" "ss_backpressure st' = Buffer k"
      by (auto simp: deliver_def Let_def split: if_splits)
    have sub: "x \<in> set ?q \<Longrightarrow> x \<in> set (ss_queue st)" for x by (auto dest: in_set_tl split: if_splits)
    have "length (?q @ [e]) \<le> max 1 (unat k)"
      using ok Buffer by (auto simp: mailbox_ok_def within_capacity_def max_def split: if_splits)
    moreover have "in_order (?q @ [e])"
      unfolding in_order_snoc using ok older sub by (auto simp: mailbox_ok_def intro: in_order_tl)
    moreover have "x = e \<or> x \<in> pending st" if "x \<in> pending st'" for x
      using that sub by (auto simp: q pending_def)
    then have "\<forall>x \<in> pending st'. pattern_matches (ss_pattern st) x \<and> ev_seq x \<le> last_seq b' (ev_topic x)"
      using keep by blast
    ultimately show ?thesis using ok by (simp add: mailbox_ok_def q within_capacity_def)
  next
    case Durable
    from Durable d have q: "st' = st\<lparr>ss_queue := ss_queue st @ [e]\<rparr>" by (simp add: deliver_def)
    have "x = e \<or> x \<in> pending st" if "x \<in> pending st'" for x
      using that by (auto simp: q pending_def)
    then have "\<forall>x \<in> pending st'. pattern_matches (ss_pattern st) x \<and> ev_seq x \<le> last_seq b' (ev_topic x)"
      using keep by blast
    then show ?thesis
      using ok Durable older by (auto simp: mailbox_ok_def q within_capacity_def in_order_snoc)
  next
    case Block
    from Block d have q: "st' = st\<lparr>ss_queue := ss_queue st @ [e]\<rparr>" "length (ss_queue st) < BLOCK_CAPACITY"
      by (auto simp: deliver_def split: if_splits)
    have "x = e \<or> x \<in> pending st" if "x \<in> pending st'" for x
      using that by (auto simp: q pending_def)
    then have "\<forall>x \<in> pending st'. pattern_matches (ss_pattern st) x \<and> ev_seq x \<le> last_seq b' (ev_topic x)"
      using keep by blast
    then show ?thesis
      using ok Block older q(2) by (auto simp: mailbox_ok_def q(1) within_capacity_def in_order_snoc)
  qed
qed

lemma mailbox_ok_mono:
  "mailbox_ok b st \<Longrightarrow> (\<And>t. last_seq b t \<le> last_seq b' t) \<Longrightarrow> mailbox_ok b' st"
  by (auto simp: mailbox_ok_def intro: order_trans)

lemma deliver_to_frame:
  assumes "deliver_to c io e sid s = Some s'"
  shows "es_bus s' = es_bus s"
    "sid' \<noteq> sid \<Longrightarrow> hm_get (es_mailboxes s') sid' = hm_get (es_mailboxes s) sid'"
    "hm_get (es_mailboxes s') sid' = None \<longleftrightarrow> hm_get (es_mailboxes s) sid' = None"
  using assms by (auto simp: deliver_to_def split: option.splits if_splits)

lemma deliver_to_mailbox:
  assumes "deliver_to c io e sid s = Some s'" "hm_get (es_mailboxes s) sid = Some st"
  obtains st' disk' where "deliver c io e st (es_disk s) = Some (st', disk')"
    "hm_get (es_mailboxes s') sid = Some st'" "es_disk s' = disk'"
  using assms by (auto simp: deliver_to_def)

text \<open>A mailbox before and after a pass of deliveries: untouched, or handed the event once.\<close>

lemma deliver_all_mailboxes:
  assumes "deliver_all c io e sids s = Some s'" "distinct sids"
  shows "es_bus s' = es_bus s"
    "hm_get (es_mailboxes s') sid = None \<longleftrightarrow> hm_get (es_mailboxes s) sid = None"
    "sid \<notin> set sids \<Longrightarrow> hm_get (es_mailboxes s') sid = hm_get (es_mailboxes s) sid"
    "sid \<in> set sids \<Longrightarrow> hm_get (es_mailboxes s) sid = Some st \<Longrightarrow>
       \<exists>st' disk disk'. deliver c io e st disk = Some (st', disk') \<and> hm_get (es_mailboxes s') sid = Some st'"
  using assms
proof (induction sids arbitrary: s)
  case Nil
  { case 1 then show ?case by simp }
  { case 2 then show ?case by simp }
  { case 3 then show ?case by simp }
  { case 4 then show ?case by simp }
next
  case (Cons a sids)
  { case 1
    then obtain s1 where s1: "deliver_to c io e a s = Some s1" "deliver_all c io e sids s1 = Some s'"
      by (auto simp: Option.bind_eq_Some_conv)
    with 1 Cons.IH(1) [of s1] deliver_to_frame(1) [OF s1(1)] show ?case by simp }
  { case 2
    then obtain s1 where s1: "deliver_to c io e a s = Some s1" "deliver_all c io e sids s1 = Some s'"
      by (auto simp: Option.bind_eq_Some_conv)
    with 2 Cons.IH(2) [of s1] deliver_to_frame(3) [OF s1(1)] show ?case by simp }
  { case 3
    then obtain s1 where s1: "deliver_to c io e a s = Some s1" "deliver_all c io e sids s1 = Some s'"
      by (auto simp: Option.bind_eq_Some_conv)
    with 3 Cons.IH(3) [of s1] deliver_to_frame(2) [OF s1(1), of sid] show ?case by simp }
  { case 4
    then obtain s1 where s1: "deliver_to c io e a s = Some s1" "deliver_all c io e sids s1 = Some s'"
      by (auto simp: Option.bind_eq_Some_conv)
    show ?case
    proof (cases "sid = a")
      case True
      with s1(1) 4(2) obtain st' disk' where "deliver c io e st (es_disk s) = Some (st', disk')"
        "hm_get (es_mailboxes s1) a = Some st'" by (auto elim: deliver_to_mailbox)
      with True 4 Cons.IH(3) [of s1] s1(2) show ?thesis by auto
    next
      case False
      with 4 Cons.IH(4) [of s1] s1(2) deliver_to_frame(2) [OF s1(1), of sid] show ?thesis by auto
    qed }
qed

lemma publish_assign_Inr:
  assumes "publish_assign m t now ts owner tp pl anc s = (Inr (e, sids), s')"
  shows "ev_topic e = tp" "ev_seq e = last_seq (es_bus s) tp + 1" "sids = matching e s"
    "es_mailboxes s' = es_mailboxes s" "es_disk s' = es_disk s"
    "bs_subscriptions (es_bus s') = bs_subscriptions (es_bus s)"
    "last_seq (es_bus s') x = (if x = tp then ev_seq e else last_seq (es_bus s) x)"
    "ev_payload e = pl" "ev_ancestors e = anc"
    "check_rights_ok m t WRITE now" "ct_origin t = owner"
  using assms
  by (auto simp: publish_assign_def authorize_publish_def Let_def last_seq_def
      check_rights_ok_result_Inr [symmetric, of m t WRITE now "()"] split: sum.splits if_splits)

lemma matching_iff:
  "sid \<in> set (matching e s) \<longleftrightarrow>
     sid \<in> set (bs_subscriptions (es_bus s))
     \<and> (\<exists>st. hm_get (es_mailboxes s) sid = Some st \<and> pattern_matches (ss_pattern st) e)"
  by (auto simp: matching_def split: option.splits)

lemma publish_inv:
  assumes inv: "events_inv s" and dist: "distinct (bs_subscriptions (es_bus s))"
    and seq: "last_seq (es_bus s) tp \<noteq> - 1"
    and pub: "publish c io m t now ts owner tp pl anc s = Some (res, s')"
  shows "events_inv s' \<and> distinct (bs_subscriptions (es_bus s'))"
proof (cases "publish_assign m t now ts owner tp pl anc s")
  case (Pair r s1)
  show ?thesis
  proof (cases r)
    case (Inl x)
    with Pair pub inv dist show ?thesis
      by (auto simp: publish_def publish_assign_def Let_def split: sum.splits)
  next
    case (Inr es)
    then obtain e sids where r: "r = Inr (e, sids)" by (cases es) auto
    note a = publish_assign_Inr [OF Pair [unfolded r]]
    have d: "deliver_all c io e sids s1 = Some s'"
      using pub Pair r by (auto simp: publish_def)
    have ds: "distinct sids" using dist by (simp add: a(3) matching_def)
    note all = deliver_all_mailboxes [OF d ds]
    have new: "last_seq (es_bus s) (ev_topic e) < ev_seq e"
      using word_less_add_one [OF seq] by (simp add: a(1,2))
    have b: "last_seq (es_bus s') x = (if x = ev_topic e then ev_seq e else last_seq (es_bus s) x)" for x
      by (simp add: all(1) a(7) a(1))
    have "mailbox_ok (es_bus s') st'" if st': "hm_get (es_mailboxes s') sid = Some st'" for sid st'
    proof -
      obtain st where st: "hm_get (es_mailboxes s) sid = Some st"
        using all(2) [of sid] st' a(4) by (cases "hm_get (es_mailboxes s) sid") auto
      with inv have ok: "mailbox_ok (es_bus s) st" by (auto simp: events_inv_def)
      show ?thesis
      proof (cases "sid \<in> set sids")
        case True
        with all(4) [of sid st] st a(4) obtain st2 disk disk' where
          "deliver c io e st disk = Some (st2, disk')" "hm_get (es_mailboxes s') sid = Some st2" by auto
        moreover have "pattern_matches (ss_pattern st) e"
          using True st by (auto simp: a(3) matching_iff)
        ultimately show ?thesis using deliver_mailbox_ok [OF ok _ new b] st' by auto
      next
        case False
        with all(3) st st' a(4) have "st' = st" by simp
        moreover have "last_seq (es_bus s) x \<le> last_seq (es_bus s') x" for x
          using new by (cases "x = ev_topic e") (simp_all add: b)
        ultimately show ?thesis using ok by (auto intro: mailbox_ok_mono)
      qed
    qed
    with inv all(1,2) a dist show ?thesis by (auto simp: events_inv_def)
  qed
qed

section \<open>Sessions\<close>

datatype 'j event_call =
    Publish append_io capability_monitor capability_token instant u64 trust_boundary_id topic
      "'j EventPayload" "u64 list"
  | Subscribe bool capability_monitor capability_token instant trust_boundary_id TopicPattern
      DeliveryClass BackpressurePolicy
  | Unsubscribe subscription_id
  | Ack subscription_id u64
  | TryRecv subscription_id

fun event_step :: "'j event_codec \<Rightarrow> 'j event_call \<Rightarrow> 'j event_system \<Rightarrow> 'j event_system option" where
  "event_step c (Publish io m t now ts owner tp pl anc) s =
     map_option snd (publish c io m t now ts owner tp pl anc s)"
| "event_step c (Subscribe io m t now owner p d b) s = Some (snd (subscribe io m t now owner p d b s))"
| "event_step c (Unsubscribe sid) s = Some (snd (unsubscribe sid s))"
| "event_step c (Ack sid seq) s = Some (snd (ack sid seq s))"
| "event_step c (TryRecv sid) s = Some (snd (try_recv sid s))"

fun event_run :: "'j event_codec \<Rightarrow> 'j event_call list \<Rightarrow> 'j event_system \<Rightarrow> 'j event_system option" where
  "event_run c [] s = Some s"
| "event_run c (call # calls) s = Option.bind (event_step c call s) (event_run c calls)"

definition bus_counters :: "nat \<Rightarrow> 'j event_system \<Rightarrow> bool" where
  "bus_counters n s \<longleftrightarrow>
     distinct (bs_subscriptions (es_bus s))
     \<and> (\<forall>t. unat (last_seq (es_bus s) t) \<le> n)
     \<and> unat (bs_next_sub_id (es_bus s)) \<le> Suc n
     \<and> (\<forall>sid. hm_get (es_mailboxes s) sid \<noteq> None \<longrightarrow> sid < bs_next_sub_id (es_bus s))
     \<and> (\<forall>sid \<in> set (bs_subscriptions (es_bus s)). sid < bs_next_sub_id (es_bus s))"

lemma empty_mailbox_ok:
  assumes "valid_combination d bp" "bp = Durable \<longrightarrow> path \<noteq> None \<and> w \<noteq> None"
  shows "mailbox_ok b \<lparr>ss_pattern = p, ss_delivery = d, ss_backpressure = bp, ss_holder = t,
    ss_queue = [], ss_coalesced = [], ss_dropped = 0, ss_last_acked_seq = 0,
    ss_durable_path = path, ss_durable_wal = w\<rparr>"
  using assms by (simp add: mailbox_ok_def within_capacity_def pending_def split: BackpressurePolicy.split)

lemma take_ready_mailbox_ok:
  assumes "mailbox_ok b st"
  shows "mailbox_ok b (snd (take_ready st))"
proof (cases "ss_backpressure st = Coalesce")
  case True
  show ?thesis
  proof (cases "ss_coalesced st")
    case Nil
    with True assms show ?thesis by (simp add: take_ready_def)
  next
    case (Cons x xs)
    obtain k v where x: "x = (k, v)" by (cases x)
    have sub: "set (hm_remove k (ss_coalesced st)) \<subseteq> set (ss_coalesced st)"
      by (simp add: AList.delete_eq)
    have st': "snd (take_ready st) = st\<lparr>ss_coalesced := hm_remove k (ss_coalesced st)\<rparr>"
      using True Cons x by (simp add: take_ready_def)
    have pend: "pending (snd (take_ready st)) \<subseteq> pending st"
      using sub by (auto simp: pending_def st')
    have "\<forall>(t, e) \<in> set (hm_remove k (ss_coalesced st)). ev_topic e = t"
      using assms sub by (auto simp: mailbox_ok_def)
    moreover have "hm_wf (hm_remove k (ss_coalesced st))" using assms by (simp add: mailbox_ok_def)
    moreover have "\<forall>e \<in> pending (snd (take_ready st)).
        pattern_matches (ss_pattern st) e \<and> ev_seq e \<le> last_seq b (ev_topic e)"
      using assms pend by (auto simp: mailbox_ok_def)
    ultimately show ?thesis using assms True unfolding mailbox_ok_def st'
      by (simp add: within_capacity_def)
  qed
next
  case False
  show ?thesis
  proof (cases "ss_queue st")
    case Nil
    with False assms show ?thesis by (simp add: take_ready_def split: BackpressurePolicy.split)
  next
    case (Cons e es)
    then have st': "snd (take_ready st) = st\<lparr>ss_queue := es\<rparr>"
      using False by (simp add: take_ready_def split: BackpressurePolicy.split)
    have pend: "pending (snd (take_ready st)) \<subseteq> pending st" using Cons by (auto simp: pending_def st')
    have "in_order es" using assms Cons by (simp add: mailbox_ok_def in_order_def)
    moreover have "within_capacity (st\<lparr>ss_queue := es\<rparr>)"
      using assms Cons by (auto simp: mailbox_ok_def within_capacity_def split: BackpressurePolicy.splits)
    moreover have "\<forall>e \<in> pending (snd (take_ready st)).
        pattern_matches (ss_pattern st) e \<and> ev_seq e \<le> last_seq b (ev_topic e)"
      using assms pend by (auto simp: mailbox_ok_def)
    ultimately show ?thesis using assms unfolding mailbox_ok_def st' by simp
  qed
qed

lemma mailbox_ok_acked [simp]: "mailbox_ok b (st\<lparr>ss_last_acked_seq := n\<rparr>) = mailbox_ok b st"
  by (cases "ss_backpressure st") (simp_all add: mailbox_ok_def within_capacity_def pending_def)

lemma last_seq_update [simp]:
  "last_seq (b\<lparr>bs_subscriptions := l\<rparr>) t = last_seq b t"
  "last_seq (b\<lparr>bs_next_sub_id := n\<rparr>) t = last_seq b t"
  by (simp_all add: last_seq_def)

lemma mailbox_ok_update [simp]:
  "mailbox_ok (b\<lparr>bs_subscriptions := l\<rparr>) st = mailbox_ok b st"
  "mailbox_ok (b\<lparr>bs_next_sub_id := n\<rparr>) st = mailbox_ok b st"
  by (simp_all add: mailbox_ok_def)

lemma subscribe_cases:
  obtains (refused) x b where "subscribe io m t now owner p d bp s = (Inl x, s\<lparr>es_bus := b\<rparr>)"
      "b = es_bus s \<or> b = (es_bus s)\<lparr>bs_next_sub_id := bs_next_sub_id (es_bus s) + 1\<rparr>"
  | (ok) path w disk where "valid_combination d bp"
      "subscribe io m t now owner p d bp s = (Inr (bs_next_sub_id (es_bus s)),
         s\<lparr>es_bus := (es_bus s)\<lparr>bs_next_sub_id := bs_next_sub_id (es_bus s) + 1,
             bs_subscriptions := List.insert (bs_next_sub_id (es_bus s)) (bs_subscriptions (es_bus s))\<rparr>,
           es_mailboxes := hm_insert (bs_next_sub_id (es_bus s))
             \<lparr>ss_pattern = p, ss_delivery = d, ss_backpressure = bp, ss_holder = t, ss_queue = [],
              ss_coalesced = [], ss_dropped = 0, ss_last_acked_seq = 0, ss_durable_path = path,
              ss_durable_wal = w\<rparr> (es_mailboxes s),
           es_disk := disk\<rparr>)"
      "bp = Durable \<longrightarrow> path \<noteq> None \<and> w \<noteq> None"
proof (cases "valid_combination d bp")
  case False
  then show ?thesis by (intro refused [of _ "es_bus s"]) (simp_all add: subscribe_def)
next
  case valid: True
  show ?thesis
  proof (cases "authorize_subscribe m t now owner p")
    case (Inl x)
    with valid show ?thesis by (intro refused [of _ "es_bus s"]) (simp_all add: subscribe_def)
  next
    case (Inr u)
    show ?thesis
    proof (cases "bp = Durable")
      case False
      with valid Inr show ?thesis by (intro ok [where path = None and w = None and disk = "es_disk s"]) (simp_all add: subscribe_def Let_def)
    next
      case True
      show ?thesis
      proof (cases "bs_durable_dir (es_bus s)")
        case None
        with valid Inr True show ?thesis
          by (intro refused [of _ "(es_bus s)\<lparr>bs_next_sub_id := bs_next_sub_id (es_bus s) + 1\<rparr>"])
            (simp_all add: subscribe_def Let_def)
      next
        case (Some dir)
        show ?thesis
        proof (cases io)
          case False
          with valid Inr True Some show ?thesis
            by (intro refused [of _ "(es_bus s)\<lparr>bs_next_sub_id := bs_next_sub_id (es_bus s) + 1\<rparr>"])
              (simp_all add: subscribe_def Let_def)
        next
          case io: True
          with valid Inr True Some show ?thesis
            by (intro ok [where path = "Some (dir, bs_next_sub_id (es_bus s))"
                  and w = "Some \<lparr>wal_seal = None, wal_attached = True\<rparr>"
                  and disk = "hm_insert (dir, bs_next_sub_id (es_bus s))
                     (case hm_get (es_disk s) (dir, bs_next_sub_id (es_bus s)) of None \<Rightarrow> [] | Some f \<Rightarrow> f)
                     (es_disk s)"])
              (simp_all add: subscribe_def Let_def open_for_append_def)
        qed
      qed
    qed
  qed
qed

lemma subscribe_inv:
  assumes "events_inv s" "bus_counters n s" "Suc (Suc n) < 2 ^ 64"
  shows "events_inv (snd (subscribe io m t now owner p d bp s))
    \<and> bus_counters (Suc n) (snd (subscribe io m t now owner p d bp s))"
proof -
  let ?i = "bs_next_sub_id (es_bus s)"
  have "?i \<noteq> - 1"
  proof
    assume "?i = - 1"
    then have "unat ?i = 2 ^ 64 - 1" by (simp add: unat_max_word)
    with assms(2,3) show False by (simp add: bus_counters_def)
  qed
  note i = unat_add_one [OF this] word_less_add_one [OF this]
  have cnt: "\<forall>t. unat (last_seq (es_bus s) t) \<le> Suc n" using assms(2) by (auto simp: bus_counters_def le_SucI)
  show ?thesis
  proof (cases rule: subscribe_cases [where io = io and m = m and t = t and now = now and owner = owner
        and p = p and d = d and bp = bp and s = s])
    case (refused x b)
    then have b: "bs_subscriptions b = bs_subscriptions (es_bus s)" "last_seq b = last_seq (es_bus s)"
      "?i \<le> bs_next_sub_id b" "unat (bs_next_sub_id b) \<le> Suc (Suc n)"
      using assms(2) i by (auto simp: bus_counters_def last_seq_def fun_eq_iff)
    have "mailbox_ok b st = mailbox_ok (es_bus s) st" for st :: "'a subscriber_state"
      by (simp add: mailbox_ok_def b(2))
    with refused(1) assms cnt b show ?thesis
      by (auto simp: events_inv_def bus_counters_def intro: less_le_trans)
  next
    case (ok path w disk)
    have old: "mailbox_ok ((es_bus s)\<lparr>bs_next_sub_id := a, bs_subscriptions := l\<rparr>) st \<longleftrightarrow>
        mailbox_ok (es_bus s) st" for st :: "'a subscriber_state" and a l
      by (simp add: mailbox_ok_def last_seq_def)
    have ls: "last_seq ((es_bus s)\<lparr>bs_next_sub_id := a, bs_subscriptions := l\<rparr>) = last_seq (es_bus s)" for a l
      by (simp add: last_seq_def fun_eq_iff)
    have "events_inv (snd (subscribe io m t now owner p d bp s))"
      using assms(1) empty_mailbox_ok [OF ok(1,3)] by (auto simp: ok(2) events_inv_def old)
    moreover have "bus_counters (Suc n) (snd (subscribe io m t now owner p d bp s))"
      using assms(2) cnt i by (auto simp: ok(2) bus_counters_def ls intro: less_trans)
    ultimately show ?thesis by blast
  qed
qed

lemma publish_counters:
  assumes "bus_counters n s" "publish c io m t now ts owner tp pl anc s = Some (res, s')" "Suc (Suc n) < 2 ^ 64"
  shows "bus_counters (Suc n) s'"
proof (cases "publish_assign m t now ts owner tp pl anc s")
  case (Pair r s1)
  show ?thesis
  proof (cases r)
    case (Inl x)
    with Pair assms(2) have "s' = s"
      by (auto simp: publish_def publish_assign_def Let_def split: sum.splits)
    with assms(1) show ?thesis by (auto simp: bus_counters_def le_SucI)
  next
    case (Inr es)
    then obtain e sids where r: "r = Inr (e, sids)" by (cases es) auto
    note a = publish_assign_Inr [OF Pair [unfolded r]]
    have d: "deliver_all c io e sids s1 = Some s'"
      using assms(2) Pair r by (auto simp: publish_def)
    have ds: "distinct sids" using assms(1) by (simp add: a(3) matching_def bus_counters_def)
    note all = deliver_all_mailboxes [OF d ds]
    have nm: "bs_next_sub_id (es_bus s1) = bs_next_sub_id (es_bus s)"
      using Pair r by (auto simp: publish_assign_def Let_def split: sum.splits)
    have "unat (last_seq (es_bus s) tp) < 2 ^ 64 - 1" using assms(1,3) by (auto simp: bus_counters_def intro: le_less_trans)
    then have "last_seq (es_bus s) tp \<noteq> - 1" by (auto simp: unat_max_word)
    then have "unat (ev_seq e) = Suc (unat (last_seq (es_bus s) tp))" by (simp add: a(2) unat_add_one)
    then have "unat (last_seq (es_bus s1) x) \<le> Suc n" for x
      using assms(1) by (auto simp: bus_counters_def a(7) le_SucI)
    with assms(1) all(1,2) a(4,6) nm show ?thesis by (auto simp: bus_counters_def)
  qed
qed

lemma bus_counters_Suc: "bus_counters n s \<Longrightarrow> bus_counters (Suc n) s"
  by (auto simp: bus_counters_def le_SucI)

lemma update_bus_inv:
  assumes "events_inv s" "bus_counters n s" "set l \<subseteq> set (bs_subscriptions (es_bus s))" "distinct l"
  shows "events_inv (s\<lparr>es_bus := (es_bus s)\<lparr>bs_subscriptions := l\<rparr>\<rparr>)"
    "bus_counters n (s\<lparr>es_bus := (es_bus s)\<lparr>bs_subscriptions := l\<rparr>\<rparr>)"
  using assms by (auto simp: events_inv_def bus_counters_def)

lemma update_mailbox_inv:
  assumes "events_inv s" "bus_counters n s" "hm_get (es_mailboxes s) sid = Some st"
    "mailbox_ok (es_bus s) st'"
  shows "events_inv (s\<lparr>es_mailboxes := hm_insert sid st' (es_mailboxes s)\<rparr>)"
    "bus_counters n (s\<lparr>es_mailboxes := hm_insert sid st' (es_mailboxes s)\<rparr>)"
  using assms by (simp_all add: events_inv_def bus_counters_def)

lemma unsubscribe_cases:
  obtains "snd (unsubscribe sid s) = s"
  | "snd (unsubscribe sid s) =
      s\<lparr>es_bus := (es_bus s)\<lparr>bs_subscriptions := remove1 sid (bs_subscriptions (es_bus s))\<rparr>\<rparr>"
  by (cases "List.member (bs_subscriptions (es_bus s)) sid") (simp_all add: unsubscribe_def)

lemma ack_cases:
  obtains "snd (ack sid seq s) = s"
  | st where "hm_get (es_mailboxes s) sid = Some st"
      "snd (ack sid seq s) = s\<lparr>es_mailboxes := hm_insert sid (st\<lparr>ss_last_acked_seq := seq\<rparr>) (es_mailboxes s)\<rparr>"
proof (cases "mailbox_of s sid")
  case (Inl x)
  then show ?thesis using that(1) by (simp add: ack_def)
next
  case (Inr a)
  then have "a = sid" by (simp add: mailbox_of_def split: if_splits)
  show ?thesis
  proof (cases "hm_get (es_mailboxes s) sid")
    case None
    with Inr \<open>a = sid\<close> that(1) show ?thesis by (simp add: ack_def)
  next
    case (Some st)
    show ?thesis
    proof (cases "ss_delivery st = AtLeastOnce \<and> ss_last_acked_seq st < seq")
      case True
      with Some Inr \<open>a = sid\<close> that(2) show ?thesis by (simp add: ack_def)
    next
      case False
      with Some Inr \<open>a = sid\<close> that(1) show ?thesis by (auto simp: ack_def split: if_splits)
    qed
  qed
qed

lemma try_recv_cases:
  obtains "snd (try_recv sid s) = s"
  | st where "hm_get (es_mailboxes s) sid = Some st"
      "snd (try_recv sid s) = s\<lparr>es_mailboxes := hm_insert sid (snd (take_ready st)) (es_mailboxes s)\<rparr>"
  using that by (cases "hm_get (es_mailboxes s) sid") (simp_all add: try_recv_def case_prod_unfold Let_def)

lemma event_step_inv:
  assumes "events_inv s" "bus_counters n s" "Suc (Suc n) < 2 ^ 64" "event_step c call s = Some s'"
  shows "events_inv s' \<and> bus_counters (Suc n) s'"
proof (cases call)
  case (Publish io m t now ts owner tp pl anc)
  with assms(4) obtain res where p: "publish c io m t now ts owner tp pl anc s = Some (res, s')" by auto
  have "unat (last_seq (es_bus s) tp) < 2 ^ 64 - 1"
    using assms(2,3) by (auto simp: bus_counters_def intro: le_less_trans)
  then have "last_seq (es_bus s) tp \<noteq> - 1" by (auto simp: unat_max_word)
  with publish_inv [OF assms(1) _ _ p] publish_counters [OF assms(2) p assms(3)] assms(2)
  show ?thesis by (auto simp: bus_counters_def)
next
  case (Subscribe io m t now owner p d bp)
  with subscribe_inv [OF assms(1-3)] assms(4) show ?thesis by auto
next
  case (Unsubscribe sid)
  have l: "set (remove1 sid (bs_subscriptions (es_bus s))) \<subseteq> set (bs_subscriptions (es_bus s))"
    "distinct (remove1 sid (bs_subscriptions (es_bus s)))"
    using assms(2) by (simp_all add: set_remove1_subset bus_counters_def)
  from Unsubscribe assms(4) have "s' = snd (unsubscribe sid s)" by simp
  with update_bus_inv [OF assms(1) bus_counters_Suc [OF assms(2)] l] assms(1) bus_counters_Suc [OF assms(2)]
  show ?thesis by (cases rule: unsubscribe_cases [of sid s]) simp_all
next
  case (Ack sid seq)
  then have "s' = snd (ack sid seq s)" using assms(4) by simp
  note s' = this
  show ?thesis
  proof (cases rule: ack_cases [of sid seq s])
    case 1
    with s' assms(1) bus_counters_Suc [OF assms(2)] show ?thesis by simp
  next
    case (2 st)
    from 2(1) assms(1) have "mailbox_ok (es_bus s) (st\<lparr>ss_last_acked_seq := seq\<rparr>)"
      by (simp add: events_inv_def)
    from update_mailbox_inv [OF assms(1) bus_counters_Suc [OF assms(2)] 2(1) this]
    show ?thesis using 2(2) s' by simp
  qed
next
  case (TryRecv sid)
  then have s': "s' = snd (try_recv sid s)" using assms(4) by simp
  show ?thesis
  proof (cases rule: try_recv_cases [of sid s])
    case 1
    with s' assms(1) bus_counters_Suc [OF assms(2)] show ?thesis by simp
  next
    case (2 st)
    from 2(1) assms(1) have "mailbox_ok (es_bus s) st" by (simp add: events_inv_def)
    from update_mailbox_inv [OF assms(1) bus_counters_Suc [OF assms(2)] 2(1) take_ready_mailbox_ok [OF this]]
    show ?thesis using 2(2) s' by simp
  qed
qed

lemma event_run_inv:
  assumes "events_inv s" "bus_counters n s" "Suc (n + length calls) < 2 ^ 64" "event_run c calls s = Some s'"
  shows "events_inv s'"
  using assms
proof (induction calls arbitrary: s n)
  case Nil
  then show ?case by simp
next
  case (Cons call calls)
  then obtain s1 where s1: "event_step c call s = Some s1" "event_run c calls s1 = Some s'"
    by (auto simp: Option.bind_eq_Some_conv)
  have "Suc (Suc n) < 2 ^ 64" using Cons.prems(3) by simp
  note step = event_step_inv [OF Cons.prems(1,2) this s1(1)]
  show ?case by (rule Cons.IH [of s1 "Suc n"]) (use step s1(2) Cons.prems(3) in auto)
qed

lemma events_inv_new: "events_inv (event_bus_new dir disk) \<and> bus_counters 0 (event_bus_new dir disk)"
  by (simp add: events_inv_def bus_counters_def event_bus_new_def last_seq_def)


section \<open>A buffer keeps the newest events\<close>

fun deliver_list ::
    "'j event_codec \<Rightarrow> append_io \<Rightarrow> 'j event list \<Rightarrow> 'j subscriber_state \<times> disk
     \<Rightarrow> ('j subscriber_state \<times> disk) option" where
  "deliver_list c io [] sd = Some sd"
| "deliver_list c io (e # es) sd = Option.bind (deliver c io e (fst sd) (snd sd)) (deliver_list c io es)"

lemma drop_tl_snoc:
  assumes "length q = n" "0 < n"
  shows "tl q @ [e] = drop (length (q @ [e]) - n) (q @ [e])"
  using assms by (cases q) auto

lemma buffer_step:
  assumes "ss_backpressure st = Buffer k" "0 < k" "length (ss_queue st) \<le> unat k"
  shows "\<exists>st'. deliver c io e st disk = Some (st', disk)
    \<and> ss_queue st' = drop (length (ss_queue st @ [e]) - unat k) (ss_queue st @ [e])
    \<and> ss_dropped st' = ss_dropped st + of_nat (length (ss_queue st @ [e]) - unat k)
    \<and> ss_backpressure st' = Buffer k"
proof (cases "unat k \<le> length (ss_queue st)")
  case True
  with assms(3) have "length (ss_queue st) = unat k" by simp
  moreover have "0 < unat k" using assms(2) by (simp add: word_less_nat_alt)
  ultimately show ?thesis using assms(1) True drop_tl_snoc [of "ss_queue st" "unat k" e]
    by (simp add: deliver_def Let_def)
next
  case False
  with assms show ?thesis by (simp add: deliver_def Let_def)
qed

text \<open>
  A buffering mailbox of capacity \<open>k > 0\<close> is a window.  However many events it is
  handed, it holds the last \<open>k\<close> of what it held and was handed, in order, and its drop
  counter has grown by exactly the number of events that fell out.
\<close>

theorem buffer_keeps_newest:
  assumes "ss_backpressure st = Buffer k" "0 < k" "length (ss_queue st) \<le> unat k"
  shows "\<exists>st'. deliver_list c io es (st, disk) = Some (st', disk)
    \<and> ss_queue st' = drop (length (ss_queue st @ es) - unat k) (ss_queue st @ es)
    \<and> ss_dropped st' = ss_dropped st + of_nat (length (ss_queue st @ es) - unat k)"
  using assms
proof (induction es arbitrary: st)
  case Nil
  then show ?case by simp
next
  case (Cons e es)
  let ?q = "ss_queue st"
  obtain st1 where s1: "deliver c io e st disk = Some (st1, disk)"
    "ss_queue st1 = drop (length (?q @ [e]) - unat k) (?q @ [e])"
    "ss_dropped st1 = ss_dropped st + of_nat (length (?q @ [e]) - unat k)"
    "ss_backpressure st1 = Buffer k"
    using buffer_step [OF Cons.prems] by blast
  have l1: "length (ss_queue st1) \<le> unat k" by (simp add: s1(2))
  from Cons.IH [OF s1(4) Cons.prems(2) l1] obtain st' where
    s': "deliver_list c io es (st1, disk) = Some (st', disk)"
    "ss_queue st' = drop (length (ss_queue st1 @ es) - unat k) (ss_queue st1 @ es)"
    "ss_dropped st' = ss_dropped st1 + of_nat (length (ss_queue st1 @ es) - unat k)" by blast
  let ?d = "length (?q @ [e]) - unat k"
  have len: "length (ss_queue st1) = length (?q @ [e]) - ?d" by (simp add: s1(2))
  have d1: "?d \<le> length (?q @ [e])" by simp
  have dd: "?d + (length (ss_queue st1 @ es) - unat k) = length (?q @ e # es) - unat k"
    using Cons.prems(3) by (simp add: len)
  have "ss_queue st1 @ es = drop ?d ((?q @ [e]) @ es)"
    using d1 by (simp only: s1(2) drop_append diff_is_0_eq [THEN iffD2] drop_0)
  then have "ss_queue st' = drop (length (?q @ e # es) - unat k) (?q @ e # es)"
    using dd by (simp only: s'(2) drop_drop add.commute append_assoc append_Cons append_Nil)
  moreover have "ss_dropped st' = ss_dropped st + of_nat (length (?q @ e # es) - unat k)"
    unfolding s'(3) s1(3) dd [symmetric] by (simp add: algebra_simps)
  ultimately show ?case using s1(1) s'(1) by simp
qed

section \<open>The durable log\<close>

definition event_codec_ok :: "'j event_codec \<Rightarrow> bool" where
  "event_codec_ok c \<longleftrightarrow>
     codec_ok (ec_wal c) \<and> (\<forall>e j. ec_to_value c e = Some j \<longrightarrow> ec_from_value c j = Some e)"

definition durable_record :: "'j subscriber_state \<Rightarrow> 'j event \<Rightarrow> 'j \<Rightarrow> 'j wal_record" where
  "durable_record st e j = \<lparr>wr_object_id = 0,
     wr_prev_version = (if 1 < ev_seq e then Some (ev_seq e - 1) else None),
     wr_new_version = ev_seq e, wr_metadata = j, wr_actor_origin = ct_origin (ss_holder st)\<rparr>"

text \<open>The events a log's records stand for.\<close>

definition logged :: "'j event_codec \<Rightarrow> 'j wal_record list \<Rightarrow> 'j event list" where
  "logged c rs = List.map_filter (\<lambda>r. ec_from_value c (wr_metadata r)) rs"

definition durable_mailbox :: "'j subscriber_state \<Rightarrow> durable_path \<Rightarrow> bool" where
  "durable_mailbox st path \<longleftrightarrow>
     ss_backpressure st = Durable \<and> ss_durable_path st = Some path
     \<and> ss_durable_wal st = Some \<lparr>wal_seal = None, wal_attached = True\<rparr>"

definition event_encodable :: "'j event_codec \<Rightarrow> 'j subscriber_state \<Rightarrow> 'j event \<Rightarrow> bool" where
  "event_encodable c st e \<longleftrightarrow>
     (\<exists>j p. ec_to_value c e = Some j \<and> json_encode (ec_wal c) (durable_record st e j) = Some p)"

definition log_at :: "disk \<Rightarrow> durable_path \<Rightarrow> bytes" where
  "log_at disk path = (case hm_get disk path of None \<Rightarrow> [] | Some f \<Rightarrow> f)"

text \<open>An append that does not stop inside its line, and one whose line is on the file.\<close>

definition whole_append :: "append_io \<Rightarrow> bool" where
  "whole_append io = (case io of WriteFails n \<Rightarrow> n = 0 | _ \<Rightarrow> True)"

definition reaches_log :: "'j event_codec \<Rightarrow> 'j subscriber_state \<Rightarrow> append_io \<times> 'j event \<Rightarrow> bool" where
  "reaches_log c st x \<longleftrightarrow> event_encodable c st (snd x) \<and> fst x \<noteq> WriteFails 0"

fun deliver_each ::
    "'j event_codec \<Rightarrow> (append_io \<times> 'j event) list \<Rightarrow> 'j subscriber_state \<times> disk
     \<Rightarrow> ('j subscriber_state \<times> disk) option" where
  "deliver_each c [] sd = Some sd"
| "deliver_each c ((io, e) # es) sd = Option.bind (deliver c io e (fst sd) (snd sd)) (deliver_each c es)"

lemma logged_append: "logged c (xs @ ys) = logged c xs @ logged c ys"
  by (simp add: logged_def map_filter_def)

lemma durable_append:
  assumes c: "event_codec_ok c" and st: "durable_mailbox st path" "event_encodable c st e"
    and log: "log_file (ec_wal c) None (log_at disk path) rs" and io: "io = AppendOk \<or> io = SyncFails"
  shows "\<exists>r. log_file (ec_wal c) None (log_at (append_durable c io st e disk) path) (rs @ [r]) \<and> logged c [r] = [e]"
proof -
  from st(2) obtain j p where j: "ec_to_value c e = Some j"
    "json_encode (ec_wal c) (durable_record st e j) = Some p" by (auto simp: event_encodable_def)
  have l: "encode_line (ec_wal c) None [] (durable_record st e j) = Some (p @ [10])"
    using j by (simp add: encode_line_def)
  have "is_line (ec_wal c) None (p @ [10]) (durable_record st e j)"
    using c l by (intro encode_line_is_line) (simp_all add: event_codec_ok_def good_nonce_def)
  with log have "log_file (ec_wal c) None (log_at disk path @ p @ [10]) (rs @ [durable_record st e j])"
    by (rule log_file_append)
  moreover have "log_at (append_durable c io st e disk) path = log_at disk path @ p @ [10]"
    using st(1) j l io
    by (auto simp: append_durable_def durable_mailbox_def append_and_fsync_def durable_record_def log_at_def Let_def)
  moreover have "logged c [durable_record st e j] = [e]"
    using c j by (simp add: logged_def map_filter_def durable_record_def event_codec_ok_def)
  ultimately show ?thesis by auto
qed

lemma durable_append_skipped:
  assumes "durable_mailbox st path" "\<not> event_encodable c st e \<or> io = WriteFails 0"
  shows "log_at (append_durable c io st e disk) path = log_at disk path"
  using assms
  by (auto simp: append_durable_def durable_mailbox_def append_and_fsync_def event_encodable_def
      encode_line_def durable_record_def log_at_def Let_def split: option.splits)

lemma durable_step:
  assumes c: "event_codec_ok c" and st: "durable_mailbox st path" and io: "whole_append io"
    and log: "log_file (ec_wal c) None (log_at disk path) rs"
  shows "\<exists>rs' disk'. deliver c io e st disk = Some (st\<lparr>ss_queue := ss_queue st @ [e]\<rparr>, disk')
    \<and> log_file (ec_wal c) None (log_at disk' path) rs'
    \<and> logged c rs' = logged c rs @ (if reaches_log c st (io, e) then [e] else [])"
proof -
  have d: "deliver c io e st disk = Some (st\<lparr>ss_queue := ss_queue st @ [e]\<rparr>, append_durable c io st e disk)"
    using st by (simp add: deliver_def durable_mailbox_def)
  show ?thesis
  proof (cases "reaches_log c st (io, e)")
    case True
    with io have "event_encodable c st e" "io = AppendOk \<or> io = SyncFails"
      by (auto simp: reaches_log_def whole_append_def split: append_io.splits)
    from durable_append [OF c st this(1) log this(2)] d True show ?thesis by (auto simp: logged_append)
  next
    case False
    then have "log_at (append_durable c io st e disk) path = log_at disk path"
      using st by (intro durable_append_skipped) (auto simp: reaches_log_def)
    with d False log show ?thesis by auto
  qed
qed

lemma durable_steps:
  assumes "event_codec_ok c" "durable_mailbox st path" "\<forall>(io, e) \<in> set es. whole_append io"
    "log_file (ec_wal c) None (log_at disk path) rs"
  shows "\<exists>rs' disk'. deliver_each c es (st, disk) = Some (st\<lparr>ss_queue := ss_queue st @ List.map snd es\<rparr>, disk')
    \<and> log_file (ec_wal c) None (log_at disk' path) rs'
    \<and> logged c rs' = logged c rs @ List.map snd (filter (reaches_log c st) es)"
  using assms(2-)
proof (induction es arbitrary: st disk rs)
  case Nil
  then show ?case by auto
next
  case (Cons x es)
  obtain io e where x: "x = (io, e)" by (cases x)
  let ?st = "st\<lparr>ss_queue := ss_queue st @ [e]\<rparr>"
  have w: "whole_append io" "\<forall>(io, e) \<in> set es. whole_append io" using Cons.prems(2) x by auto
  from durable_step [OF assms(1) Cons.prems(1) w(1) Cons.prems(3), of e] obtain rs1 disk1 where s1:
    "deliver c io e st disk = Some (?st, disk1)" "log_file (ec_wal c) None (log_at disk1 path) rs1"
    "logged c rs1 = logged c rs @ (if reaches_log c st (io, e) then [e] else [])" by blast
  have "durable_mailbox ?st path" using Cons.prems(1) by (simp add: durable_mailbox_def)
  moreover have "reaches_log c ?st = reaches_log c st"
    by (rule ext) (auto simp: reaches_log_def event_encodable_def durable_record_def)
  ultimately show ?case using Cons.IH [OF _ w(2) s1(2), of ?st] s1 x by auto
qed

text \<open>
  Claim C15: what a durable subscription can be replayed.  Events are handed to a durable
  mailbox one by one, and each append has its own outcome: it succeeds, it fails before a byte
  is written, or the write succeeds and the sync is reported to fail; only a write cut short inside
  its line is left out, after which the file is no longer a log.  Every event is queued.  Replaying
  from a sequence number, on a log that was well-formed at the start and however the queue is drained,
  returns exactly the events after it that the log held before and those of the new events which
  could be encoded and whose write did not fail, stably sorted by sequence number.  An event whose
  serialisation or write fails is queued all the same and is missing from the replay.
\<close>

theorem durable_replay:
  assumes "event_codec_ok c" "durable_mailbox st path" "\<forall>(io, e) \<in> set es. whole_append io"
    "log_file (ec_wal c) None (log_at disk path) rs"
    "deliver_each c es (st, disk) = Some (st', disk')"
    "sid \<in> set (bs_subscriptions (es_bus s))" "hm_get (es_mailboxes s) sid = Some st''"
    "durable_mailbox st'' path" "es_disk s = disk'"
  shows "ss_queue st' = ss_queue st @ List.map snd es
    \<and> replay_from c sid since s = Inr (sort_key ev_seq (filter (\<lambda>e. since < ev_seq e)
        (logged c rs @ List.map snd (filter (reaches_log c st) es))))"
proof -
  from durable_steps [OF assms(1-4)] assms(5) obtain rs' where
    "st' = st\<lparr>ss_queue := ss_queue st @ List.map snd es\<rparr>"
    and f: "log_file (ec_wal c) None (log_at disk' path) rs'"
    "logged c rs' = logged c rs @ List.map snd (filter (reaches_log c st) es)" by auto
  moreover have "replay (ec_wal c) (hm_get disk' path) = Inr rs'"
    using replay_log_file [OF f(1)]
    by (cases "hm_get disk' path") (simp_all add: replay_def log_at_def replay_lines_def lines_of_def)
  ultimately show ?thesis using f(2) assms(6-9)
    by (simp add: replay_from_def mailbox_of_def durable_mailbox_def logged_def)
qed

section \<open>What the bus does not guarantee\<close>

text \<open>
  Claim C16: two publishers can cross.  The sequence number is assigned under the bus's lock,
  the delivery happens after it is released; if the second event reaches a coalescing
  mailbox before the first one, the slot of the topic ends with the older event, although
  the newer one was published and the mailbox was never read.
\<close>

theorem concurrent_publish_leaves_stale:
  assumes "publish_assign m1 t1 now1 ts1 o1 tp pl1 anc1 s = (Inr (e1, sids1), s1)"
    "publish_assign m2 t2 now2 ts2 o2 tp pl2 anc2 s1 = (Inr (e2, sids2), s2)"
    "unat (last_seq (es_bus s) tp) + 2 < 2 ^ 64"
    "sid \<in> set sids1" "sid \<in> set sids2"
    "hm_get (es_mailboxes s) sid = Some st" "ss_backpressure st = Coalesce"
    "deliver_to c io e2 sid s2 = Some s3" "deliver_to c io e1 sid s3 = Some s4"
  shows "ev_seq e1 < ev_seq e2 \<and> last_seq (es_bus s4) tp = ev_seq e2
    \<and> (\<exists>st'. hm_get (es_mailboxes s4) sid = Some st' \<and> hm_get (ss_coalesced st') tp = Some e1)"
proof -
  note a1 = publish_assign_Inr [OF assms(1)] and a2 = publish_assign_Inr [OF assms(2)]
  have l: "last_seq (es_bus s1) tp = ev_seq e1" by (simp add: a1(7))
  have "last_seq (es_bus s) tp \<noteq> - 1" using assms(3) by (auto simp: unat_max_word)
  then have u: "unat (ev_seq e1) = Suc (unat (last_seq (es_bus s) tp))" by (simp add: a1(2) unat_add_one)
  then have "ev_seq e1 \<noteq> - 1" using assms(3) by (auto simp: unat_max_word)
  then have less: "ev_seq e1 < ev_seq e2" by (simp add: a2(2) l word_less_add_one)
  have st: "hm_get (es_mailboxes s2) sid = Some st" using assms(6) by (simp add: a1(4) a2(4))
  have s3: "hm_get (es_mailboxes s3) sid = Some (st\<lparr>ss_coalesced := hm_insert tp e2 (ss_coalesced st)\<rparr>)"
    using assms(7,8) st by (auto simp: deliver_to_def deliver_def a2(1))
  have "hm_get (es_mailboxes s4) sid =
      Some (st\<lparr>ss_coalesced := hm_insert tp e1 (hm_insert tp e2 (ss_coalesced st))\<rparr>)"
    using assms(7,9) s3 by (auto simp: deliver_to_def deliver_def a1(1))
  moreover have "last_seq (es_bus s4) tp = ev_seq e2"
    using deliver_to_frame(1) [OF assms(8)] deliver_to_frame(1) [OF assms(9)] by (simp add: a2(7))
  ultimately show ?thesis using less by simp
qed

text \<open>
  The owner a caller names is not compared with the subject.  A token with the
  right to read that names its own boundary may subscribe to any subject, and the events
  that the subject's real owner, another boundary, publishes there are delivered to it.
\<close>

theorem subscribe_foreign_subject:
  assumes "check_rights_ok m t READ now" "\<not> is_kind_scoped p"
    "subscribe io m t now (ct_origin t) p AtMostOnce Coalesce s = (res, s1)"
    "publish_assign m2 v now2 ts (ct_origin v) tp pl anc s1 = (Inr (e, sids), s2)"
    "ct_origin v \<noteq> ct_origin t" "pattern_matches p e"
  shows "\<exists>sid. res = Inr sid \<and> sid \<in> set sids"
proof -
  have "authorize_subscribe m t now (ct_origin t) p = Inr ()"
    using assms(1,2) check_rights_ok_result_Inr [of m t READ now "()"] by (simp add: authorize_subscribe_def)
  then have "res = Inr (bs_next_sub_id (es_bus s))"
    "bs_next_sub_id (es_bus s) \<in> set (bs_subscriptions (es_bus s1))"
    "\<exists>st. hm_get (es_mailboxes s1) (bs_next_sub_id (es_bus s)) = Some st \<and> ss_pattern st = p"
    using assms(3) by (auto simp: subscribe_def Let_def)
  with assms(6) show ?thesis
    by (auto simp: publish_assign_Inr(3) [OF assms(4)] matching_iff)
qed

text \<open>
  A restarted bus numbers its subscriptions from one again.  The first durable
  subscription on a directory that an earlier bus has used opens the file of that bus's
  first one, and replaying it returns those events, whatever the new pattern and holder.
\<close>

theorem restarted_bus_inherits_log:
  assumes "hm_get disk (dir, 1) = Some f" "log_file (ec_wal c) None f rs"
    "check_rights_ok m t READ now" "\<not> is_kind_scoped p"
    "subscribe True m t now (ct_origin t) p AtLeastOnce Durable (event_bus_new (Some dir) disk) = (res, s)"
  shows "res = Inr 1
    \<and> replay_from c 1 since s = Inr (sort_key ev_seq (filter (\<lambda>e. since < ev_seq e) (logged c rs)))"
proof -
  have "authorize_subscribe m t now (ct_origin t) p = Inr ()"
    using assms(3,4) check_rights_ok_result_Inr [of m t READ now "()"] by (simp add: authorize_subscribe_def)
  moreover have "replay (ec_wal c) (Some f) = Inr rs" using assms(2) by (simp add: replay_def replay_log_file)
  ultimately show ?thesis
    using assms(1,5)
    by (auto simp: subscribe_def event_bus_new_def Let_def open_for_append_def replay_from_def
        mailbox_of_def logged_def)
qed

section \<open>A concrete bus\<close>

definition demo_topic :: topic where
  "demo_topic = topic_new ObjectChanged (Object 5) ''note''"

definition demo_event :: "u64 \<Rightarrow> nat event" where
  "demo_event n = \<lparr>ev_topic = demo_topic, ev_seq = n, ev_timestamp = 0, ev_payload = ObjectRef 0 0,
     ev_ancestors = []\<rparr>"

definition demo_event_codec :: "nat event_codec" where
  "demo_event_codec = \<lparr>ec_wal = demo_codec,
     ec_to_value = (\<lambda>e. if e = demo_event (ev_seq e) then Some (unat (ev_seq e)) else None),
     ec_from_value = (\<lambda>n. Some (demo_event (of_nat n)))\<rparr>"

definition demo_mailbox :: "BackpressurePolicy \<Rightarrow> nat subscriber_state" where
  "demo_mailbox b = \<lparr>ss_pattern = Exact demo_topic, ss_delivery = AtLeastOnce, ss_backpressure = b,
     ss_holder = demo_root, ss_queue = [], ss_coalesced = [], ss_dropped = 0, ss_last_acked_seq = 0,
     ss_durable_path = Some (''d'', 1), ss_durable_wal = Some \<lparr>wal_seal = None, wal_attached = True\<rparr>\<rparr>"

definition demo_bus :: "BackpressurePolicy \<Rightarrow> disk \<Rightarrow> nat event_system" where
  "demo_bus b d = \<lparr>es_bus = \<lparr>bs_subscriptions = [1], bs_next_seq = [], bs_next_sub_id = 2,
     bs_durable_dir = Some ''d''\<rparr>, es_mailboxes = [(1, demo_mailbox b)], es_disk = d\<rparr>"

definition demo_event_calls :: "nat event_call list" where
  "demo_event_calls =
     [Subscribe True demo_monitor demo_root 0 7 (Exact demo_topic) AtMostOnce (Buffer 2),
      Publish AppendOk demo_monitor demo_root 0 0 7 demo_topic (ObjectRef 0 0) []]"

lemma demo_origin: "ct_origin demo_root = 7"
  by (simp add: demo_root_def)

lemma demo_event_codec_ok: "event_codec_ok demo_event_codec"
  by (auto simp: event_codec_ok_def demo_event_codec_def demo_codec_ok split: if_splits)

lemma demo_publish:
  "publish_assign demo_monitor demo_root 0 0 7 demo_topic (ObjectRef 0 0) [] s =
     (Inr (demo_event (last_seq (es_bus s) demo_topic + 1),
           matching (demo_event (last_seq (es_bus s) demo_topic + 1)) s),
      s\<lparr>es_bus := (es_bus s)\<lparr>bs_next_seq :=
        hm_insert demo_topic (last_seq (es_bus s) demo_topic + 1) (bs_next_seq (es_bus s))\<rparr>\<rparr>)"
  by (simp add: publish_assign_def authorize_publish_def demo_origin demo_event_def last_seq_def Let_def)


theorem buffer_keeps_newest_witness:
  "\<exists>st. deliver_list demo_event_codec AppendOk [demo_event 1, demo_event 2, demo_event 3]
       (demo_mailbox (Buffer 2), []) = Some (st, [])
     \<and> ss_queue st = [demo_event 2, demo_event 3] \<and> ss_dropped st = 1"
proof -
  have "ss_backpressure (demo_mailbox (Buffer 2)) = Buffer 2" "(0 :: u32) < 2"
    "length (ss_queue (demo_mailbox (Buffer 2))) \<le> unat (2 :: u32)"
    by (simp_all add: demo_mailbox_def)
  from buffer_keeps_newest [OF this, of demo_event_codec AppendOk "[demo_event 1, demo_event 2, demo_event 3]" "[]"]
  show ?thesis by (simp add: demo_mailbox_def)
qed

theorem durable_replay_witness:
  "\<exists>disk. deliver_each demo_event_codec [(AppendOk, demo_event 1), (WriteFails 0, demo_event 2), (AppendOk, demo_event 3)]
       (demo_mailbox Durable, [])
       = Some ((demo_mailbox Durable)\<lparr>ss_queue := [demo_event 1, demo_event 2, demo_event 3]\<rparr>, disk)
     \<and> replay_from demo_event_codec 1 0 (demo_bus Durable disk) = Inr [demo_event 1, demo_event 3]"
proof -
  let ?es = "[(AppendOk, demo_event 1), (WriteFails 0, demo_event 2), (AppendOk, demo_event 3)]"
  have st: "durable_mailbox (demo_mailbox Durable) (''d'', 1)"
    by (simp add: durable_mailbox_def demo_mailbox_def)
  have whole: "\<forall>(io, e) \<in> set ?es. whole_append io" by (simp add: whole_append_def)
  have enc: "reaches_log demo_event_codec (demo_mailbox Durable) (io, demo_event n) \<longleftrightarrow> io \<noteq> WriteFails 0" for io n
    by (simp add: reaches_log_def event_encodable_def demo_event_codec_def demo_event_def demo_codec_def demo_encode_def)
  have log: "log_file (ec_wal demo_event_codec) None (log_at [] (''d'', 1)) []"
    by (simp add: log_at_def log_file_empty)
  obtain disk where d: "deliver_each demo_event_codec ?es (demo_mailbox Durable, [])
      = Some ((demo_mailbox Durable)\<lparr>ss_queue := [demo_event 1, demo_event 2, demo_event 3]\<rparr>, disk)"
    by (simp add: deliver_def demo_mailbox_def)
  have bus: "1 \<in> set (bs_subscriptions (es_bus (demo_bus Durable disk)))"
    "hm_get (es_mailboxes (demo_bus Durable disk)) 1 = Some (demo_mailbox Durable)"
    "es_disk (demo_bus Durable disk) = disk"
    by (simp_all add: demo_bus_def)
  from durable_replay [OF demo_event_codec_ok st whole log d bus(1,2) st bus(3), of 0]
  have "replay_from demo_event_codec 1 0 (demo_bus Durable disk) = Inr [demo_event 1, demo_event 3]"
    by (simp add: enc logged_def map_filter_def) (simp add: demo_event_def)
  with d show ?thesis by blast
qed

theorem concurrent_publish_leaves_stale_witness:
  "\<exists>(s :: nat event_system) (st :: nat subscriber_state). last_seq (es_bus s) demo_topic = 2 \<and> hm_get (es_mailboxes s) 1 = Some st
     \<and> hm_get (ss_coalesced st) demo_topic = Some (demo_event 1)"
proof -
  let ?s = "demo_bus Coalesce []"
  define s1 where "s1 = ?s\<lparr>es_bus := (es_bus ?s)\<lparr>bs_next_seq := [(demo_topic, 1)]\<rparr>\<rparr>"
  define s2 where "s2 = ?s\<lparr>es_bus := (es_bus ?s)\<lparr>bs_next_seq := [(demo_topic, 2)]\<rparr>\<rparr>"
  have p1: "publish_assign demo_monitor demo_root 0 0 7 demo_topic (ObjectRef 0 0) [] ?s =
      (Inr (demo_event 1, [1]), s1)"
    by (simp add: demo_publish s1_def demo_bus_def last_seq_def matching_def demo_mailbox_def demo_event_def)
  have p2: "publish_assign demo_monitor demo_root 0 0 7 demo_topic (ObjectRef 0 0) [] s1 =
      (Inr (demo_event 2, [1]), s2)"
    by (simp add: demo_publish s1_def s2_def demo_bus_def last_seq_def matching_def demo_mailbox_def demo_event_def)
  have u: "unat (last_seq (es_bus ?s) demo_topic) + 2 < 2 ^ 64" by (simp add: demo_bus_def last_seq_def)
  have m: "hm_get (es_mailboxes ?s) 1 = Some (demo_mailbox Coalesce)" by (simp add: demo_bus_def)
  have b: "ss_backpressure (demo_mailbox Coalesce) = Coalesce" by (simp add: demo_mailbox_def)
  have one: "(1 :: u64) \<in> set [1]" by simp
  obtain s3 where s3: "deliver_to demo_event_codec AppendOk (demo_event 2) 1 s2 = Some s3"
    by (simp add: deliver_to_def deliver_def s2_def demo_bus_def demo_mailbox_def)
  obtain s4 where s4: "deliver_to demo_event_codec AppendOk (demo_event 1) 1 s3 = Some s4"
    using s3 by (auto simp: deliver_to_def deliver_def s2_def demo_bus_def demo_mailbox_def)
  note stale = concurrent_publish_leaves_stale [OF p1 p2 u one one m b s3 s4]
  then have "last_seq (es_bus s4) demo_topic = 2" by (simp add: demo_event_def)
  with stale show ?thesis by blast
qed

theorem restarted_bus_inherits_log_witness:
  "\<exists>f s. log_file demo_codec None f [demo_record 1]
     \<and> subscribe True demo_monitor demo_root 0 7 (Exact (topic_new DeviceLifecycle (Device 9) ''other''))
         AtLeastOnce Durable (event_bus_new (Some ''d'') [((''d'', 1), f)]) = (Inr 1, s)
     \<and> replay_from demo_event_codec 1 0 s = Inr [demo_event 1]"
proof -
  let ?f = "123 # enc_body (demo_record 1) @ [125, 10]"
  let ?p = "Exact (topic_new DeviceLifecycle (Device 9) ''other'')"
  have "encode_line demo_codec None [] (demo_record 1) = Some ?f"
    by (simp add: encode_line_def demo_codec_def demo_encode_def)
  then have "is_line demo_codec None ?f (demo_record 1)"
    by (intro encode_line_is_line [OF demo_codec_ok]) (simp_all add: good_nonce_def)
  from log_file_Cons [OF this log_file_empty] have log: "log_file demo_codec None ?f [demo_record 1]" by simp
  then have log': "log_file (ec_wal demo_event_codec) None ?f [demo_record 1]"
    by (simp add: demo_event_codec_def)
  obtain res s where sub: "subscribe True demo_monitor demo_root 0 (ct_origin demo_root) ?p AtLeastOnce Durable
      (event_bus_new (Some ''d'') [((''d'', 1), ?f)] :: nat event_system) = (res, s)"
    by (meson surj_pair)
  have d: "hm_get [((''d'', 1 :: u64), ?f)] (''d'', 1) = Some ?f" by simp
  have r: "check_rights_ok demo_monitor demo_root READ 0" "\<not> is_kind_scoped ?p" by simp_all
  from restarted_bus_inherits_log [OF d log' r sub, of 0]
  have "res = Inr 1" "replay_from demo_event_codec 1 0 s = Inr [demo_event 1]"
    by (simp_all add: logged_def map_filter_def demo_record_def demo_event_codec_def demo_event_def)
  with log sub show ?thesis unfolding demo_origin by auto
qed

theorem subscribe_foreign_subject_witness:
  "\<exists>s1 s2 sid sids. subscribe True demo_monitor demo_child 0 8 (Exact demo_topic) AtMostOnce Coalesce
       (event_bus_new None [] :: nat event_system) = (Inr sid, s1)
     \<and> publish_assign demo_monitor demo_root 0 0 7 demo_topic (ObjectRef 0 0) [] s1
         = (Inr (demo_event 1, sids), s2)
     \<and> sid \<in> set sids"
proof -
  have o: "ct_origin demo_child = 8" by (simp add: demo_child_def)
  have r: "check_rights_ok demo_monitor demo_child READ 0"
    by (simp add: check_rights_ok_iff is_live_def matches_record_def live_generation_def is_expired_def
        contains_def demo_defs rights_defs)
  have k: "\<not> is_kind_scoped (Exact demo_topic)" by simp
  obtain res s1 where sub: "subscribe True demo_monitor demo_child 0 (ct_origin demo_child) (Exact demo_topic)
      AtMostOnce Coalesce (event_bus_new None [] :: nat event_system) = (res, s1)"
    by (meson surj_pair)
  then have seq: "last_seq (es_bus s1) demo_topic = 0"
    by (auto simp: subscribe_def event_bus_new_def last_seq_def Let_def split: sum.splits)
  obtain sids s2 where pub: "publish_assign demo_monitor demo_root 0 0 (ct_origin demo_root) demo_topic
      (ObjectRef 0 0) [] s1 = (Inr (demo_event 1, sids), s2)"
    by (simp add: demo_origin demo_publish seq)
  have ne: "ct_origin demo_root \<noteq> ct_origin demo_child" by (simp add: o demo_origin)
  have m: "pattern_matches (Exact demo_topic) (demo_event 1)" by (simp add: demo_event_def)
  from subscribe_foreign_subject [OF r k sub pub ne m] sub pub show ?thesis
    unfolding o demo_origin by blast
qed

end
