(* ===== verification/AI_Runtime.thy ===== *)
theory AI_Runtime
  imports Wire_Token
begin

text \<open>
  The local AI runtime, \<open>crates/hyperion-ai-runtime/src/\<close>: the model registry with its
  signature check (\<open>registry.rs\<close>), the residency manager that evicts models to make room
  (\<open>residency.rs\<close>), and the selection, loading and inference of \<open>runtime.rs\<close>.

  Floating-point numbers are rationals here.  The inference backend and the signature check
  are parameters; the clock is an argument.  The eviction loop is a partial function, and the
  lemmas show that it ends on every manager the operations can produce.
\<close>

section \<open>Models\<close>

datatype ModelClass = Slm | Lrm | Vision | Speech | Coding | Planning

datatype Precision = Int4 | Int8 | Fp16

fun precision_rank :: "Precision \<Rightarrow> nat" where
  "precision_rank Int4 = 0"
| "precision_rank Int8 = 1"
| "precision_rank Fp16 = 2"

fun class_rank :: "ModelClass \<Rightarrow> nat" where
  "class_rank Slm = 0"
| "class_rank Lrm = 1"
| "class_rank Vision = 2"
| "class_rank Speech = 3"
| "class_rank Coding = 4"
| "class_rank Planning = 5"

record quantized_variant =
  qv_precision :: Precision
  qv_footprint_mb :: u32
  qv_expected_tokens_per_sec :: rat

record 'sig model_descriptor =
  md_model_id :: u64
  md_class :: ModelClass
  md_variants :: "quantized_variant list"
  md_signature :: "'sig option"

record capability_contract =
  cc_latency_budget_ms :: u64
  cc_always_on :: bool

record resource_estimate =
  est_precision :: Precision
  est_footprint_mb :: u32
  est_tokens_per_sec :: rat

definition model_canonical_bytes :: "'sig model_descriptor \<Rightarrow> u8 list" where
  "model_canonical_bytes d =
     to_le_bytes 8 (md_model_id d) @ to_le_bytes 8 (of_nat (class_rank (md_class d)) :: u64)
     @ concat (map (\<lambda>v. to_le_bytes 8 (ucast (qv_footprint_mb v) :: u64)
                        @ to_le_bytes 8 (of_nat (precision_rank (qv_precision v)) :: u64))
                 (md_variants d))"

definition model_verify ::
    "(u8 list \<Rightarrow> 'sig \<Rightarrow> 'vk \<Rightarrow> bool) \<Rightarrow> 'sig model_descriptor \<Rightarrow> 'vk \<Rightarrow> bool" where
  "model_verify ver d vk =
     (case md_signature d of
        Some signature \<Rightarrow> ver (model_canonical_bytes d) signature vk
      | None \<Rightarrow> False)"

type_synonym 'sig model_registry = "(u64, 'sig model_descriptor) hashmap"

definition by_class :: "ModelClass \<Rightarrow> 'sig model_registry \<Rightarrow> 'sig model_descriptor list" where
  "by_class c reg = filter (\<lambda>d. md_class d = c) (hm_values reg)"

section \<open>Residency\<close>

datatype ResidencyStatus = Hot | Warm | Cold

record residency_entry =
  re_model_id :: u64
  re_status :: ResidencyStatus
  re_last_used :: u64
  re_pin_count :: u32
  re_predicted_next_use :: rat

record residency_manager =
  rm_entries :: "(u64, residency_entry) hashmap"
  rm_footprints :: "(u64, u32) hashmap"
  rm_used_mb :: u32

definition residency_new :: residency_manager where
  "residency_new = \<lparr>rm_entries = [], rm_footprints = [], rm_used_mb = 0\<rparr>"

definition capacity_available :: "residency_manager \<Rightarrow> u32 \<Rightarrow> u32" where
  "capacity_available r total_mb = saturating_sub total_mb (rm_used_mb r)"

definition is_hot :: "residency_manager \<Rightarrow> u64 \<Rightarrow> bool" where
  "is_hot r model_id =
     (case hm_get (rm_entries r) model_id of None \<Rightarrow> False | Some e \<Rightarrow> re_status e = Hot)"

definition modify_entry ::
    "u64 \<Rightarrow> (residency_entry \<Rightarrow> residency_entry) \<Rightarrow> residency_manager \<Rightarrow> residency_manager" where
  "modify_entry model_id f r = r\<lparr>rm_entries := hm_modify model_id f (rm_entries r)\<rparr>"

definition touch :: "u64 \<Rightarrow> u64 \<Rightarrow> residency_manager \<Rightarrow> residency_manager" where
  "touch model_id now = modify_entry model_id (\<lambda>e. e\<lparr>re_last_used := now\<rparr>)"

definition pin :: "u64 \<Rightarrow> residency_manager \<Rightarrow> residency_manager" where
  "pin model_id = modify_entry model_id (\<lambda>e. e\<lparr>re_pin_count := re_pin_count e + 1\<rparr>)"

definition unpin :: "u64 \<Rightarrow> residency_manager \<Rightarrow> residency_manager" where
  "unpin model_id = modify_entry model_id (\<lambda>e. e\<lparr>re_pin_count := saturating_sub (re_pin_count e) 1\<rparr>)"

definition set_predicted_next_use :: "u64 \<Rightarrow> rat \<Rightarrow> residency_manager \<Rightarrow> residency_manager" where
  "set_predicted_next_use model_id x = modify_entry model_id (\<lambda>e. e\<lparr>re_predicted_next_use := x\<rparr>)"

definition evict :: "u64 \<Rightarrow> residency_manager \<Rightarrow> residency_manager" where
  "evict model_id r =
     (let r = modify_entry model_id (\<lambda>e. e\<lparr>re_status := Cold\<rparr>) r
      in case hm_get (rm_footprints r) model_id of
           None \<Rightarrow> r
         | Some freed \<Rightarrow>
             r\<lparr>rm_footprints := hm_remove model_id (rm_footprints r),
               rm_used_mb := saturating_sub (rm_used_mb r) freed\<rparr>)"

definition entry_value :: "u64 \<Rightarrow> residency_entry \<Rightarrow> rat" where
  "entry_value now e =
     (1 / (of_nat (unat (saturating_sub now (re_last_used e))) + 1))
     * (re_predicted_next_use e + 1 / 1000)"

definition victim :: "u64 \<Rightarrow> residency_manager \<Rightarrow> u64 option" where
  "victim now r =
     map_option re_model_id
       (min_by_key (entry_value now)
         (filter (\<lambda>e. re_status e \<noteq> Cold \<and> re_pin_count e = 0) (hm_values (rm_entries r))))"

partial_function (option) make_room ::
    "u32 \<Rightarrow> u32 \<Rightarrow> u64 \<Rightarrow> residency_manager \<Rightarrow> (bool \<times> residency_manager) option" where
  "make_room footprint_mb total_mb now r =
     (if capacity_available r total_mb < footprint_mb
      then (case victim now r of
              Some model_id \<Rightarrow> make_room footprint_mb total_mb now (evict model_id r)
            | None \<Rightarrow> Some (False, r))
      else Some (True, r))"

definition mark_hot :: "u64 \<Rightarrow> u32 \<Rightarrow> u64 \<Rightarrow> residency_manager \<Rightarrow> residency_manager" where
  "mark_hot model_id footprint_mb now r =
     (let was_resident =
            (case hm_get (rm_entries r) model_id of None \<Rightarrow> False | Some e \<Rightarrow> re_status e \<noteq> Cold);
          r = (if \<not> was_resident
               then r\<lparr>rm_used_mb := rm_used_mb r + footprint_mb,
                      rm_footprints := hm_insert model_id footprint_mb (rm_footprints r)\<rparr>
               else r);
          entry = (case hm_get (rm_entries r) model_id of
                     Some e \<Rightarrow> e\<lparr>re_status := Hot, re_last_used := now\<rparr>
                   | None \<Rightarrow> \<lparr>re_model_id = model_id, re_status = Hot, re_last_used = now,
                              re_pin_count = 0, re_predicted_next_use = 0\<rparr>)
      in r\<lparr>rm_entries := hm_insert model_id entry (rm_entries r)\<rparr>)"

section \<open>The runtime\<close>

datatype PowerMode = Performance | Balanced | BatterySaver | Critical

datatype RuntimeError = RtUnauthorized | InfeasibleLocally | IntegrityFailure | RtNotFound

record 'sig local_ai_runtime =
  rt_registry :: "'sig model_registry"
  rt_residency :: residency_manager
  rt_power_mode :: PowerMode
  rt_total_capacity_mb :: u32
  rt_next_request_id :: u64
  rt_in_flight :: "(u64, bool) hashmap"

record inference_result =
  ir_text :: string
  ir_tokens_generated :: u32
  ir_variant_used :: Precision

definition runtime_new :: "u32 \<Rightarrow> 'sig local_ai_runtime" where
  "runtime_new total_capacity_mb = \<lparr>rt_registry = [], rt_residency = residency_new,
     rt_power_mode = Performance, rt_total_capacity_mb = total_capacity_mb,
     rt_next_request_id = 1, rt_in_flight = []\<rparr>"

definition register_model ::
    "(u8 list \<Rightarrow> 'sig \<Rightarrow> 'vk \<Rightarrow> bool) \<Rightarrow> 'sig model_descriptor \<Rightarrow> 'vk
     \<Rightarrow> 'sig local_ai_runtime \<Rightarrow> (RuntimeError, unit) result \<times> 'sig local_ai_runtime" where
  "register_model ver d vk rt =
     (if \<not> model_verify ver d vk then (Inl IntegrityFailure, rt)
      else (Inr (), rt\<lparr>rt_registry := hm_insert (md_model_id d) d (rt_registry rt)\<rparr>))"

definition tokens_to_ms :: "rat \<Rightarrow> rat" where
  "tokens_to_ms tps = (100 / max tps (1 / 100)) * 1000"

definition meets_latency_budget :: "quantized_variant \<Rightarrow> capability_contract \<Rightarrow> bool" where
  "meets_latency_budget v contract \<longleftrightarrow>
     tokens_to_ms (qv_expected_tokens_per_sec v) \<le> of_nat (unat (cc_latency_budget_ms contract))"

definition estimate ::
    "'sig local_ai_runtime \<Rightarrow> ModelClass \<Rightarrow> capability_contract \<Rightarrow> resource_estimate list" where
  "estimate rt c contract =
     (let available = capacity_available (rt_residency rt) (rt_total_capacity_mb rt)
      in map (\<lambda>v. \<lparr>est_precision = qv_precision v, est_footprint_mb = qv_footprint_mb v,
                   est_tokens_per_sec = qv_expected_tokens_per_sec v\<rparr>)
           (filter (\<lambda>v. meets_latency_budget v contract)
             (filter (\<lambda>v. qv_footprint_mb v \<le> max available (rt_total_capacity_mb rt))
               (concat (map md_variants (by_class c (rt_registry rt)))))))"

fun first_fitting ::
    "u32 \<Rightarrow> capability_contract \<Rightarrow> 'sig model_descriptor list \<Rightarrow> (u64 \<times> quantized_variant) option" where
  "first_fitting capacity contract [] = None"
| "first_fitting capacity contract (d # ds) =
     (case find (\<lambda>v. qv_footprint_mb v \<le> capacity \<and> meets_latency_budget v contract) (md_variants d) of
        Some v \<Rightarrow> Some (md_model_id d, v)
      | None \<Rightarrow> first_fitting capacity contract ds)"

definition select_variant ::
    "'sig local_ai_runtime \<Rightarrow> ModelClass \<Rightarrow> capability_contract \<Rightarrow> (u64 \<times> quantized_variant) option" where
  "select_variant rt c contract =
     first_fitting (rt_total_capacity_mb rt) contract (by_class c (rt_registry rt))"

definition load ::
    "u64 \<Rightarrow> quantized_variant \<Rightarrow> u64 \<Rightarrow> 'sig local_ai_runtime
     \<Rightarrow> ((RuntimeError, unit) result \<times> 'sig local_ai_runtime) option" where
  "load model_id variant now rt =
     (if is_hot (rt_residency rt) model_id
      then Some (Inr (), rt\<lparr>rt_residency := touch model_id now (rt_residency rt)\<rparr>)
      else map_option (\<lambda>(fits, r).
             if \<not> fits then (Inl InfeasibleLocally, rt\<lparr>rt_residency := r\<rparr>)
             else (Inr (), rt\<lparr>rt_residency := mark_hot model_id (qv_footprint_mb variant) now r\<rparr>))
           (make_room (qv_footprint_mb variant) (rt_total_capacity_mb rt) now (rt_residency rt)))"

definition downgrade ::
    "'sig local_ai_runtime \<Rightarrow> ModelClass \<Rightarrow> quantized_variant \<Rightarrow> quantized_variant" where
  "downgrade rt c current =
     (case min_by_key qv_footprint_mb
             (filter (\<lambda>v. precision_rank (qv_precision v) \<le> precision_rank (qv_precision current))
               (concat (map md_variants (by_class c (rt_registry rt))))) of
        Some v \<Rightarrow> v
      | None \<Rightarrow> current)"

definition infer_with_token ::
    "(u64 \<Rightarrow> string \<Rightarrow> bool \<Rightarrow> string) \<Rightarrow> capability_monitor \<Rightarrow> capability_token \<Rightarrow> instant
     \<Rightarrow> ModelClass \<Rightarrow> capability_contract \<Rightarrow> string \<Rightarrow> bool \<Rightarrow> u64 \<Rightarrow> 'sig local_ai_runtime
     \<Rightarrow> ((RuntimeError, inference_result) result \<times> 'sig local_ai_runtime) option" where
  "infer_with_token generate monitor token inst c contract prompt cancel now rt =
     (case check_rights_ok_result monitor token EXEC inst of
        Inl _ \<Rightarrow> Some (Inl RtUnauthorized, rt)
      | Inr _ \<Rightarrow>
          (case select_variant rt c contract of
             None \<Rightarrow> Some (Inl InfeasibleLocally, rt)
           | Some (model_id, v) \<Rightarrow>
               (let variant = (if rt_power_mode rt = BatterySaver \<or> rt_power_mode rt = Critical
                               then downgrade rt c v else v)
                in map_option (\<lambda>(loaded, rt1).
                     case loaded of
                       Inl e \<Rightarrow> (Inl e, rt1)
                     | Inr _ \<Rightarrow>
                         (Inr \<lparr>ir_text = generate model_id prompt cancel, ir_tokens_generated = 0,
                               ir_variant_used = qv_precision variant\<rparr>,
                          rt1\<lparr>rt_residency := touch model_id now (rt_residency rt1),
                              rt_next_request_id := rt_next_request_id rt1 + 1\<rparr>))
                   (load model_id variant now rt))))"

definition infer ::
    "(u64 \<Rightarrow> string \<Rightarrow> bool \<Rightarrow> string) \<Rightarrow> capability_monitor \<Rightarrow> capability_token \<Rightarrow> instant
     \<Rightarrow> ModelClass \<Rightarrow> capability_contract \<Rightarrow> string \<Rightarrow> u64 \<Rightarrow> 'sig local_ai_runtime
     \<Rightarrow> ((RuntimeError, inference_result) result \<times> 'sig local_ai_runtime) option" where
  "infer generate monitor token inst c contract prompt now rt =
     infer_with_token generate monitor token inst c contract prompt False now rt"

definition infer_cancellable ::
    "(u64 \<Rightarrow> string \<Rightarrow> bool \<Rightarrow> string) \<Rightarrow> u64 \<Rightarrow> capability_monitor \<Rightarrow> capability_token \<Rightarrow> instant
     \<Rightarrow> ModelClass \<Rightarrow> capability_contract \<Rightarrow> string \<Rightarrow> bool \<Rightarrow> u64 \<Rightarrow> 'sig local_ai_runtime
     \<Rightarrow> ((RuntimeError, inference_result) result \<times> 'sig local_ai_runtime) option" where
  "infer_cancellable generate request_id monitor token inst c contract prompt cancelled now rt =
     map_option (\<lambda>(res, rt1). (res, rt1\<lparr>rt_in_flight := hm_remove request_id (rt_in_flight rt1)\<rparr>))
       (infer_with_token generate monitor token inst c contract prompt cancelled now
         (rt\<lparr>rt_in_flight := hm_insert request_id False (rt_in_flight rt)\<rparr>))"

definition runtime_cancel :: "u64 \<Rightarrow> 'sig local_ai_runtime \<Rightarrow> 'sig local_ai_runtime" where
  "runtime_cancel request_id rt =
     rt\<lparr>rt_in_flight := hm_modify request_id (\<lambda>_. True) (rt_in_flight rt)\<rparr>"

definition set_power_mode :: "PowerMode \<Rightarrow> 'sig local_ai_runtime \<Rightarrow> 'sig local_ai_runtime" where
  "set_power_mode mode rt = rt\<lparr>rt_power_mode := mode\<rparr>"

definition residency_of :: "'sig local_ai_runtime \<Rightarrow> u64 \<Rightarrow> residency_entry option" where
  "residency_of rt model_id = hm_get (rm_entries (rt_residency rt)) model_id"

section \<open>The residency invariant\<close>

definition resident :: "residency_manager \<Rightarrow> u64 \<Rightarrow> bool" where
  "resident r i \<longleftrightarrow> (\<exists>e. hm_get (rm_entries r) i = Some e \<and> re_status e \<noteq> Cold)"

definition residency_inv :: "residency_manager \<Rightarrow> bool" where
  "residency_inv r \<longleftrightarrow>
     hm_wf (rm_entries r) \<and> hm_wf (rm_footprints r)
     \<and> (\<forall>i e. hm_get (rm_entries r) i = Some e \<longrightarrow> re_model_id e = i)
     \<and> (\<forall>i. hm_get (rm_footprints r) i \<noteq> None \<longleftrightarrow> resident r i)
     \<and> unat (rm_used_mb r) = hm_sum unat (rm_footprints r)"

lemma residency_inv_new: "residency_inv residency_new"
  by (simp add: residency_inv_def residency_new_def resident_def)

lemma modify_entry_get:
  "hm_get (rm_entries (modify_entry i f r)) j =
     (if j = i then map_option f (hm_get (rm_entries r) i) else hm_get (rm_entries r) j)"
  "rm_footprints (modify_entry i f r) = rm_footprints r"
  "rm_used_mb (modify_entry i f r) = rm_used_mb r"
  by (simp_all add: modify_entry_def)

lemma modify_entry_inv:
  assumes "residency_inv r" "\<And>e. re_model_id (f e) = re_model_id e \<and> re_status (f e) = re_status e"
  shows "residency_inv (modify_entry i f r)"
proof -
  have "resident (modify_entry i f r) j = resident r j" for j
    using assms(2) by (auto simp: resident_def modify_entry_get)
  moreover have "hm_wf (rm_entries (modify_entry i f r))"
    using assms(1) by (simp add: residency_inv_def modify_entry_def)
  moreover have "re_model_id e = j" if "hm_get (rm_entries (modify_entry i f r)) j = Some e" for j e
    using that assms by (auto simp: residency_inv_def modify_entry_get split: if_splits)
  ultimately show ?thesis
    using assms(1) by (simp add: residency_inv_def modify_entry_get(2,3))
qed

lemma evict_facts:
  assumes inv: "residency_inv r" and res: "resident r i"
  shows "residency_inv (evict i r)" "\<not> resident (evict i r) i"
    "j \<noteq> i \<Longrightarrow> hm_get (rm_entries (evict i r)) j = hm_get (rm_entries r) j"
    "map fst (rm_entries (evict i r)) = map fst (rm_entries r)"
proof -
  from inv res have "hm_get (rm_footprints r) i \<noteq> None" unfolding residency_inv_def by blast
  then obtain fp where fp: "hm_get (rm_footprints r) i = Some fp" by blast
  from res obtain e where e: "hm_get (rm_entries r) i = Some e" by (auto simp: resident_def)
  let ?r = "evict i r"
  have ev: "rm_entries ?r = hm_insert i (e\<lparr>re_status := Cold\<rparr>) (rm_entries r)"
    "rm_footprints ?r = hm_remove i (rm_footprints r)"
    "rm_used_mb ?r = saturating_sub (rm_used_mb r) fp"
    using fp e by (simp_all add: evict_def modify_entry_def hm_modify_def Let_def)
  have sum: "hm_sum unat (hm_remove i (rm_footprints r)) + unat fp = hm_sum unat (rm_footprints r)"
    using inv fp by (intro hm_sum_remove) (simp_all add: residency_inv_def)
  show "\<not> resident ?r i" by (simp add: resident_def ev(1))
  have other: "resident ?r j \<longleftrightarrow> j \<noteq> i \<and> resident r j" for j
    by (simp add: resident_def ev(1))
  have "unat (rm_used_mb ?r) = hm_sum unat (rm_footprints ?r)"
    using sum inv by (simp add: ev unat_saturating_sub residency_inv_def)
  with inv e other show "residency_inv ?r" by (auto simp: residency_inv_def ev)
  show "j \<noteq> i \<Longrightarrow> hm_get (rm_entries ?r) j = hm_get (rm_entries r) j" by (simp add: ev(1))
  show "map fst (rm_entries ?r) = map fst (rm_entries r)"
    using e by (simp add: ev(1) update_keys hm_get_None_iff) (metis domI dom_map_of_conv_image_fst)
qed

lemma victim_Some:
  assumes "residency_inv r" "victim now r = Some i"
  shows "resident r i" "\<exists>e. hm_get (rm_entries r) i = Some e \<and> re_pin_count e = 0"
proof -
  from assms(2) obtain e where e: "re_model_id e = i" "e \<in> set (hm_values (rm_entries r))"
    "re_status e \<noteq> Cold" "re_pin_count e = 0"
    by (auto simp: victim_def dest: min_by_key_Some)
  then obtain k where "hm_get (rm_entries r) k = Some e"
    using assms(1) by (auto simp: residency_inv_def set_hm_values)
  moreover from this assms(1) e(1) have "k = i" by (auto simp: residency_inv_def)
  ultimately show "resident r i" "\<exists>e. hm_get (rm_entries r) i = Some e \<and> re_pin_count e = 0"
    using e by (auto simp: resident_def)
qed

lemma victim_None:
  assumes "residency_inv r" "victim now r = None" "hm_get (rm_entries r) i = Some e" "re_status e \<noteq> Cold"
  shows "re_pin_count e \<noteq> 0"
  using assms by (auto simp: victim_def residency_inv_def set_hm_values filter_empty_conv)

definition residents :: "residency_manager \<Rightarrow> nat" where
  "residents r = card {i. resident r i}"

lemma finite_resident: "finite {i. resident r i}"
proof (rule finite_subset)
  show "{i. resident r i} \<subseteq> fst ` set (rm_entries r)"
    by (auto simp: resident_def dest!: hm_get_mem intro: rev_image_eqI)
qed simp

lemma residents_evict:
  assumes "residency_inv r" "resident r i"
  shows "residents (evict i r) < residents r"
proof -
  have "{j. resident (evict i r) j} \<subset> {j. resident r j}"
  proof
    show "{j. resident (evict i r) j} \<subseteq> {j. resident r j}"
    proof
      fix j
      assume "j \<in> {j. resident (evict i r) j}"
      with evict_facts(2,3) [OF assms] show "j \<in> {j. resident r j}"
        by (cases "j = i") (auto simp: resident_def)
    qed
    show "{j. resident (evict i r) j} \<noteq> {j. resident r j}"
      using evict_facts(2) [OF assms] assms(2) by blast
  qed
  then show ?thesis unfolding residents_def by (rule psubset_card_mono [OF finite_resident])
qed

lemma make_room_unfold:
  "make_room footprint capacity now r =
     (if capacity_available r capacity < footprint
      then (case victim now r of
              Some i \<Rightarrow> make_room footprint capacity now (evict i r)
            | None \<Rightarrow> Some (False, r))
      else Some (True, r))"
  by (rule make_room.simps)

lemma capacity_available_iff:
  assumes "\<not> capacity_available r total_mb < footprint" "0 < footprint"
  shows "unat (rm_used_mb r) + unat footprint \<le> unat total_mb"
proof -
  from assms have "unat footprint \<le> unat total_mb - unat (rm_used_mb r)" "0 < unat footprint"
    by (simp_all add: capacity_available_def word_less_nat_alt unat_saturating_sub unat_gt_0
        word_gt_0 [symmetric])
  then show ?thesis by simp
qed

lemma evict_used: "rm_used_mb (evict i r) \<le> rm_used_mb r"
  by (simp add: evict_def modify_entry_def Let_def saturating_sub_le split: option.split)

lemma make_room_spec:
  assumes "residency_inv r"
  shows "\<exists>ok r'. make_room footprint capacity now r = Some (ok, r') \<and> residency_inv r'
    \<and> rm_used_mb r' \<le> rm_used_mb r
    \<and> (\<forall>i e. hm_get (rm_entries r) i = Some e \<and> re_pin_count e \<noteq> 0 \<longrightarrow> hm_get (rm_entries r') i = Some e)
    \<and> (ok \<longrightarrow> \<not> capacity_available r' capacity < footprint)
    \<and> (\<not> ok \<longrightarrow> capacity_available r' capacity < footprint
         \<and> (\<forall>i e. hm_get (rm_entries r') i = Some e \<and> re_pin_count e = 0 \<longrightarrow> re_status e = Cold))"
  using assms
proof (induction "residents r" arbitrary: r rule: less_induct)
  case less
  show ?case
  proof (cases "capacity_available r capacity < footprint")
    case False
    then show ?thesis using less.prems by (subst make_room_unfold) auto
  next
    case True
    show ?thesis
    proof (cases "victim now r")
      case None
      with True have "make_room footprint capacity now r = Some (False, r)"
        by (subst make_room_unfold) simp
      with True less.prems victim_None [OF less.prems None] show ?thesis by blast
    next
      case (Some v)
      note vic = victim_Some [OF less.prems Some]
      note ev = evict_facts [OF less.prems vic(1)]
      have unfold: "make_room footprint capacity now r = make_room footprint capacity now (evict v r)"
        using True Some by (subst make_room_unfold) simp
      from less.hyps [OF residents_evict [OF less.prems vic(1)] ev(1)] obtain ok r' where
        r': "make_room footprint capacity now (evict v r) = Some (ok, r')" "residency_inv r'"
        "rm_used_mb r' \<le> rm_used_mb (evict v r)"
        "\<forall>i e. hm_get (rm_entries (evict v r)) i = Some e \<and> re_pin_count e \<noteq> 0 \<longrightarrow> hm_get (rm_entries r') i = Some e"
        "ok \<longrightarrow> \<not> capacity_available r' capacity < footprint"
        "\<not> ok \<longrightarrow> capacity_available r' capacity < footprint
           \<and> (\<forall>i e. hm_get (rm_entries r') i = Some e \<and> re_pin_count e = 0 \<longrightarrow> re_status e = Cold)"
        by blast
      have "hm_get (rm_entries r') i = Some e"
        if "hm_get (rm_entries r) i = Some e" "re_pin_count e \<noteq> 0" for i e
      proof -
        from that vic(2) have "i \<noteq> v" by auto
        with that ev(3) r'(4) show ?thesis by simp
      qed
      moreover have "rm_used_mb (evict v r) \<le> rm_used_mb r" by (rule evict_used)
      then have "rm_used_mb r' \<le> rm_used_mb r" using r'(3) by simp
      ultimately show ?thesis using r' unfold by auto
    qed
  qed
qed

text \<open>
  Claim C17: making room ends and does what it says.  On a consistent manager the eviction
  loop terminates, keeps the manager consistent, never touches a pinned model, and either
  leaves enough free capacity or, having evicted every model that is not pinned, reports
  that there is none.
\<close>

theorem make_room_correct:
  assumes "residency_inv r"
  shows "\<exists>ok r'. make_room footprint capacity now r = Some (ok, r') \<and> residency_inv r'
    \<and> (\<forall>i e. hm_get (rm_entries r) i = Some e \<and> re_pin_count e \<noteq> 0 \<longrightarrow> hm_get (rm_entries r') i = Some e)
    \<and> (ok \<longrightarrow> \<not> capacity_available r' capacity < footprint)
    \<and> (\<not> ok \<longrightarrow> capacity_available r' capacity < footprint
         \<and> (\<forall>i e. hm_get (rm_entries r') i = Some e \<and> re_pin_count e = 0 \<longrightarrow> re_status e = Cold))"
  using make_room_spec [OF assms, of footprint capacity now] by blast

lemma mark_hot_inv:
  assumes inv: "residency_inv r" and room: "unat (rm_used_mb r) + unat fp < 2 ^ 32"
  shows "residency_inv (mark_hot i fp now r)" "is_hot (mark_hot i fp now r) i"
    "unat (rm_used_mb (mark_hot i fp now r)) \<le> unat (rm_used_mb r) + unat fp"
proof -
  let ?r = "mark_hot i fp now r"
  obtain e' where e': "rm_entries ?r = hm_insert i e' (rm_entries r)" "re_status e' = Hot" "re_model_id e' = i"
    using inv by (cases "hm_get (rm_entries r) i") (auto simp: mark_hot_def residency_inv_def Let_def)
  then show "is_hot ?r i" by (simp add: is_hot_def)
  have res: "resident ?r j \<longleftrightarrow> j = i \<or> resident r j" for j
    by (auto simp: resident_def e')
  have ent: "hm_wf (rm_entries ?r)" "\<forall>j e. hm_get (rm_entries ?r) j = Some e \<longrightarrow> re_model_id e = j"
    using inv e' by (auto simp: residency_inv_def)
  show "residency_inv ?r" "unat (rm_used_mb ?r) \<le> unat (rm_used_mb r) + unat fp"
  proof -
    have "residency_inv ?r \<and> unat (rm_used_mb ?r) \<le> unat (rm_used_mb r) + unat fp"
    proof (cases "resident r i")
      case True
      then have fp: "rm_footprints ?r = rm_footprints r" "rm_used_mb ?r = rm_used_mb r"
        by (auto simp: mark_hot_def resident_def Let_def)
      with True inv ent res show ?thesis by (auto simp: residency_inv_def)
    next
      case False
      then have nr: "\<not> (case hm_get (rm_entries r) i of None \<Rightarrow> False | Some e \<Rightarrow> re_status e \<noteq> Cold)"
        by (auto simp: resident_def split: option.splits)
      then have fp: "rm_footprints ?r = hm_insert i fp (rm_footprints r)" "rm_used_mb ?r = rm_used_mb r + fp"
        by (simp_all add: mark_hot_def Let_def)
      have none: "hm_get (rm_footprints r) i = None" using inv False unfolding residency_inv_def by blast
      have "unat (rm_used_mb r + fp) = unat (rm_used_mb r) + unat fp"
        using room by (simp add: unat_word_ariths)
      moreover have "hm_sum unat (rm_footprints ?r) = hm_sum unat (rm_footprints r) + unat fp"
        by (simp add: fp hm_sum_insert_new [OF none])
      moreover have "hm_get (rm_footprints ?r) j \<noteq> None \<longleftrightarrow> resident ?r j" for j
        using inv by (simp add: fp res residency_inv_def)
      moreover have "hm_wf (rm_footprints ?r)" using inv by (simp add: fp residency_inv_def)
      ultimately show ?thesis using ent inv by (simp add: residency_inv_def fp(2))
    qed
    then show "residency_inv ?r" "unat (rm_used_mb ?r) \<le> unat (rm_used_mb r) + unat fp" by blast+
  qed
qed

definition within_total :: "'sig local_ai_runtime \<Rightarrow> bool" where
  "within_total rt \<longleftrightarrow>
     residency_inv (rt_residency rt)
     \<and> unat (rm_used_mb (rt_residency rt)) \<le> unat (rt_total_capacity_mb rt)"

lemma room_fits:
  assumes "\<not> capacity_available r total_mb < fp" "unat (rm_used_mb r) \<le> unat total_mb"
  shows "unat (rm_used_mb r) + unat fp \<le> unat total_mb"
  using assms by (simp add: capacity_available_def word_less_nat_alt unat_saturating_sub)

lemma load_spec:
  assumes "within_total rt"
  shows "\<exists>res rt'. load i v now rt = Some (res, rt') \<and> within_total rt'
    \<and> rt_registry rt' = rt_registry rt \<and> rt_total_capacity_mb rt' = rt_total_capacity_mb rt
    \<and> (case res of Inr _ \<Rightarrow> is_hot (rt_residency rt') i | Inl e \<Rightarrow> e = InfeasibleLocally)"
proof (cases "is_hot (rt_residency rt) i")
  case True
  have "residency_inv (touch i now (rt_residency rt))"
    using assms by (auto simp: within_total_def touch_def intro!: modify_entry_inv)
  moreover have "is_hot (touch i now (rt_residency rt)) i"
    using True by (auto simp: is_hot_def touch_def modify_entry_get split: option.splits)
  ultimately show ?thesis
    using True assms by (simp add: load_def within_total_def touch_def modify_entry_get(3))
next
  case False
  let ?fp = "qv_footprint_mb v"
  from make_room_spec [of "rt_residency rt" ?fp "rt_total_capacity_mb rt" now] assms
  obtain ok r' where r': "make_room ?fp (rt_total_capacity_mb rt) now (rt_residency rt) = Some (ok, r')"
    "residency_inv r'" "rm_used_mb r' \<le> rm_used_mb (rt_residency rt)"
    "ok \<longrightarrow> \<not> capacity_available r' (rt_total_capacity_mb rt) < ?fp"
    unfolding within_total_def by blast
  have used: "unat (rm_used_mb r') \<le> unat (rt_total_capacity_mb rt)"
    using r'(3) assms by (auto simp: within_total_def word_le_nat_alt)
  show ?thesis
  proof (cases ok)
    case False
    with \<open>\<not> is_hot (rt_residency rt) i\<close> r' used show ?thesis by (simp add: load_def within_total_def)
  next
    case True
    with r'(4) have room: "unat (rm_used_mb r') + unat ?fp \<le> unat (rt_total_capacity_mb rt)"
      using room_fits [OF _ used] by blast
    moreover have "unat (rt_total_capacity_mb rt) < 2 ^ 32"
      using unsigned_less [of "rt_total_capacity_mb rt"] by simp
    ultimately have "unat (rm_used_mb r') + unat ?fp < 2 ^ 32" by simp
    note hot = mark_hot_inv [OF r'(2) this, of i now]
    from hot room r'(1) True \<open>\<not> is_hot (rt_residency rt) i\<close> show ?thesis
      by (auto simp: load_def within_total_def)
  qed
qed

datatype 'sig runtime_call =
    RegisterModel "u8 list \<Rightarrow> 'sig \<Rightarrow> bool" "'sig model_descriptor"
  | Load u64 quantized_variant u64
  | Infer capability_monitor capability_token instant ModelClass capability_contract string u64
  | InferCancellable u64 capability_monitor capability_token instant ModelClass capability_contract string bool u64
  | CancelRequest u64
  | Pin u64
  | Unpin u64
  | SetPredicted u64 rat
  | SetPower PowerMode

fun runtime_step ::
    "(u64 \<Rightarrow> string \<Rightarrow> bool \<Rightarrow> string) \<Rightarrow> 'sig runtime_call \<Rightarrow> 'sig local_ai_runtime
     \<Rightarrow> 'sig local_ai_runtime option" where
  "runtime_step g (RegisterModel ver d) rt = Some (snd (register_model (\<lambda>b s (_ :: unit). ver b s) d () rt))"
| "runtime_step g (Load i v now) rt = map_option snd (load i v now rt)"
| "runtime_step g (Infer m t inst c k p now) rt = map_option snd (infer g m t inst c k p now rt)"
| "runtime_step g (InferCancellable i m t inst c k p x now) rt =
     map_option snd (infer_cancellable g i m t inst c k p x now rt)"
| "runtime_step g (CancelRequest i) rt = Some (runtime_cancel i rt)"
| "runtime_step g (Pin i) rt = Some (rt\<lparr>rt_residency := pin i (rt_residency rt)\<rparr>)"
| "runtime_step g (Unpin i) rt = Some (rt\<lparr>rt_residency := unpin i (rt_residency rt)\<rparr>)"
| "runtime_step g (SetPredicted i x) rt =
     Some (rt\<lparr>rt_residency := set_predicted_next_use i x (rt_residency rt)\<rparr>)"
| "runtime_step g (SetPower p) rt = Some (set_power_mode p rt)"

fun runtime_run ::
    "(u64 \<Rightarrow> string \<Rightarrow> bool \<Rightarrow> string) \<Rightarrow> 'sig runtime_call list \<Rightarrow> 'sig local_ai_runtime
     \<Rightarrow> 'sig local_ai_runtime option" where
  "runtime_run g [] rt = Some rt"
| "runtime_run g (c # cs) rt = Option.bind (runtime_step g c rt) (runtime_run g cs)"

lemma within_total_entry:
  assumes "within_total rt" "\<And>e. re_model_id (f e) = re_model_id e \<and> re_status (f e) = re_status e"
  shows "within_total (rt\<lparr>rt_residency := modify_entry i f (rt_residency rt)\<rparr>)"
  using assms modify_entry_inv [of "rt_residency rt" f i]
  by (simp add: within_total_def modify_entry_get(3))

lemma within_total_update [simp]:
  "within_total (rt\<lparr>rt_in_flight := x\<rparr>) = within_total rt"
  "within_total (rt\<lparr>rt_registry := y\<rparr>) = within_total rt"
  "within_total (rt\<lparr>rt_power_mode := z\<rparr>) = within_total rt"
  "within_total (rt\<lparr>rt_next_request_id := n\<rparr>) = within_total rt"
  by (simp_all add: within_total_def)

lemma infer_with_token_spec:
  assumes "within_total rt"
  shows "\<exists>res rt'. infer_with_token g m t inst c k p x now rt = Some (res, rt') \<and> within_total rt'
    \<and> rt_total_capacity_mb rt' = rt_total_capacity_mb rt"
proof (cases "check_rights_ok_result m t EXEC inst")
  case (Inl e)
  then show ?thesis using assms by (simp add: infer_with_token_def)
next
  case (Inr u)
  show ?thesis
  proof (cases "select_variant rt c k")
    case None
    with Inr assms show ?thesis by (simp add: infer_with_token_def)
  next
    case (Some iv)
    obtain i v where iv: "iv = (i, v)" by (cases iv)
    let ?v = "if rt_power_mode rt = BatterySaver \<or> rt_power_mode rt = Critical then downgrade rt c v else v"
    from load_spec [OF assms, of i ?v now] obtain res rt1 where l: "load i ?v now rt = Some (res, rt1)"
      "within_total rt1" "rt_total_capacity_mb rt1 = rt_total_capacity_mb rt" by blast
    have "within_total (rt1\<lparr>rt_residency := touch i now (rt_residency rt1)\<rparr>)"
      unfolding touch_def by (rule within_total_entry [OF l(2)]) simp
    then have "within_total (rt1\<lparr>rt_residency := touch i now (rt_residency rt1),
        rt_next_request_id := rt_next_request_id rt1 + 1\<rparr>)"
      by simp
    with l Inr Some iv show ?thesis
      by (cases res) (simp_all add: infer_with_token_def Let_def)
  qed
qed

lemma runtime_step_spec:
  assumes "within_total rt"
  shows "\<exists>rt'. runtime_step g call rt = Some rt' \<and> within_total rt'
    \<and> rt_total_capacity_mb rt' = rt_total_capacity_mb rt"
proof (cases call)
  case (RegisterModel ver d)
  with assms show ?thesis by (simp add: register_model_def)
next
  case (Load i v now)
  with load_spec [OF assms, of i v now] show ?thesis by auto
next
  case (Infer m t inst c k p now)
  with infer_with_token_spec [OF assms, of g m t inst c k p False now] show ?thesis
    by (auto simp: infer_def)
next
  case (InferCancellable i m t inst c k p x now)
  have "within_total (rt\<lparr>rt_in_flight := hm_insert i False (rt_in_flight rt)\<rparr>)" using assms by simp
  from infer_with_token_spec [OF this, of g m t inst c k p x now] InferCancellable show ?thesis
    by (auto simp: infer_cancellable_def)
qed (use assms in \<open>auto simp: runtime_cancel_def set_power_mode_def pin_def unpin_def
    set_predicted_next_use_def intro!: within_total_entry\<close>)

text \<open>
  Claim C18: models never outgrow the device.  From a new runtime every sequence of
  registrations, loads, inferences, cancellations, pins and mode changes runs to its end,
  and after it the recorded use is exactly the sum of the footprints of the resident models
  and within the device's capacity.
\<close>

theorem runtime_capacity:
  "\<exists>rt. runtime_run g calls (runtime_new capacity) = Some rt
    \<and> rt_total_capacity_mb rt = capacity
    \<and> hm_sum unat (rm_footprints (rt_residency rt)) = unat (rm_used_mb (rt_residency rt))
    \<and> unat (rm_used_mb (rt_residency rt)) \<le> unat capacity
    \<and> {i. hm_get (rm_footprints (rt_residency rt)) i \<noteq> None} = {i. resident (rt_residency rt) i}"
proof -
  have run: "within_total rt \<Longrightarrow> \<exists>rt'. runtime_run g calls rt = Some rt' \<and> within_total rt'
      \<and> rt_total_capacity_mb rt' = rt_total_capacity_mb rt" for rt :: "'a local_ai_runtime" and calls
  proof (induction calls arbitrary: rt)
    case Nil
    then show ?case by simp
  next
    case (Cons call calls)
    from runtime_step_spec [OF Cons.prems, of g call] obtain rt1 where
      "runtime_step g call rt = Some rt1" "within_total rt1"
      "rt_total_capacity_mb rt1 = rt_total_capacity_mb rt" by blast
    with Cons.IH [of rt1] show ?case by auto
  qed
  have "within_total (runtime_new capacity :: 'a local_ai_runtime)"
    by (simp add: within_total_def runtime_new_def residency_inv_new) (simp add: residency_new_def)
  from run [OF this, of calls] obtain rt where "runtime_run g calls (runtime_new capacity) = Some rt"
    "within_total rt" "rt_total_capacity_mb rt = capacity" by (auto simp: runtime_new_def)
  then show ?thesis unfolding within_total_def residency_inv_def by auto
qed

section \<open>What a model's signature covers\<close>

lemma concat_blocks_inj:
  assumes "\<And>x. length (f x) = n" "0 < n" "concat (map f xs) = concat (map f ys)"
  shows "map f xs = map f ys"
  using assms(3)
proof (induction xs arbitrary: ys)
  case Nil
  show ?case
  proof (cases ys)
    case (Cons y ys')
    with Nil have "f y = []" by simp
    with assms(1) [of y] assms(2) show ?thesis by simp
  qed simp
next
  case (Cons x xs)
  show ?case
  proof (cases ys)
    case Nil
    with Cons.prems have "f x = []" by simp
    with assms(1) [of x] assms(2) show ?thesis by simp
  next
    case (Cons y ys')
    with Cons.prems have "f x @ concat (map f xs) = f y @ concat (map f ys')" by simp
    then have "f x = f y \<and> concat (map f xs) = concat (map f ys')"
      using assms(1) by (simp add: append_eq_append_conv)
    with Cons.IH [of ys'] Cons show ?thesis by simp
  qed
qed

lemma rank_inj:
  "(of_nat (class_rank c) :: u64) = of_nat (class_rank c') \<longleftrightarrow> c = c'"
  "(of_nat (precision_rank p) :: u64) = of_nat (precision_rank p') \<longleftrightarrow> p = p'"
  by (cases c; cases c'; simp) (cases p; cases p'; simp)

lemma footprint_inj: "(ucast (a :: u32) :: u64) = ucast b \<longleftrightarrow> a = b"
proof
  assume eq: "(ucast a :: u64) = ucast b"
  show "a = b"
  proof (rule bit_word_eqI)
    fix n
    assume "n < LENGTH(32)"
    from eq have "bit (ucast a :: u64) n = bit (ucast b :: u64) n" by simp
    with \<open>n < LENGTH(32)\<close> show "bit a n = bit b n" by (simp add: bit_unsigned_iff)
  qed
qed simp

text \<open>
  The bytes a model's signature is over fix its identifier, its class and the
  footprint and precision of each variant, and nothing else: two descriptors have the same
  bytes exactly when they agree on those.  The declared throughput, by which variants are
  selected, is not among them, so a descriptor whose throughput was changed after signing
  still verifies.
\<close>

theorem model_signature_covers:
  "model_canonical_bytes d = model_canonical_bytes d' \<longleftrightarrow>
     md_model_id d = md_model_id d' \<and> md_class d = md_class d'
     \<and> map (\<lambda>v. (qv_footprint_mb v, qv_precision v)) (md_variants d)
       = map (\<lambda>v. (qv_footprint_mb v, qv_precision v)) (md_variants d')"
proof -
  let ?f = "\<lambda>(fp, p). to_le_bytes 8 (ucast (fp :: u32) :: u64)
    @ to_le_bytes 8 (of_nat (precision_rank p) :: u64)"
  let ?k = "\<lambda>v. (qv_footprint_mb v, qv_precision v)"
  have le: "to_le_bytes 8 (a :: u64) = to_le_bytes 8 b \<longleftrightarrow> a = b" for a b
    using to_le_bytes_inj [of 8 a b] by auto
  have inj: "?f x = ?f y \<longleftrightarrow> x = y" for x y
    by (cases x; cases y) (auto simp: append_eq_append_conv le rank_inj footprint_inj)
  have bytes: "model_canonical_bytes e = to_le_bytes 8 (md_model_id e)
      @ to_le_bytes 8 (of_nat (class_rank (md_class e)) :: u64) @ concat (map ?f (map ?k (md_variants e)))"
    for e :: "'x model_descriptor"
    by (simp add: model_canonical_bytes_def comp_def)
  have "concat (map ?f xs) = concat (map ?f ys) \<longleftrightarrow> xs = ys" for xs ys
  proof
    assume "concat (map ?f xs) = concat (map ?f ys)"
    then have "map ?f xs = map ?f ys" by (rule concat_blocks_inj [of ?f 16, rotated 2]) auto
    then show "xs = ys" by (rule map_injective) (auto simp: inj_def inj)
  qed simp
  then show ?thesis
    unfolding bytes by (auto simp: append_eq_append_conv le rank_inj simp del: map_map)
qed

section \<open>Degraded inference\<close>

definition small_model :: "unit model_descriptor" where
  "small_model = \<lparr>md_model_id = 1, md_class = Slm,
     md_variants = [\<lparr>qv_precision = Int4, qv_footprint_mb = 10, qv_expected_tokens_per_sec = 100\<rparr>],
     md_signature = Some ()\<rparr>"

definition large_model :: "unit model_descriptor" where
  "large_model = \<lparr>md_model_id = 2, md_class = Slm,
     md_variants = [\<lparr>qv_precision = Fp16, qv_footprint_mb = 90, qv_expected_tokens_per_sec = 100\<rparr>],
     md_signature = Some ()\<rparr>"

definition saver_runtime :: "unit local_ai_runtime" where
  "saver_runtime = (runtime_new 100)\<lparr>rt_registry := [(2, large_model), (1, small_model)],
     rt_power_mode := BatterySaver\<rparr>"

definition any_contract :: capability_contract where
  "any_contract = \<lparr>cc_latency_budget_ms = 100000, cc_always_on = False\<rparr>"

text \<open>
  Saving power can load one model under another's size.  The cheapest variant of
  the class is looked up over all models, but the model that was selected before is the one
  that is loaded and run: here the runtime runs the model whose only variant takes 90 MB and
  books 10 MB for it, at a precision that model does not have.
\<close>

theorem downgrade_mixes_models:
  "\<exists>rt. infer (\<lambda>_ _ _. ''out'') demo_monitor demo_root 0 Slm any_contract ''hi'' 0 saver_runtime =
       Some (Inr \<lparr>ir_text = ''out'', ir_tokens_generated = 0, ir_variant_used = Int4\<rparr>, rt)
     \<and> is_hot (rt_residency rt) 2 \<and> rm_used_mb (rt_residency rt) = 10
     \<and> map (\<lambda>v. (qv_precision v, qv_footprint_mb v)) (md_variants large_model) = [(Fp16, 90)]"
proof -
  have sel: "select_variant saver_runtime Slm any_contract = Some (2, hd (md_variants large_model))"
    by (simp add: select_variant_def saver_runtime_def runtime_new_def by_class_def hm_values_def
        large_model_def small_model_def meets_latency_budget_def any_contract_def tokens_to_ms_def)
  have down: "downgrade saver_runtime Slm (hd (md_variants large_model)) = hd (md_variants small_model)"
    by (simp add: downgrade_def saver_runtime_def by_class_def hm_values_def large_model_def small_model_def)
  have room: "make_room 10 100 0 residency_new = Some (True, residency_new)"
    by (subst make_room_unfold) (simp add: capacity_available_def residency_new_def saturating_sub_def)
  have "load 2 (hd (md_variants small_model)) 0 saver_runtime =
      Some (Inr (), saver_runtime\<lparr>rt_residency := mark_hot 2 10 0 residency_new\<rparr>)"
    using room by (simp add: load_def saver_runtime_def runtime_new_def is_hot_def small_model_def)
      (simp add: residency_new_def)
  with sel down show ?thesis
    by (simp add: infer_def infer_with_token_def saver_runtime_def small_model_def large_model_def
        is_hot_def touch_def modify_entry_get mark_hot_def residency_new_def Let_def)
qed

theorem make_room_correct_witness:
  "\<exists>r'. make_room 8 10 3 (mark_hot 1 5 0 residency_new) = Some (True, r') \<and> \<not> resident r' 1"
proof -
  have inv: "residency_inv (mark_hot 1 5 0 residency_new)"
    by (intro mark_hot_inv residency_inv_new) (simp add: residency_new_def)
  from make_room_correct [OF this, of 8 10 3] obtain ok r' where
    r': "make_room 8 10 3 (mark_hot 1 5 0 residency_new) = Some (ok, r')" "residency_inv r'"
    "ok \<longrightarrow> \<not> capacity_available r' 10 < 8"
    "\<not> ok \<longrightarrow> capacity_available r' 10 < 8 \<and>
       (\<forall>i e. hm_get (rm_entries r') i = Some e \<and> re_pin_count e = 0 \<longrightarrow> re_status e = Cold)"
    by blast
  have "make_room 8 10 3 (mark_hot 1 5 0 residency_new) =
      make_room 8 10 3 (evict 1 (mark_hot 1 5 0 residency_new))"
    by (subst make_room_unfold) (simp add: capacity_available_def mark_hot_def residency_new_def
        saturating_sub_def victim_def hm_values_def)
  also have "\<dots> = Some (True, evict 1 (mark_hot 1 5 0 residency_new))"
    by (subst make_room_unfold) (simp add: capacity_available_def mark_hot_def residency_new_def
        saturating_sub_def evict_def modify_entry_def hm_modify_def)
  finally have "make_room 8 10 3 (mark_hot 1 5 0 residency_new) =
      Some (True, evict 1 (mark_hot 1 5 0 residency_new))" .
  moreover from this r'(1) have "r' = evict 1 (mark_hot 1 5 0 residency_new)" by simp
  moreover have "\<not> resident (evict 1 (mark_hot 1 5 0 residency_new)) 1"
    by (simp add: resident_def evict_def mark_hot_def residency_new_def modify_entry_def hm_modify_def)
  ultimately show ?thesis by blast
qed

end
