(* ===== verification/Model_Router.thy ===== *)
theory Model_Router
  imports AI_Runtime
begin

text \<open>
  The model router, \<open>crates/hyperion-model-router/src/\<close>: the registry of implementations and
  the circuit breaker (\<open>registry.rs\<close>), and the routing of an invocation through the canary
  sampling, the privacy and feasibility gates and the weighted score (\<open>router.rs\<close>).

  Floating-point numbers are rationals.  The standard library's hash function, whose
  algorithm is unspecified, is the parameter \<open>hasher\<close>.
\<close>

section \<open>Implementations\<close>

type_synonym impl_id = u64

datatype ImplKind = LocalSmallModel | LocalLargeModel | CloudApi | NativeBinary | Composed

datatype ConsequenceTier = Routine | Sensitive | HighStakes

datatype UrgencyClass = Interactive | Background | Batch

datatype PrivacyTier = Local | ConsentedCloud

datatype CostModel = Free | PerCall rat | PerToken rat

datatype RolloutStage = Shadow | Canary rat | Ga

record resource_cost =
  rc_cpu_shares :: u32
  rc_ram_mb :: u32
  rc_gpu_shares :: u32
  rc_vram_mb :: u32
  rc_storage_iops :: u32
  rc_network_bw_kbps :: u32
  rc_inference_tokens_per_sec :: u32
  rc_context_window_slots :: u32
  rc_battery_budget_mw :: u32

record implementation_descriptor =
  id_impl_id :: impl_id
  id_capability_id :: string
  id_kind :: ImplKind
  id_model_class :: "ModelClass option"
  id_privacy_tier :: PrivacyTier
  id_cost_model :: CostModel
  id_quality_profile :: "(string, rat) hashmap"
  id_declared_latency_ms :: u64
  id_rollout_stage :: RolloutStage
  id_resource_cost :: "resource_cost option"

record capability_invocation =
  ci_capability_id :: string
  ci_urgency_class :: UrgencyClass
  ci_consequence_tier :: ConsequenceTier
  ci_quality_floor :: "rat option"
  ci_latency_budget_ms :: u64
  ci_cloud_consent :: bool

record routing_score =
  rs_impl_id :: impl_id
  rs_latency_fit :: rat
  rs_privacy_fit :: rat
  rs_cost_fit :: rat
  rs_quality_fit :: rat
  rs_availability_fit :: rat
  rs_composite :: rat

datatype ExclusionReason = PrivacyGate | ResourceInfeasible | CanaryNotSampled

record rationale =
  ra_candidates_considered :: "(impl_id \<times> routing_score) list"
  ra_candidates_excluded :: "(impl_id \<times> ExclusionReason) list"
  ra_chosen_reason :: string
  ra_needs_verification :: bool

record routing_decision =
  rd_invocation_id :: u64
  rd_chosen :: "impl_id option"
  rd_fallback_chain :: "impl_id list"
  rd_rationale :: rationale

section \<open>The circuit breaker and the registry\<close>

definition CIRCUIT_BREAKER_THRESHOLD :: u32 where "CIRCUIT_BREAKER_THRESHOLD = 3"

type_synonym circuit_breaker = "(impl_id, u32) hashmap"

definition record_success :: "impl_id \<Rightarrow> circuit_breaker \<Rightarrow> circuit_breaker" where
  "record_success i b = hm_remove i b"

definition record_failure :: "impl_id \<Rightarrow> circuit_breaker \<Rightarrow> circuit_breaker" where
  "record_failure i b = hm_insert i ((case hm_get b i of None \<Rightarrow> 0 | Some n \<Rightarrow> n) + 1) b"

definition breaker_is_open :: "circuit_breaker \<Rightarrow> impl_id \<Rightarrow> bool" where
  "breaker_is_open b i \<longleftrightarrow>
     CIRCUIT_BREAKER_THRESHOLD \<le> (case hm_get b i of None \<Rightarrow> 0 | Some n \<Rightarrow> n)"

type_synonym implementation_registry = "(impl_id, implementation_descriptor) hashmap"

definition registry_register ::
    "implementation_descriptor \<Rightarrow> implementation_registry \<Rightarrow> implementation_registry" where
  "registry_register d reg = hm_insert (id_impl_id d) (d\<lparr>id_rollout_stage := Shadow\<rparr>) reg"

definition registry_set_rollout_stage ::
    "impl_id \<Rightarrow> RolloutStage \<Rightarrow> implementation_registry \<Rightarrow> implementation_registry" where
  "registry_set_rollout_stage i stage reg = hm_modify i (\<lambda>d. d\<lparr>id_rollout_stage := stage\<rparr>) reg"

definition by_capability ::
    "string \<Rightarrow> implementation_registry \<Rightarrow> implementation_descriptor list" where
  "by_capability cap reg = filter (\<lambda>d. id_capability_id d = cap) (hm_values reg)"

section \<open>The router\<close>

record weight_vector =
  wv_lat :: rat
  wv_priv :: rat
  wv_cost :: rat
  wv_qual :: rat
  wv_avail :: rat

fun base_weights :: "UrgencyClass \<Rightarrow> weight_vector" where
  "base_weights Interactive =
     \<lparr>wv_lat = 40/100, wv_priv = 15/100, wv_cost = 10/100, wv_qual = 25/100, wv_avail = 10/100\<rparr>"
| "base_weights Background =
     \<lparr>wv_lat = 15/100, wv_priv = 20/100, wv_cost = 20/100, wv_qual = 30/100, wv_avail = 15/100\<rparr>"
| "base_weights Batch =
     \<lparr>wv_lat = 5/100, wv_priv = 15/100, wv_cost = 30/100, wv_qual = 35/100, wv_avail = 15/100\<rparr>"

definition for_invocation :: "UrgencyClass \<Rightarrow> ConsequenceTier \<Rightarrow> weight_vector" where
  "for_invocation urgency consequence =
     (let w = base_weights urgency
      in if consequence = HighStakes \<and> wv_qual w < 1/2
         then let deficit = 1/2 - wv_qual w;
                  others = wv_lat w + wv_priv w + wv_cost w + wv_avail w;
                  shrink = (if 0 < others then 1 - deficit / others else 1)
              in \<lparr>wv_lat = wv_lat w * shrink, wv_priv = wv_priv w * shrink,
                  wv_cost = wv_cost w * shrink, wv_qual = 1/2, wv_avail = wv_avail w * shrink\<rparr>
         else w)"

record 'sig model_router =
  mr_registry :: implementation_registry
  mr_breaker :: circuit_breaker
  mr_ai_runtime :: "'sig local_ai_runtime"
  mr_next_invocation_id :: u64

datatype ModelRouterError = MrUnauthorized

definition model_router_new :: "'sig local_ai_runtime \<Rightarrow> 'sig model_router" where
  "model_router_new rt =
     \<lparr>mr_registry = [], mr_breaker = [], mr_ai_runtime = rt, mr_next_invocation_id = 1\<rparr>"

definition mr_require ::
    "capability_monitor \<Rightarrow> capability_token \<Rightarrow> u32 \<Rightarrow> instant \<Rightarrow> (ModelRouterError, unit) result" where
  "mr_require monitor token rights now =
     map_err (\<lambda>_. MrUnauthorized) (check_rights_ok_result monitor token rights now)"

definition register_implementation ::
    "capability_monitor \<Rightarrow> capability_token \<Rightarrow> instant \<Rightarrow> implementation_descriptor \<Rightarrow> 'sig model_router
     \<Rightarrow> (ModelRouterError, unit) result \<times> 'sig model_router" where
  "register_implementation monitor token now d mr =
     (case mr_require monitor token WRITE now of
        Inl e \<Rightarrow> (Inl e, mr)
      | Inr _ \<Rightarrow> (Inr (), mr\<lparr>mr_registry := registry_register d (mr_registry mr)\<rparr>))"

definition set_rollout_stage ::
    "capability_monitor \<Rightarrow> capability_token \<Rightarrow> instant \<Rightarrow> impl_id \<Rightarrow> RolloutStage \<Rightarrow> 'sig model_router
     \<Rightarrow> (ModelRouterError, unit) result \<times> 'sig model_router" where
  "set_rollout_stage monitor token now i stage mr =
     (case mr_require monitor token WRITE now of
        Inl e \<Rightarrow> (Inl e, mr)
      | Inr _ \<Rightarrow> (Inr (), mr\<lparr>mr_registry := registry_set_rollout_stage i stage (mr_registry mr)\<rparr>))"

definition mr_descriptor :: "'sig model_router \<Rightarrow> impl_id \<Rightarrow> implementation_descriptor option" where
  "mr_descriptor mr i = hm_get (mr_registry mr) i"

definition report_outcome :: "impl_id \<Rightarrow> bool \<Rightarrow> 'sig model_router \<Rightarrow> 'sig model_router" where
  "report_outcome i success mr =
     mr\<lparr>mr_breaker := (if success then record_success i (mr_breaker mr)
                      else record_failure i (mr_breaker mr))\<rparr>"

definition declared_costs :: "'sig model_router \<Rightarrow> string \<Rightarrow> (impl_id \<times> resource_cost) list" where
  "declared_costs mr cap =
     List.map_filter (\<lambda>d. map_option (\<lambda>cost. (id_impl_id d, cost)) (id_resource_cost d))
       (filter (\<lambda>d. \<not> breaker_is_open (mr_breaker mr) (id_impl_id d))
         (filter (\<lambda>d. id_rollout_stage d \<noteq> Shadow) (by_capability cap (mr_registry mr))))"

definition unlimited_contract :: capability_contract where
  "unlimited_contract = \<lparr>cc_latency_budget_ms = - 1, cc_always_on = False\<rparr>"

text \<open>The model class of a local implementation, whose latency is estimated rather than declared.\<close>

definition local_class :: "implementation_descriptor \<Rightarrow> ModelClass option" where
  "local_class d =
     (if id_kind d = LocalSmallModel \<or> id_kind d = LocalLargeModel then id_model_class d else None)"

definition clamp01 :: "rat \<Rightarrow> rat" where
  "clamp01 x = min 1 (max 0 x)"

text \<open>No estimate is the infinite latency of the source, the value None here.\<close>

definition estimated_ms :: "'sig model_router \<Rightarrow> implementation_descriptor \<Rightarrow> rat option" where
  "estimated_ms mr d =
     (case local_class d of
        Some c \<Rightarrow>
          (case map (\<lambda>e. tokens_to_ms (est_tokens_per_sec e)) (estimate (mr_ai_runtime mr) c unlimited_contract) of
             [] \<Rightarrow> None
           | x # xs \<Rightarrow> Some (fold min xs x))
      | None \<Rightarrow> Some (of_nat (unat (id_declared_latency_ms d))))"

definition latency_fit :: "'sig model_router \<Rightarrow> implementation_descriptor \<Rightarrow> u64 \<Rightarrow> rat" where
  "latency_fit mr d budget_ms =
     (case estimated_ms mr d of
        None \<Rightarrow> 0
      | Some ms \<Rightarrow>
          if ms \<le> of_nat (unat budget_ms) then 1
          else clamp01 (of_nat (unat budget_ms) / ms))"

fun cost_fit :: "CostModel \<Rightarrow> rat" where
  "cost_fit Free = 1"
| "cost_fit (PerCall c) = 1 / (1 + c)"
| "cost_fit (PerToken c) = 1 / (1 + c * 100)"

definition canary_sampled_in :: "(u64 \<Rightarrow> u64 \<Rightarrow> u64) \<Rightarrow> u64 \<Rightarrow> impl_id \<Rightarrow> rat \<Rightarrow> bool" where
  "canary_sampled_in hasher invocation_id i pct \<longleftrightarrow>
     (if pct \<le> 0 then False
      else if 1 \<le> pct then True
      else of_nat (unat (hasher invocation_id i)) / of_nat (unat (- 1 :: u64)) < pct)"

definition is_locally_feasible :: "'sig model_router \<Rightarrow> implementation_descriptor \<Rightarrow> bool" where
  "is_locally_feasible mr d =
     (case local_class d of
        Some c \<Rightarrow> estimate (mr_ai_runtime mr) c unlimited_contract \<noteq> []
      | None \<Rightarrow> True)"

fun privacy_fit :: "PrivacyTier \<Rightarrow> rat" where
  "privacy_fit Local = 1"
| "privacy_fit ConsentedCloud = 6/10"

fun stage_fit :: "RolloutStage \<Rightarrow> rat" where
  "stage_fit Ga = 1"
| "stage_fit (Canary _) = 8/10"
| "stage_fit Shadow = 0"

definition availability_fit :: "'sig model_router \<Rightarrow> implementation_descriptor \<Rightarrow> rat" where
  "availability_fit mr d =
     stage_fit (id_rollout_stage d)
     * (if breaker_is_open (mr_breaker mr) (id_impl_id d) then 1/1000 else 1)"

definition score :: "'sig model_router \<Rightarrow> capability_invocation \<Rightarrow> implementation_descriptor \<Rightarrow> routing_score" where
  "score mr iv d =
     (let w = for_invocation (ci_urgency_class iv) (ci_consequence_tier iv);
          lat = latency_fit mr d (ci_latency_budget_ms iv);
          priv = privacy_fit (id_privacy_tier d);
          cost = cost_fit (id_cost_model d);
          qual = (case hm_get (id_quality_profile d) (ci_capability_id iv) of Some q \<Rightarrow> q | None \<Rightarrow> 1/2);
          avail = availability_fit mr d
      in \<lparr>rs_impl_id = id_impl_id d, rs_latency_fit = lat, rs_privacy_fit = priv, rs_cost_fit = cost,
          rs_quality_fit = qual, rs_availability_fit = avail,
          rs_composite = wv_lat w * lat + wv_priv w * priv + wv_cost w * cost
                         + wv_qual w * qual + wv_avail w * avail\<rparr>)"

text \<open>What the loop does with one descriptor: nothing, an exclusion, or a score.\<close>

datatype verdict = Skipped | Excluded ExclusionReason | Considered routing_score

definition gate ::
    "(u64 \<Rightarrow> u64 \<Rightarrow> u64) \<Rightarrow> u64 \<Rightarrow> 'sig model_router \<Rightarrow> capability_invocation
     \<Rightarrow> implementation_descriptor \<Rightarrow> verdict" where
  "gate hasher invocation_id mr iv d =
     (if id_rollout_stage d = Shadow then Skipped
      else if (case id_rollout_stage d of
                 Canary pct \<Rightarrow> \<not> canary_sampled_in hasher invocation_id (id_impl_id d) pct
               | _ \<Rightarrow> False)
      then Excluded CanaryNotSampled
      else if id_privacy_tier d = ConsentedCloud \<and> \<not> ci_cloud_consent iv then Excluded PrivacyGate
      else if \<not> is_locally_feasible mr d then Excluded ResourceInfeasible
      else Considered (score mr iv d))"

fun gather ::
    "(implementation_descriptor \<Rightarrow> verdict) \<Rightarrow> implementation_descriptor list
     \<Rightarrow> (impl_id \<times> routing_score) list \<times> (impl_id \<times> ExclusionReason) list" where
  "gather g [] = ([], [])"
| "gather g (d # ds) =
     (let (considered, excluded) = gather g ds
      in case g d of
           Skipped \<Rightarrow> (considered, excluded)
         | Excluded r \<Rightarrow> (considered, (id_impl_id d, r) # excluded)
         | Considered s \<Rightarrow> ((id_impl_id d, s) # considered, excluded))"

definition chosen_reason :: "impl_id option \<Rightarrow> nat \<Rightarrow> string" where
  "chosen_reason chosen n =
     (case chosen of
        Some i \<Rightarrow> ''ImplId('' @ show_nat (unat i) @ '') scored highest composite among ''
                  @ show_nat n @ '' feasible candidate(s)''
      | None \<Rightarrow> ''no candidate survived the privacy/feasibility gates'')"

definition route ::
    "(u64 \<Rightarrow> u64 \<Rightarrow> u64) \<Rightarrow> capability_invocation \<Rightarrow> 'sig model_router
     \<Rightarrow> routing_decision \<times> 'sig model_router" where
  "route hasher iv mr =
     (let invocation_id = mr_next_invocation_id mr;
          mr' = mr\<lparr>mr_next_invocation_id := invocation_id + 1\<rparr>;
          (considered, excluded) =
            gather (gate hasher invocation_id mr iv) (by_capability (ci_capability_id iv) (mr_registry mr));
          considered = sort_key (\<lambda>(_, s). - rs_composite s) considered;
          needs_verification =
            (ci_consequence_tier iv = HighStakes
             \<or> (case considered of
                  [] \<Rightarrow> False
                | (_, s) # _ \<Rightarrow>
                    (case ci_quality_floor iv of None \<Rightarrow> False | Some q \<Rightarrow> rs_quality_fit s < q)));
          chain = map fst considered;
          chosen = (case chain of [] \<Rightarrow> None | i # _ \<Rightarrow> Some i)
      in (\<lparr>rd_invocation_id = invocation_id,
           rd_chosen = chosen,
           rd_fallback_chain = chain,
           rd_rationale =
             \<lparr>ra_candidates_considered = considered, ra_candidates_excluded = excluded,
              ra_chosen_reason = chosen_reason chosen (length considered),
              ra_needs_verification = needs_verification\<rparr>\<rparr>,
          mr'))"

section \<open>The registry\<close>

text \<open>Descriptors are stored under their own identifiers.\<close>

definition registry_wf :: "implementation_registry \<Rightarrow> bool" where
  "registry_wf reg \<longleftrightarrow> hm_wf reg \<and> (\<forall>i d. hm_get reg i = Some d \<longrightarrow> id_impl_id d = i)"

lemma registry_wf_empty [simp]: "registry_wf []"
  by (simp add: registry_wf_def)

lemma registry_wf_register [simp]: "registry_wf reg \<Longrightarrow> registry_wf (registry_register d reg)"
  by (auto simp: registry_wf_def registry_register_def)

lemma registry_wf_set_rollout_stage [simp]:
  "registry_wf reg \<Longrightarrow> registry_wf (registry_set_rollout_stage i stage reg)"
  by (auto simp: registry_wf_def registry_set_rollout_stage_def)

lemma mem_by_capability:
  assumes "registry_wf reg"
  shows "d \<in> set (by_capability cap reg) \<longleftrightarrow>
    hm_get reg (id_impl_id d) = Some d \<and> id_capability_id d = cap"
  using assms by (auto simp: by_capability_def set_hm_values registry_wf_def)

lemma distinct_by_capability:
  assumes "registry_wf reg"
  shows "distinct (map id_impl_id (by_capability cap reg))"
proof -
  have "id_impl_id (snd e) = fst e" if "e \<in> set reg" for e
    using assms that hm_mem_get [of reg "fst e" "snd e"] by (simp add: registry_wf_def)
  then have "map id_impl_id (hm_values reg) = map fst reg"
    by (simp add: hm_values_def)
  with assms have "distinct (map id_impl_id (hm_values reg))"
    by (simp add: registry_wf_def)
  then show ?thesis
    by (simp add: by_capability_def distinct_map_filter)
qed

section \<open>The weights and the score\<close>

lemma for_invocation_sum:
  "wv_lat (for_invocation u c) + wv_priv (for_invocation u c) + wv_cost (for_invocation u c)
   + wv_qual (for_invocation u c) + wv_avail (for_invocation u c) = 1"
  by (cases u; cases c; simp add: for_invocation_def Let_def)

lemma for_invocation_nonneg:
  "0 \<le> wv_lat (for_invocation u c)" "0 \<le> wv_priv (for_invocation u c)"
  "0 \<le> wv_cost (for_invocation u c)" "0 \<le> wv_qual (for_invocation u c)"
  "0 \<le> wv_avail (for_invocation u c)"
  by (cases u; cases c; simp add: for_invocation_def Let_def)+

lemma weighted_average_bounds:
  fixes a b c d e u v w x y :: rat
  assumes "a + b + c + d + e = 1" "0 \<le> a" "0 \<le> b" "0 \<le> c" "0 \<le> d" "0 \<le> e"
    and "u \<in> {0..1}" "v \<in> {0..1}" "w \<in> {0..1}" "x \<in> {0..1}" "y \<in> {0..1}"
  shows "a * u + b * v + c * w + d * x + e * y \<in> {0..1}"
proof -
  have "a * u \<le> a" "b * v \<le> b" "c * w \<le> c" "d * x \<le> d" "e * y \<le> e"
    using assms by (simp_all add: mult_left_le)
  with assms show ?thesis by simp
qed

lemma latency_fit_bounds: "latency_fit mr d budget \<in> {0..1}"
  by (auto simp: latency_fit_def clamp01_def split: option.splits)

lemma cost_fit_bounds:
  "(case c of Free \<Rightarrow> True | PerCall x \<Rightarrow> 0 \<le> x | PerToken x \<Rightarrow> 0 \<le> x) \<Longrightarrow> cost_fit c \<in> {0..1}"
  by (cases c) (auto simp: divide_simps)

lemma availability_fit_bounds: "availability_fit mr d \<in> {0..1}"
  by (cases "id_rollout_stage d") (auto simp: availability_fit_def)

section \<open>The gates\<close>

lemma gather_considered:
  "set (fst (gather g ds)) = {(id_impl_id d, s) | d s. d \<in> set ds \<and> g d = Considered s}"
  by (induction ds) (auto split: prod.splits verdict.splits)

lemma gather_excluded:
  "set (snd (gather g ds)) = {(id_impl_id d, r) | d r. d \<in> set ds \<and> g d = Excluded r}"
  by (induction ds) (auto split: prod.splits verdict.splits)

lemma gather_considered_ids:
  "map fst (fst (gather g ds)) =
   map id_impl_id (filter (\<lambda>d. case g d of Considered _ \<Rightarrow> True | _ \<Rightarrow> False) ds)"
  by (induction ds) (auto split: prod.splits verdict.splits)

lemma distinct_gather_considered:
  "distinct (map id_impl_id ds) \<Longrightarrow> distinct (map fst (fst (gather g ds)))"
  by (simp add: gather_considered_ids distinct_map_filter)

text \<open>The candidates an invocation may run: promoted, sampled in, permitted and feasible.\<close>

definition eligible ::
    "(u64 \<Rightarrow> u64 \<Rightarrow> u64) \<Rightarrow> u64 \<Rightarrow> 'sig model_router \<Rightarrow> capability_invocation
     \<Rightarrow> implementation_descriptor \<Rightarrow> bool" where
  "eligible hasher n mr iv d \<longleftrightarrow>
     (case id_rollout_stage d of
        Shadow \<Rightarrow> False | Canary pct \<Rightarrow> canary_sampled_in hasher n (id_impl_id d) pct | Ga \<Rightarrow> True)
     \<and> (id_privacy_tier d = ConsentedCloud \<longrightarrow> ci_cloud_consent iv)
     \<and> is_locally_feasible mr d"

lemma gate_Considered:
  "gate hasher n mr iv d = Considered s \<longleftrightarrow> eligible hasher n mr iv d \<and> s = score mr iv d"
  by (cases "id_rollout_stage d") (auto simp: gate_def eligible_def)

lemma gate_Skipped: "gate hasher n mr iv d = Skipped \<longleftrightarrow> id_rollout_stage d = Shadow"
  by (auto simp: gate_def)

lemma gate_Excluded:
  "(\<exists>r. gate hasher n mr iv d = Excluded r) \<longleftrightarrow>
     id_rollout_stage d \<noteq> Shadow \<and> \<not> eligible hasher n mr iv d"
  by (cases "id_rollout_stage d") (auto simp: gate_def eligible_def)

lemma score_impl_id [simp]: "rs_impl_id (score mr iv d) = id_impl_id d"
  by (simp add: score_def Let_def)

section \<open>Routing decisions\<close>

lemma route_eqs:
  fixes hasher :: "u64 \<Rightarrow> u64 \<Rightarrow> u64" and iv :: capability_invocation and mr :: "'sig model_router"
  defines "g \<equiv> gather (gate hasher (mr_next_invocation_id mr) mr iv)
             (by_capability (ci_capability_id iv) (mr_registry mr))"
  shows route_considered:
      "ra_candidates_considered (rd_rationale (fst (route hasher iv mr))) =
        sort_key (\<lambda>(_, s). - rs_composite s) (fst g)"
    and route_excluded: "ra_candidates_excluded (rd_rationale (fst (route hasher iv mr))) = snd g"
    and route_chain: "rd_fallback_chain (fst (route hasher iv mr)) =
        map fst (sort_key (\<lambda>(_, s). - rs_composite s) (fst g))"
    and route_chosen: "rd_chosen (fst (route hasher iv mr)) =
        (case map fst (sort_key (\<lambda>(_, s). - rs_composite s) (fst g)) of [] \<Rightarrow> None | i # _ \<Rightarrow> Some i)"
    and route_state: "snd (route hasher iv mr) =
        mr\<lparr>mr_next_invocation_id := mr_next_invocation_id mr + 1\<rparr>"
  by (simp_all add: route_def g_def Let_def split: prod.split)

lemma route_considered_set:
  assumes "registry_wf (mr_registry mr)"
  shows "set (ra_candidates_considered (rd_rationale (fst (route hasher iv mr)))) =
      {(id_impl_id d, score mr iv d) | d. hm_get (mr_registry mr) (id_impl_id d) = Some d
          \<and> id_capability_id d = ci_capability_id iv
          \<and> eligible hasher (mr_next_invocation_id mr) mr iv d}"
  by (auto simp: route_considered gather_considered gate_Considered mem_by_capability [OF assms])

lemma route_excluded_set:
  assumes "registry_wf (mr_registry mr)"
  shows "fst ` set (ra_candidates_excluded (rd_rationale (fst (route hasher iv mr)))) =
      {i. \<exists>d. hm_get (mr_registry mr) i = Some d \<and> id_capability_id d = ci_capability_id iv
            \<and> id_rollout_stage d \<noteq> Shadow \<and> \<not> eligible hasher (mr_next_invocation_id mr) mr iv d}"
    (is "?L = ?R")
proof -
  have "?L = {id_impl_id d | d. d \<in> set (by_capability (ci_capability_id iv) (mr_registry mr))
               \<and> (\<exists>r. gate hasher (mr_next_invocation_id mr) mr iv d = Excluded r)}"
    unfolding route_excluded gather_excluded by force
  also have "\<dots> = ?R"
    using assms unfolding gate_Excluded mem_by_capability [OF assms] registry_wf_def by blast
  finally show ?thesis .
qed

lemma route_sorted:
  "sorted_wrt (\<lambda>(_, s) (_, s'). rs_composite s' \<le> rs_composite s)
     (ra_candidates_considered (rd_rationale (fst (route hasher iv mr))))"
proof -
  have "sorted_wrt (\<lambda>x y. (case x of (_, s) \<Rightarrow> - rs_composite s) \<le> (case y of (_, s) \<Rightarrow> - rs_composite s))
      (sort_key (\<lambda>(_, s). - rs_composite s) xs)" for xs :: "(impl_id \<times> routing_score) list"
    using sorted_sort_key [of "\<lambda>(_, s). - rs_composite s" xs] by (simp add: sorted_wrt_map)
  then show ?thesis
    unfolding route_considered by (rule sorted_wrt_mono_rel [rotated]) auto
qed

lemma route_chain_distinct:
  "registry_wf (mr_registry mr) \<Longrightarrow> distinct (rd_fallback_chain (fst (route hasher iv mr)))"
  using distinct_gather_considered [OF distinct_by_capability]
  by (simp add: route_chain distinct_map)

lemma route_chain_considered:
  "rd_fallback_chain (fst (route hasher iv mr)) =
     map fst (ra_candidates_considered (rd_rationale (fst (route hasher iv mr))))"
  by (simp add: route_considered route_chain)

lemma route_chosen_hd:
  "rd_chosen (fst (route hasher iv mr)) =
     (if rd_fallback_chain (fst (route hasher iv mr)) = [] then None
      else Some (hd (rd_fallback_chain (fst (route hasher iv mr)))))"
  by (auto simp: route_chosen route_chain split: list.splits)

lemma chosen_in_chain:
  "rd_chosen (fst (route hasher iv mr)) = Some i \<Longrightarrow> i \<in> set (rd_fallback_chain (fst (route hasher iv mr)))"
  by (metis route_chosen_hd hd_in_set option.distinct(1) option.inject)

lemma mem_fallback_chain:
  assumes "registry_wf (mr_registry mr)"
  shows "i \<in> set (rd_fallback_chain (fst (route hasher iv mr))) \<longleftrightarrow>
    (\<exists>d. hm_get (mr_registry mr) i = Some d \<and> id_capability_id d = ci_capability_id iv
         \<and> eligible hasher (mr_next_invocation_id mr) mr iv d)" (is "?L \<longleftrightarrow> ?R")
proof -
  have "?L \<longleftrightarrow> (\<exists>d. i = id_impl_id d \<and> hm_get (mr_registry mr) (id_impl_id d) = Some d
      \<and> id_capability_id d = ci_capability_id iv \<and> eligible hasher (mr_next_invocation_id mr) mr iv d)"
    unfolding route_chain_considered set_map route_considered_set [OF assms] by force
  also have "\<dots> \<longleftrightarrow> ?R"
    using assms unfolding registry_wf_def by blast
  finally show ?thesis .
qed

text \<open>
  Claim C19: routing offers exactly the implementations of the capability that are promoted,
  sampled in, permitted by the caller's consent and feasible on this machine, each once and
  with its score, ordered by falling score.  The first of them is chosen, none only when there
  is none; every other promoted implementation of the capability is listed as excluded; and
  the router's own state changes in its counter alone.
\<close>

theorem route_correct:
  assumes "registry_wf (mr_registry mr)" "route hasher iv mr = (dec, mr')"
  shows "set (ra_candidates_considered (rd_rationale dec)) =
      {(id_impl_id d, score mr iv d) | d. hm_get (mr_registry mr) (id_impl_id d) = Some d
          \<and> id_capability_id d = ci_capability_id iv
          \<and> eligible hasher (mr_next_invocation_id mr) mr iv d}
    \<and> rd_fallback_chain dec = map fst (ra_candidates_considered (rd_rationale dec))
    \<and> distinct (rd_fallback_chain dec)
    \<and> sorted_wrt (\<lambda>(_, s) (_, s'). rs_composite s' \<le> rs_composite s)
           (ra_candidates_considered (rd_rationale dec))
    \<and> rd_chosen dec = (if rd_fallback_chain dec = [] then None else Some (hd (rd_fallback_chain dec)))
    \<and> fst ` set (ra_candidates_excluded (rd_rationale dec)) =
      {i. \<exists>d. hm_get (mr_registry mr) i = Some d \<and> id_capability_id d = ci_capability_id iv
            \<and> id_rollout_stage d \<noteq> Shadow \<and> \<not> eligible hasher (mr_next_invocation_id mr) mr iv d}
    \<and> mr' = mr\<lparr>mr_next_invocation_id := mr_next_invocation_id mr + 1\<rparr>"
proof -
  have dec: "dec = fst (route hasher iv mr)" and mr': "mr' = snd (route hasher iv mr)"
    using assms(2) by simp_all
  show ?thesis
    unfolding dec mr'
    by (intro conjI route_considered_set route_chain_considered route_chain_distinct route_sorted
        route_chosen_hd route_excluded_set route_state assms(1))
qed

section \<open>Sessions with the router\<close>

datatype router_call =
    Register_call capability_token implementation_descriptor
  | Stage_call capability_token impl_id RolloutStage
  | Outcome_call impl_id bool
  | Route_call capability_invocation

fun router_step ::
    "(u64 \<Rightarrow> u64 \<Rightarrow> u64) \<Rightarrow> capability_monitor \<Rightarrow> instant \<Rightarrow> router_call \<Rightarrow> 'sig model_router
     \<Rightarrow> 'sig model_router" where
  "router_step hasher m now (Register_call t d) mr = snd (register_implementation m t now d mr)"
| "router_step hasher m now (Stage_call t i st) mr = snd (set_rollout_stage m t now i st mr)"
| "router_step hasher m now (Outcome_call i ok) mr = report_outcome i ok mr"
| "router_step hasher m now (Route_call iv) mr = snd (route hasher iv mr)"

text \<open>An implementation is held back while it is stored as Shadow, or not at all.\<close>

definition held_back :: "impl_id \<Rightarrow> 'sig model_router \<Rightarrow> bool" where
  "held_back i mr \<longleftrightarrow> (\<forall>d. hm_get (mr_registry mr) i = Some d \<longrightarrow> id_rollout_stage d = Shadow)"

lemma register_implementation_ok:
  assumes "register_implementation m t now d mr = (Inr (), mr')"
  shows "mr' = mr\<lparr>mr_registry := registry_register d (mr_registry mr)\<rparr>"
  using assms by (auto simp: register_implementation_def split: sum.splits)

lemma held_back_registered: "held_back (id_impl_id d) (mr\<lparr>mr_registry := registry_register d reg\<rparr>)"
  by (auto simp: held_back_def registry_register_def)

lemma router_step_wf:
  "registry_wf (mr_registry mr) \<Longrightarrow> registry_wf (mr_registry (router_step hasher m now c mr))"
  by (cases c) (auto simp: register_implementation_def set_rollout_stage_def report_outcome_def
      route_state split: sum.splits)

lemma router_step_held_back:
  assumes "held_back i mr" "\<forall>t st. c \<noteq> Stage_call t i st"
  shows "held_back i (router_step hasher m now c mr)"
  using assms
  by (cases c) (auto simp: held_back_def register_implementation_def set_rollout_stage_def
      registry_register_def registry_set_rollout_stage_def report_outcome_def route_state
      split: sum.splits if_splits)

lemma router_run_held_back:
  assumes "registry_wf (mr_registry mr)" "held_back i mr" "\<forall>t st. Stage_call t i st \<notin> set calls"
  shows "registry_wf (mr_registry (fold (router_step hasher m now) calls mr))
    \<and> held_back i (fold (router_step hasher m now) calls mr)"
  using assms
proof (induction calls arbitrary: mr)
  case Nil
  then show ?case by simp
next
  case (Cons c calls)
  then have "held_back i (router_step hasher m now c mr)"
    by (intro router_step_held_back) auto
  with Cons show ?case by (simp add: router_step_wf)
qed

lemma held_back_not_offered:
  assumes "registry_wf (mr_registry mr)" "held_back i mr"
  shows "i \<notin> set (rd_fallback_chain (fst (route hasher iv mr)))"
  using assms(2) by (auto simp: mem_fallback_chain [OF assms(1)] held_back_def eligible_def)

text \<open>
  Claim C20: whatever rollout stage its descriptor claims, an implementation that has just been
  registered, for the first time or again, is neither chosen nor offered as a fallback by any
  later routing, whatever calls come between, until its stage is set.
\<close>

theorem registered_held_back:
  assumes "registry_wf (mr_registry mr)"
    and "register_implementation m t now d mr = (Inr (), mr1)"
    and "\<forall>t' st. Stage_call t' (id_impl_id d) st \<notin> set calls"
    and "mr2 = fold (router_step hasher m now') calls mr1"
  shows "rd_chosen (fst (route hasher iv mr2)) \<noteq> Some (id_impl_id d)
    \<and> id_impl_id d \<notin> set (rd_fallback_chain (fst (route hasher iv mr2)))"
proof -
  note mr1 = register_implementation_ok [OF assms(2)]
  have "registry_wf (mr_registry mr1)" "held_back (id_impl_id d) mr1"
    using assms(1) by (simp_all add: mr1 held_back_registered)
  from router_run_held_back [OF this assms(3)] assms(4)
  have "id_impl_id d \<notin> set (rd_fallback_chain (fst (route hasher iv mr2)))"
    by (intro held_back_not_offered) auto
  then show ?thesis using chosen_in_chain by blast
qed

text \<open>
  The score is a weighted average.  The five weights sum to one at every urgency and
  consequence, quality counts for at least a half when the stakes are high, and with costs that
  are not negative and quality figures between zero and one the composite stays between zero
  and one.
\<close>

theorem composite_weighted_average:
  assumes "case id_cost_model d of Free \<Rightarrow> True | PerCall x \<Rightarrow> 0 \<le> x | PerToken x \<Rightarrow> 0 \<le> x"
    and "\<And>q. hm_get (id_quality_profile d) (ci_capability_id iv) = Some q \<Longrightarrow> q \<in> {0..1}"
  shows "rs_composite (score mr iv d) \<in> {0..1}
    \<and> (let w = for_invocation u c
       in wv_lat w + wv_priv w + wv_cost w + wv_qual w + wv_avail w = 1
          \<and> (c = HighStakes \<longrightarrow> 1/2 \<le> wv_qual w))"
proof -
  have qual: "(case hm_get (id_quality_profile d) (ci_capability_id iv) of Some q \<Rightarrow> q | None \<Rightarrow> 1/2)
      \<in> {0..1::rat}"
    using assms(2) by (auto split: option.splits)
  have priv: "privacy_fit (id_privacy_tier d) \<in> {0..1}"
    by (cases "id_privacy_tier d") auto
  have "1/2 \<le> wv_qual (for_invocation u HighStakes)"
    by (cases u) (simp_all add: for_invocation_def Let_def)
  with weighted_average_bounds [OF for_invocation_sum for_invocation_nonneg latency_fit_bounds priv
      cost_fit_bounds [OF assms(1)] qual availability_fit_bounds]
  show ?thesis by (simp add: score_def Let_def for_invocation_sum)
qed

section \<open>The circuit breaker\<close>

definition broken_local :: implementation_descriptor where
  "broken_local = \<lparr>id_impl_id = 1, id_capability_id = ''c'', id_kind = NativeBinary, id_model_class = None,
     id_privacy_tier = Local, id_cost_model = Free, id_quality_profile = [],
     id_declared_latency_ms = 0, id_rollout_stage = Ga, id_resource_cost = None\<rparr>"

definition healthy_cloud :: implementation_descriptor where
  "healthy_cloud = broken_local\<lparr>id_impl_id := 2, id_kind := CloudApi, id_privacy_tier := ConsentedCloud,
     id_cost_model := PerCall 9\<rparr>"

definition demo_router :: "unit model_router" where
  "demo_router = (model_router_new (runtime_new 0))\<lparr>mr_registry := [(1, broken_local), (2, healthy_cloud)]\<rparr>"

definition demo_invocation :: capability_invocation where
  "demo_invocation = \<lparr>ci_capability_id = ''c'', ci_urgency_class = Interactive, ci_consequence_tier = Routine,
     ci_quality_floor = None, ci_latency_budget_ms = 100, ci_cloud_consent = True\<rparr>"

definition demo_hasher :: "u64 \<Rightarrow> u64 \<Rightarrow> u64" where
  "demo_hasher n i = n + i"

lemmas router_demo_defs = broken_local_def healthy_cloud_def demo_router_def demo_invocation_def
  model_router_new_def

text \<open>
  An open circuit breaker does not move an implementation to the bottom of the chain.
  After three failures in a row the implementation's availability term is scaled down, but the
  other terms stand, so it can still be chosen before a healthy one.
\<close>

theorem broken_implementation_still_chosen:
  "let mr = report_outcome 1 False (report_outcome 1 False (report_outcome 1 False demo_router))
   in breaker_is_open (mr_breaker mr) 1 \<and> \<not> breaker_is_open (mr_breaker mr) 2
      \<and> rd_fallback_chain (fst (route hasher demo_invocation mr)) = [1, 2]"
  by (simp add: router_demo_defs report_outcome_def record_failure_def breaker_is_open_def
      CIRCUIT_BREAKER_THRESHOLD_def route_chain by_capability_def hm_values_def gate_def
      is_locally_feasible_def local_class_def score_def for_invocation_def latency_fit_def
      estimated_ms_def availability_fit_def Let_def)

theorem route_correct_witness:
  "rd_chosen (fst (route demo_hasher demo_invocation demo_router)) \<noteq> None
   \<and> distinct (rd_fallback_chain (fst (route demo_hasher demo_invocation demo_router)))"
proof -
  have wf: "registry_wf (mr_registry demo_router)"
    by (auto simp: registry_wf_def router_demo_defs)
  obtain dec mr' where r: "route demo_hasher demo_invocation demo_router = (dec, mr')"
    by (cases "route demo_hasher demo_invocation demo_router")
  have "(1, score demo_router demo_invocation broken_local) \<in>
      set (ra_candidates_considered (rd_rationale dec))"
    unfolding conjunct1 [OF route_correct [OF wf r]]
    by (auto simp: router_demo_defs eligible_def is_locally_feasible_def local_class_def
        intro!: exI [of _ broken_local])
  with route_correct [OF wf r] r show ?thesis by auto
qed

theorem registered_held_back_witness:
  "rd_chosen (fst (route demo_hasher demo_invocation
     (fold (router_step demo_hasher demo_monitor 0) [Stage_call demo_root 2 Ga, Route_call demo_invocation]
       (snd (register_implementation demo_monitor demo_root 0 broken_local demo_router)))))
   \<noteq> Some 1"
proof -
  have wf: "registry_wf (mr_registry demo_router)"
    by (auto simp: registry_wf_def router_demo_defs)
  have reg: "register_implementation demo_monitor demo_root 0 broken_local demo_router =
      (Inr (), snd (register_implementation demo_monitor demo_root 0 broken_local demo_router))"
    by (simp add: register_implementation_def mr_require_def)
  have i: "id_impl_id broken_local = 1" by (simp add: broken_local_def)
  from registered_held_back [where hasher = demo_hasher and iv = demo_invocation and now' = 0
      and calls = "[Stage_call demo_root 2 Ga, Route_call demo_invocation]", OF wf reg _ refl]
  show ?thesis by (simp add: i)
qed

theorem composite_weighted_average_witness:
  "rs_composite (score demo_router demo_invocation healthy_cloud) \<in> {0..1}"
  using composite_weighted_average [of healthy_cloud demo_invocation demo_router Batch HighStakes]
  by (simp add: router_demo_defs)

end
