(* ===== verification/Scheduler.thy ===== *)
theory Scheduler
  imports Model_Router "HOL-Library.Multiset"
begin

text \<open>
  The scheduler, \<open>crates/hyperion-scheduler/src/\<close>: resource vectors and task descriptors
  (\<open>types.rs\<close>), the ledger of a resource (\<open>ledger.rs\<close>), the account of an owner
  (\<open>owner.rs\<close>), and admission, degradation, offloading and the scheduling epoch
  (\<open>scheduler.rs\<close>).

  JSON values are the type \<open>'j\<close>.  The offload trigger is a field holding the function the
  caller wires in; the deadline of a real-time task without one is counted from the argument
  \<open>now\<close>.
\<close>

section \<open>Resources\<close>

record resource_vector =
  rv_cpu_shares :: u32
  rv_ram_mb :: u32
  rv_gpu_shares :: u32
  rv_vram_mb :: u32
  rv_storage_iops :: u32
  rv_network_bw_kbps :: u32
  rv_inference_tokens_per_sec :: u32
  rv_context_window_slots :: u32
  rv_battery_budget_mw :: u32

datatype ResourceDimension =
  Cpu | Ram | Gpu | Vram | StorageIops | NetworkBw | InferenceTokens | ContextWindowSlots | Battery

definition ALL_dimensions :: "ResourceDimension list" where
  "ALL_dimensions =
     [Cpu, Ram, Gpu, Vram, StorageIops, NetworkBw, InferenceTokens, ContextWindowSlots, Battery]"

definition zero_vector :: resource_vector where
  "zero_vector = \<lparr>rv_cpu_shares = 0, rv_ram_mb = 0, rv_gpu_shares = 0, rv_vram_mb = 0,
     rv_storage_iops = 0, rv_network_bw_kbps = 0, rv_inference_tokens_per_sec = 0,
     rv_context_window_slots = 0, rv_battery_budget_mw = 0\<rparr>"

primrec rv_get :: "ResourceDimension \<Rightarrow> resource_vector \<Rightarrow> u32" where
  "rv_get Cpu v = rv_cpu_shares v"
| "rv_get Ram v = rv_ram_mb v"
| "rv_get Gpu v = rv_gpu_shares v"
| "rv_get Vram v = rv_vram_mb v"
| "rv_get StorageIops v = rv_storage_iops v"
| "rv_get NetworkBw v = rv_network_bw_kbps v"
| "rv_get InferenceTokens v = rv_inference_tokens_per_sec v"
| "rv_get ContextWindowSlots v = rv_context_window_slots v"
| "rv_get Battery v = rv_battery_budget_mw v"

primrec rv_set :: "ResourceDimension \<Rightarrow> u32 \<Rightarrow> resource_vector \<Rightarrow> resource_vector" where
  "rv_set Cpu x v = v\<lparr>rv_cpu_shares := x\<rparr>"
| "rv_set Ram x v = v\<lparr>rv_ram_mb := x\<rparr>"
| "rv_set Gpu x v = v\<lparr>rv_gpu_shares := x\<rparr>"
| "rv_set Vram x v = v\<lparr>rv_vram_mb := x\<rparr>"
| "rv_set StorageIops x v = v\<lparr>rv_storage_iops := x\<rparr>"
| "rv_set NetworkBw x v = v\<lparr>rv_network_bw_kbps := x\<rparr>"
| "rv_set InferenceTokens x v = v\<lparr>rv_inference_tokens_per_sec := x\<rparr>"
| "rv_set ContextWindowSlots x v = v\<lparr>rv_context_window_slots := x\<rparr>"
| "rv_set Battery x v = v\<lparr>rv_battery_budget_mw := x\<rparr>"

definition iter_dimensions :: "resource_vector \<Rightarrow> (ResourceDimension \<times> u32) list" where
  "iter_dimensions v = map (\<lambda>d. (d, rv_get d v)) ALL_dimensions"

definition saturating_add_assign :: "resource_vector \<Rightarrow> resource_vector \<Rightarrow> resource_vector" where
  "saturating_add_assign other v =
     fold (\<lambda>(d, x) w. rv_set d (saturating_add (rv_get d w) x) w) (iter_dimensions other) v"

definition saturating_sub_assign :: "resource_vector \<Rightarrow> resource_vector \<Rightarrow> resource_vector" where
  "saturating_sub_assign other v =
     fold (\<lambda>(d, x) w. rv_set d (saturating_sub (rv_get d w) x) w) (iter_dimensions other) v"

section \<open>Tasks, ledgers and accounts\<close>

datatype SchedClass = RealTimeUI | InteractiveAgent | BackgroundAgent | BatchDistributable

datatype OwnerId = AgentOwner u64 | IntentOwner u64

type_synonym task_id = u64

record 'j task_descriptor =
  td_id :: task_id
  td_owner_intent :: u64
  td_owner_agent :: "u64 option"
  td_class :: SchedClass
  td_deadline :: "instant option"
  td_priority_weight :: rat
  td_request :: resource_vector
  td_cap_token :: capability_token
  td_capability_ref :: "string option"
  td_args :: 'j

definition owner_of :: "'j task_descriptor \<Rightarrow> OwnerId" where
  "owner_of task =
     (case td_owner_agent task of Some a \<Rightarrow> AgentOwner a | None \<Rightarrow> IntentOwner (td_owner_intent task))"

record load_signal =
  ls_utilization_ewma :: rat
  ls_battery_drain_rate :: rat
  ls_thermal_headroom :: rat

record resource_ledger =
  ld_dimension :: ResourceDimension
  ld_capacity :: u32
  ld_reserved_for_realtime :: u32
  ld_allocated :: u32
  ld_epoch :: u64

definition ledger_new :: "ResourceDimension \<Rightarrow> u32 \<Rightarrow> u32 \<Rightarrow> resource_ledger" where
  "ledger_new dimension capacity reserved_for_realtime =
     \<lparr>ld_dimension = dimension, ld_capacity = capacity,
      ld_reserved_for_realtime = min reserved_for_realtime capacity, ld_allocated = 0, ld_epoch = 0\<rparr>"

definition headroom :: "resource_ledger \<Rightarrow> bool \<Rightarrow> u32" where
  "headroom l use_reserved =
     (if use_reserved then ld_capacity l
      else saturating_sub (ld_capacity l) (ld_reserved_for_realtime l))"

record owner_account =
  oa_currently_held :: resource_vector

record allocation =
  al_owner :: OwnerId
  al_vector :: resource_vector

record 'j scheduling_rationale =
  sr_ticket :: task_id
  sr_admitted :: bool
  sr_note :: string
  sr_offload_result :: "'j option"

datatype SchedError = SchedUnauthorized | NoSuchTicket

type_synonym ledgers = "(ResourceDimension, resource_ledger) hashmap"

record ('j, 'sig) scheduler =
  sch_ledgers :: ledgers
  sch_owners :: "(OwnerId, owner_account) hashmap"
  sch_realtime_ready :: "'j task_descriptor list"
  sch_other_ready :: "'j task_descriptor list"
  sch_allocations :: "(task_id, allocation) hashmap"
  sch_rationale :: "(task_id, 'j scheduling_rationale) hashmap"
  sch_model_router :: "'sig model_router option"
  sch_offload_trigger :: "('j task_descriptor \<Rightarrow> 'j option) option"
  sch_load_signal :: "load_signal option"

definition AGING_STEP :: rat where "AGING_STEP = 5 / 100"

definition scheduler_new :: "('j, 'sig) scheduler" where
  "scheduler_new = \<lparr>sch_ledgers = [], sch_owners = [], sch_realtime_ready = [], sch_other_ready = [],
     sch_allocations = [], sch_rationale = [], sch_model_router = None, sch_offload_trigger = None,
     sch_load_signal = None\<rparr>"

definition new_with_model_router :: "'sig model_router \<Rightarrow> ('j, 'sig) scheduler" where
  "new_with_model_router router = scheduler_new\<lparr>sch_model_router := Some router\<rparr>"

definition with_offload_trigger ::
    "('j task_descriptor \<Rightarrow> 'j option) \<Rightarrow> ('j, 'sig) scheduler \<Rightarrow> ('j, 'sig) scheduler" where
  "with_offload_trigger trigger s = s\<lparr>sch_offload_trigger := Some trigger\<rparr>"

definition register_resource_provider ::
    "resource_ledger \<Rightarrow> ('j, 'sig) scheduler \<Rightarrow> ('j, 'sig) scheduler" where
  "register_resource_provider l s =
     s\<lparr>sch_ledgers := hm_insert (ld_dimension l) l (sch_ledgers s)\<rparr>"

definition submit_task ::
    "capability_monitor \<Rightarrow> instant \<Rightarrow> 'j task_descriptor \<Rightarrow> ('j, 'sig) scheduler
     \<Rightarrow> (SchedError, task_id) result \<times> ('j, 'sig) scheduler" where
  "submit_task monitor now task s =
     (case map_err (\<lambda>_. SchedUnauthorized) (check_rights_ok_result monitor (td_cap_token task) EXEC now) of
        Inl e \<Rightarrow> (Inl e, s)
      | Inr _ \<Rightarrow>
          (Inr (td_id task),
           if td_class task = RealTimeUI
           then s\<lparr>sch_realtime_ready := sch_realtime_ready s @ [task]\<rparr>
           else s\<lparr>sch_other_ready := sch_other_ready s @ [task]\<rparr>))"

text \<open>The amounts of a vector are added to, or taken from, the registered ledgers.\<close>

definition update_ledgers ::
    "(u32 \<Rightarrow> u32 \<Rightarrow> u32) \<Rightarrow> resource_vector \<Rightarrow> ledgers \<Rightarrow> ledgers" where
  "update_ledgers f v ls =
     fold (\<lambda>(dim, amount). hm_modify dim (\<lambda>l. l\<lparr>ld_allocated := f (ld_allocated l) amount\<rparr>))
       (iter_dimensions v) ls"

definition release :: "allocation \<Rightarrow> ('j, 'sig) scheduler \<Rightarrow> ('j, 'sig) scheduler" where
  "release alloc s =
     s\<lparr>sch_ledgers := update_ledgers saturating_sub (al_vector alloc) (sch_ledgers s),
       sch_owners := hm_modify (al_owner alloc)
         (\<lambda>acc. acc\<lparr>oa_currently_held := saturating_sub_assign (al_vector alloc) (oa_currently_held acc)\<rparr>)
         (sch_owners s)\<rparr>"

definition remove_by_id :: "task_id \<Rightarrow> 'j task_descriptor list \<Rightarrow> bool \<times> 'j task_descriptor list" where
  "remove_by_id ticket queue =
     (let queue' = filter (\<lambda>t. td_id t \<noteq> ticket) queue
      in (length queue' \<noteq> length queue, queue'))"

definition cancel ::
    "task_id \<Rightarrow> ('j, 'sig) scheduler \<Rightarrow> (SchedError, unit) result \<times> ('j, 'sig) scheduler" where
  "cancel ticket s =
     (case hm_get (sch_allocations s) ticket of
        Some alloc \<Rightarrow>
          (Inr (), release alloc (s\<lparr>sch_allocations := hm_remove ticket (sch_allocations s)\<rparr>))
      | None \<Rightarrow>
          (case remove_by_id ticket (sch_realtime_ready s) of
             (True, q) \<Rightarrow> (Inr (), s\<lparr>sch_realtime_ready := q\<rparr>)
           | (False, q) \<Rightarrow>
               (case remove_by_id ticket (sch_other_ready s) of
                  (True, q') \<Rightarrow> (Inr (), s\<lparr>sch_realtime_ready := q, sch_other_ready := q'\<rparr>)
                | (False, q') \<Rightarrow> (Inl NoSuchTicket, s\<lparr>sch_realtime_ready := q, sch_other_ready := q'\<rparr>))))"

definition query_ledger :: "('j, 'sig) scheduler \<Rightarrow> ResourceDimension \<Rightarrow> resource_ledger option" where
  "query_ledger s d = hm_get (sch_ledgers s) d"

definition update_load_signal :: "load_signal \<Rightarrow> ('j, 'sig) scheduler \<Rightarrow> ('j, 'sig) scheduler" where
  "update_load_signal sig s = s\<lparr>sch_load_signal := Some sig\<rparr>"

definition current_load_signal :: "('j, 'sig) scheduler \<Rightarrow> load_signal option" where
  "current_load_signal s = sch_load_signal s"

definition explain :: "('j, 'sig) scheduler \<Rightarrow> task_id \<Rightarrow> 'j scheduling_rationale option" where
  "explain s ticket = hm_get (sch_rationale s) ticket"

definition complete ::
    "task_id \<Rightarrow> ('j, 'sig) scheduler \<Rightarrow> (SchedError, unit) result \<times> ('j, 'sig) scheduler" where
  "complete ticket s =
     (case hm_get (sch_allocations s) ticket of
        None \<Rightarrow> (Inl NoSuchTicket, s)
      | Some alloc \<Rightarrow>
          (Inr (), release alloc (s\<lparr>sch_allocations := hm_remove ticket (sch_allocations s)\<rparr>)))"

section \<open>Admission\<close>

definition fits :: "resource_vector \<Rightarrow> ledgers \<Rightarrow> bool \<Rightarrow> bool" where
  "fits v ls use_reserved =
     list_all (\<lambda>(dim, want).
        want = 0
        \<or> (case hm_get ls dim of
             None \<Rightarrow> False
           | Some l \<Rightarrow> \<not> headroom l use_reserved < saturating_add (ld_allocated l) want))
       (iter_dimensions v)"

definition try_admit :: "'j task_descriptor \<Rightarrow> ledgers \<Rightarrow> bool \<Rightarrow> resource_vector option" where
  "try_admit task ls use_reserved =
     (if fits (td_request task) ls use_reserved then Some (td_request task) else None)"

definition from_declared_cost :: "resource_cost \<Rightarrow> resource_vector" where
  "from_declared_cost c =
     \<lparr>rv_cpu_shares = rc_cpu_shares c, rv_ram_mb = rc_ram_mb c, rv_gpu_shares = rc_gpu_shares c,
      rv_vram_mb = rc_vram_mb c, rv_storage_iops = rc_storage_iops c,
      rv_network_bw_kbps = rc_network_bw_kbps c,
      rv_inference_tokens_per_sec = rc_inference_tokens_per_sec c,
      rv_context_window_slots = rc_context_window_slots c,
      rv_battery_budget_mw = rc_battery_budget_mw c\<rparr>"

definition total_footprint :: "resource_vector \<Rightarrow> u64" where
  "total_footprint v = sum_list (map (\<lambda>(_, x). ucast x) (iter_dimensions v))"

definition try_degrade ::
    "('j, 'sig) scheduler \<Rightarrow> 'j task_descriptor \<Rightarrow> (impl_id \<times> resource_vector) option" where
  "try_degrade s task =
     Option.bind (sch_model_router s) (\<lambda>router.
     Option.bind (td_capability_ref task) (\<lambda>cap.
       find (\<lambda>(_, v). fits v (sch_ledgers s) False)
         (sort_key (\<lambda>(_, v). total_footprint v)
           (map (\<lambda>(i, cost). (i, from_declared_cost cost)) (declared_costs router cap)))))"

definition try_offload :: "('j, 'sig) scheduler \<Rightarrow> 'j task_descriptor \<Rightarrow> 'j option" where
  "try_offload s task =
     (if td_class task \<noteq> BatchDistributable then None
      else if td_capability_ref task = None then None
      else Option.bind (sch_offload_trigger s) (\<lambda>trigger. trigger task))"

definition note_rationale ::
    "'j scheduling_rationale \<Rightarrow> ('j, 'sig) scheduler \<Rightarrow> 'j scheduling_rationale \<times> ('j, 'sig) scheduler" where
  "note_rationale r s = (r, s\<lparr>sch_rationale := hm_insert (sr_ticket r) r (sch_rationale s)\<rparr>)"

definition admit ::
    "'j task_descriptor \<Rightarrow> resource_vector \<Rightarrow> string \<Rightarrow> ('j, 'sig) scheduler
     \<Rightarrow> 'j scheduling_rationale \<times> ('j, 'sig) scheduler" where
  "admit task v note s =
     (let owner = owner_of task;
          account = (case hm_get (sch_owners s) owner of
                       None \<Rightarrow> \<lparr>oa_currently_held = zero_vector\<rparr> | Some a \<Rightarrow> a);
          s1 = s\<lparr>sch_ledgers := update_ledgers saturating_add v (sch_ledgers s),
                 sch_owners := hm_insert owner
                   (account\<lparr>oa_currently_held := saturating_add_assign v (oa_currently_held account)\<rparr>)
                   (sch_owners s),
                 sch_allocations := hm_insert (td_id task) \<lparr>al_owner = owner, al_vector = v\<rparr> (sch_allocations s)\<rparr>
      in note_rationale \<lparr>sr_ticket = td_id task, sr_admitted = True, sr_note = note,
                         sr_offload_result = None\<rparr> s1)"

definition miss_realtime_deadline ::
    "'j task_descriptor \<Rightarrow> ('j, 'sig) scheduler \<Rightarrow> 'j scheduling_rationale \<times> ('j, 'sig) scheduler" where
  "miss_realtime_deadline task s =
     note_rationale \<lparr>sr_ticket = td_id task, sr_admitted = False,
       sr_note = ''missed real-time deadline: reserved headroom insufficient'', sr_offload_result = None\<rparr> s"

definition dominant_share :: "('j, 'sig) scheduler \<Rightarrow> 'j task_descriptor \<Rightarrow> rat" where
  "dominant_share s task =
     (let held = map_option oa_currently_held (hm_get (sch_owners s) (owner_of task));
          share = (\<lambda>(d, want).
            let already_held = (case held of None \<Rightarrow> 0 | Some h \<Rightarrow> rv_get d h);
                capacity = max (case hm_get (sch_ledgers s) d of None \<Rightarrow> 1 | Some l \<Rightarrow> ld_capacity l) 1
            in of_nat (unat (saturating_add already_held want)) / of_nat (unat capacity))
      in fold (\<lambda>x acc. max acc x) (map share (iter_dimensions (td_request task))) 0
         * (1 / max (td_priority_weight task) (1 / 100)))"

definition deadline_key :: "instant \<Rightarrow> 'j task_descriptor \<Rightarrow> instant" where
  "deadline_key now task =
     (case td_deadline task of
        Some d \<Rightarrow> d
      | None \<Rightarrow> now + 100 * 365 * 24 * 3600 * 1000000000)"

section \<open>The scheduling epoch\<close>

fun drain_realtime ::
    "'j task_descriptor list \<Rightarrow> ('j, 'sig) scheduler
     \<Rightarrow> 'j scheduling_rationale list \<times> ('j, 'sig) scheduler" where
  "drain_realtime [] s = ([], s)"
| "drain_realtime (task # tasks) s =
     (let (r, s1) = (case try_admit task (sch_ledgers s) True of
                       Some v \<Rightarrow> admit task v ''admitted'' s
                     | None \<Rightarrow> miss_realtime_deadline task s);
          (rs, s2) = drain_realtime tasks s1
      in (r # rs, s2))"

definition aged :: "'j task_descriptor \<Rightarrow> 'j task_descriptor" where
  "aged task = task\<lparr>td_priority_weight := td_priority_weight task + AGING_STEP\<rparr>"

definition dispatch_other ::
    "'j task_descriptor \<Rightarrow> ('j, 'sig) scheduler
     \<Rightarrow> 'j scheduling_rationale \<times> ('j, 'sig) scheduler" where
  "dispatch_other task s =
     (case try_admit task (sch_ledgers s) False of
        Some v \<Rightarrow> admit task v ''admitted'' s
      | None \<Rightarrow>
          (case try_degrade s task of
             Some (i, v) \<Rightarrow>
               admit task v (''did not fit at its own declared request; admitted at cheaper ''
                  @ ''registered implementation '' @ show_nat (unat i) @ '' instead'') s
           | None \<Rightarrow>
               (case try_offload s task of
                  Some res \<Rightarrow>
                    note_rationale \<lparr>sr_ticket = td_id task, sr_admitted = True,
                      sr_note = ''did not fit locally; completed via real federation '' @
                                ''offload to a peer device'',
                      sr_offload_result = Some res\<rparr> s
                | None \<Rightarrow>
                    (let (r, s1) = note_rationale \<lparr>sr_ticket = td_id task, sr_admitted = False,
                           sr_note = ''did not fit this epoch; aged and requeued'',
                           sr_offload_result = None\<rparr> s
                     in (r, s1\<lparr>sch_other_ready := sch_other_ready s1 @ [aged task]\<rparr>)))))"

lemma sort_key_Cons_shorter [termination_simp]: "sort_key f ys = x # xs \<Longrightarrow> length xs < length ys"
  by (metis length_Cons length_sort lessI)

fun schedule_pool ::
    "'j task_descriptor list \<Rightarrow> ('j, 'sig) scheduler
     \<Rightarrow> 'j scheduling_rationale list \<times> ('j, 'sig) scheduler" where
  "schedule_pool candidates s =
     (case sort_key (dominant_share s) candidates of
        [] \<Rightarrow> ([], s)
      | task # rest \<Rightarrow>
          (let (r, s1) = dispatch_other task s;
               (rs, s2) = schedule_pool rest s1
           in (r # rs, s2)))"

declare schedule_pool.simps [simp del]

definition schedule_epoch ::
    "instant \<Rightarrow> ('j, 'sig) scheduler \<Rightarrow> 'j scheduling_rationale list \<times> ('j, 'sig) scheduler" where
  "schedule_epoch now s =
     (let (report, s1) = drain_realtime (sort_key (deadline_key now) (sch_realtime_ready s))
                           (s\<lparr>sch_realtime_ready := []\<rparr>);
          (report', s2) = schedule_pool (sch_other_ready s1) (s1\<lparr>sch_other_ready := []\<rparr>)
      in (report @ report', s2))"

section \<open>Vectors and ledgers by dimension\<close>

lemma set_ALL_dimensions [simp]: "set ALL_dimensions = UNIV"
proof -
  have "d \<in> set ALL_dimensions" for d by (cases d) (simp_all add: ALL_dimensions_def)
  then show ?thesis by auto
qed

lemma distinct_ALL_dimensions [simp]: "distinct ALL_dimensions"
  by (simp add: ALL_dimensions_def)

lemma rv_get_zero [simp]: "rv_get d zero_vector = 0"
  by (cases d) (simp_all add: zero_vector_def)

lemma rv_get_set [simp]: "rv_get d (rv_set e x v) = (if d = e then x else rv_get d v)"
  by (cases d; cases e; simp)

text \<open>A loop over the dimensions that updates each component from its old value.\<close>

lemma fold_dimensions_get:
  assumes "distinct ds"
  shows "rv_get d (fold (\<lambda>(e, x) w. rv_set e (f (rv_get e w) x) w) (map (\<lambda>e. (e, g e)) ds) v) =
    (if d \<in> set ds then f (rv_get d v) (g d) else rv_get d v)"
  using assms by (induction ds arbitrary: v) auto

lemma saturating_add_assign_get [simp]:
  "rv_get d (saturating_add_assign w v) = saturating_add (rv_get d v) (rv_get d w)"
  unfolding saturating_add_assign_def iter_dimensions_def
  by (subst fold_dimensions_get) simp_all

lemma saturating_sub_assign_get [simp]:
  "rv_get d (saturating_sub_assign w v) = saturating_sub (rv_get d v) (rv_get d w)"
  unfolding saturating_sub_assign_def iter_dimensions_def
  by (subst fold_dimensions_get) simp_all

lemma fold_ledgers_get:
  assumes "distinct ds"
  shows "hm_get (fold (\<lambda>(e, x). hm_modify e (\<lambda>l. l\<lparr>ld_allocated := f (ld_allocated l) x\<rparr>))
      (map (\<lambda>e. (e, g e)) ds) ls) d =
    (if d \<in> set ds then map_option (\<lambda>l. l\<lparr>ld_allocated := f (ld_allocated l) (g d)\<rparr>) (hm_get ls d)
     else hm_get ls d)"
  using assms by (induction ds arbitrary: ls) auto

lemma update_ledgers_get [simp, map_simps]:
  "hm_get (update_ledgers f v ls) d =
     map_option (\<lambda>l. l\<lparr>ld_allocated := f (ld_allocated l) (rv_get d v)\<rparr>) (hm_get ls d)"
  unfolding update_ledgers_def iter_dimensions_def by (subst fold_ledgers_get) simp_all

lemma fits_iff:
  "fits v ls use_reserved \<longleftrightarrow>
    (\<forall>d. rv_get d v \<noteq> 0 \<longrightarrow>
      (\<exists>l. hm_get ls d = Some l
        \<and> unat (saturating_add (ld_allocated l) (rv_get d v)) \<le> unat (headroom l use_reserved)))"
  unfolding fits_def iter_dimensions_def list_all_iff
  by (force simp: word_less_nat_alt not_less split: option.splits)

section \<open>The books\<close>

text \<open>What the allocations add up to, over all of them and over those of one owner.\<close>

definition allocation_sum :: "('j, 'sig) scheduler \<Rightarrow> ResourceDimension \<Rightarrow> nat" where
  "allocation_sum s d = hm_sum (\<lambda>a. unat (rv_get d (al_vector a))) (sch_allocations s)"

definition owner_sum :: "('j, 'sig) scheduler \<Rightarrow> OwnerId \<Rightarrow> ResourceDimension \<Rightarrow> nat" where
  "owner_sum s ow d =
     hm_sum (\<lambda>a. if al_owner a = ow then unat (rv_get d (al_vector a)) else 0) (sch_allocations s)"

definition held_by :: "('j, 'sig) scheduler \<Rightarrow> OwnerId \<Rightarrow> ResourceDimension \<Rightarrow> u32" where
  "held_by s ow d =
     (case hm_get (sch_owners s) ow of None \<Rightarrow> 0 | Some a \<Rightarrow> rv_get d (oa_currently_held a))"

definition ledger_balanced :: "('j, 'sig) scheduler \<Rightarrow> ResourceDimension \<Rightarrow> bool" where
  "ledger_balanced s d \<longleftrightarrow>
     (case hm_get (sch_ledgers s) d of
        None \<Rightarrow> allocation_sum s d = 0
      | Some l \<Rightarrow> unat (ld_allocated l) = allocation_sum s d
                 \<and> allocation_sum s d \<le> unat (ld_capacity l)
                 \<and> ld_capacity l \<noteq> - 1 \<and> ld_reserved_for_realtime l \<le> ld_capacity l)"

definition books_balanced :: "('j, 'sig) scheduler \<Rightarrow> bool" where
  "books_balanced s \<longleftrightarrow>
     hm_wf (sch_allocations s)
     \<and> (\<forall>d. ledger_balanced s d)
     \<and> (\<forall>ow d. unat (held_by s ow d) = owner_sum s ow d)"

lemma unat_u32_less: "unat (x :: u32) < 2 ^ 32"
proof -
  have "unat x < 2 ^ LENGTH(32)" by (rule unsigned_less)
  then show ?thesis by simp
qed

lemma unat_below_max: "x \<noteq> - 1 \<Longrightarrow> unat (x :: u32) < 2 ^ 32 - 1"
  using unat_max_word [where 'a = 32] unat_u32_less [of x] by (simp add: word_unat_eq_iff)

lemma owner_sum_le: "owner_sum s ow d \<le> allocation_sum s d"
  unfolding owner_sum_def allocation_sum_def by (rule hm_sum_mono) simp

lemma allocation_sum_bound:
  assumes "ledger_balanced s d"
  shows "allocation_sum s d < 2 ^ 32 - 1"
proof (cases "hm_get (sch_ledgers s) d")
  case None
  with assms show ?thesis by (simp add: ledger_balanced_def)
next
  case (Some l)
  with assms have "allocation_sum s d \<le> unat (ld_capacity l)" "ld_capacity l \<noteq> - 1"
    by (auto simp: ledger_balanced_def)
  with unat_below_max show ?thesis by fastforce
qed

lemma headroom_le_capacity: "headroom l r \<le> ld_capacity l"
  by (simp add: headroom_def saturating_sub_le)

lemma fits_exact:
  assumes "fits v (sch_ledgers s) r" "ledger_balanced s d" "rv_get d v \<noteq> 0"
  obtains l where "hm_get (sch_ledgers s) d = Some l"
    "unat (ld_allocated l) + unat (rv_get d v) \<le> unat (headroom l r)"
    "unat (headroom l r) \<le> unat (ld_capacity l)"
proof -
  from assms(1,3) obtain l where l: "hm_get (sch_ledgers s) d = Some l"
    "unat (saturating_add (ld_allocated l) (rv_get d v)) \<le> unat (headroom l r)"
    by (auto simp: fits_iff)
  have cap: "unat (headroom l r) \<le> unat (ld_capacity l)"
    using headroom_le_capacity [of l r] by (simp add: word_le_nat_alt)
  have "ld_capacity l \<noteq> - 1" using assms(2) l(1) by (simp add: ledger_balanced_def)
  then have "unat (ld_capacity l) < 2 ^ 32 - 1" by (rule unat_below_max)
  with l(2) cap have "unat (ld_allocated l) + unat (rv_get d v) \<le> unat (headroom l r)"
    by (simp add: unat_saturating_add)
  from that [OF l(1) this cap] show ?thesis .
qed

lemma admit_eqs:
  "sch_ledgers (snd (admit t v note s)) = update_ledgers saturating_add v (sch_ledgers s)"
  "sch_allocations (snd (admit t v note s)) =
     hm_insert (td_id t) \<lparr>al_owner = owner_of t, al_vector = v\<rparr> (sch_allocations s)"
  "held_by (snd (admit t v note s)) ow d =
     (if ow = owner_of t then saturating_add (held_by s ow d) (rv_get d v) else held_by s ow d)"
  "sch_realtime_ready (snd (admit t v note s)) = sch_realtime_ready s"
  "sch_other_ready (snd (admit t v note s)) = sch_other_ready s"
  "fst (admit t v note s) =
     \<lparr>sr_ticket = td_id t, sr_admitted = True, sr_note = note, sr_offload_result = None\<rparr>"
  by (auto simp: admit_def note_rationale_def held_by_def Let_def split: option.splits)

lemma admit_sums:
  assumes "hm_get (sch_allocations s) (td_id t) = None"
  shows "allocation_sum (snd (admit t v note s)) d = allocation_sum s d + unat (rv_get d v)"
    and "owner_sum (snd (admit t v note s)) ow d =
      owner_sum s ow d + (if ow = owner_of t then unat (rv_get d v) else 0)"
  using assms by (simp_all add: allocation_sum_def owner_sum_def admit_eqs hm_sum_insert_new)

lemma admit_balanced:
  assumes "books_balanced s" "fits v (sch_ledgers s) r" "hm_get (sch_allocations s) (td_id t) = None"
  shows "books_balanced (snd (admit t v note s))"
proof -
  let ?s = "snd (admit t v note s)"
  have bal: "ledger_balanced s d" for d using assms(1) by (simp add: books_balanced_def)
  have led: "ledger_balanced ?s d" for d
  proof (cases "rv_get d v = 0")
    case True
    with bal [of d] show ?thesis
      by (auto simp: ledger_balanced_def admit_eqs admit_sums [OF assms(3)] split: option.splits)
  next
    case False
    from fits_exact [OF assms(2) bal False] obtain l where l: "hm_get (sch_ledgers s) d = Some l"
      "unat (ld_allocated l) + unat (rv_get d v) \<le> unat (headroom l r)"
      "unat (headroom l r) \<le> unat (ld_capacity l)" .
    have "unat (ld_capacity l) < 2 ^ 32" by (rule unat_u32_less)
    with l bal [of d] show ?thesis
      by (simp add: ledger_balanced_def admit_eqs admit_sums [OF assms(3)] unat_saturating_add)
  qed
  have "unat (held_by ?s ow d) = owner_sum ?s ow d" for ow d
  proof -
    have "owner_sum ?s ow d < 2 ^ 32 - 1"
      using owner_sum_le [of ?s ow d] allocation_sum_bound [OF led, of d] by simp
    with assms(1) show ?thesis
      by (auto simp: books_balanced_def admit_eqs admit_sums [OF assms(3)] unat_saturating_add)
  qed
  with led assms(1) show ?thesis by (simp add: books_balanced_def admit_eqs)
qed

lemma release_eqs:
  "sch_ledgers (release a s) = update_ledgers saturating_sub (al_vector a) (sch_ledgers s)"
  "sch_allocations (release a s) = sch_allocations s"
  "sch_realtime_ready (release a s) = sch_realtime_ready s"
  "sch_other_ready (release a s) = sch_other_ready s"
  "held_by (release a s) ow d =
     (if ow = al_owner a then saturating_sub (held_by s ow d) (rv_get d (al_vector a)) else held_by s ow d)"
  by (auto simp: release_def held_by_def saturating_sub_def word_gt_0 split: option.splits)

definition freed :: "task_id \<Rightarrow> allocation \<Rightarrow> ('j, 'sig) scheduler \<Rightarrow> ('j, 'sig) scheduler" where
  "freed k a s = release a (s\<lparr>sch_allocations := hm_remove k (sch_allocations s)\<rparr>)"

lemma freed_balanced:
  assumes "books_balanced s" "hm_get (sch_allocations s) k = Some a"
  shows "books_balanced (freed k a s)"
proof -
  have wf: "hm_wf (sch_allocations s)" using assms(1) by (simp add: books_balanced_def)
  have sum: "allocation_sum (freed k a s) d = allocation_sum s d - unat (rv_get d (al_vector a))"
    for d
    using hm_sum_remove [OF wf assms(2), of "\<lambda>a. unat (rv_get d (al_vector a))"]
    by (simp add: allocation_sum_def freed_def release_eqs)
  have own: "owner_sum (freed k a s) ow d =
      owner_sum s ow d - (if al_owner a = ow then unat (rv_get d (al_vector a)) else 0)" for ow d
    using hm_sum_remove [OF wf assms(2), of "\<lambda>a. if al_owner a = ow then unat (rv_get d (al_vector a)) else 0"]
    by (simp add: owner_sum_def freed_def release_eqs)
  have "held_by (freed k a s) ow d =
      (if ow = al_owner a then saturating_sub (held_by s ow d) (rv_get d (al_vector a)) else held_by s ow d)"
    for ow d by (simp add: freed_def release_eqs) (simp add: held_by_def)
  then have held: "unat (held_by (freed k a s) ow d) = owner_sum (freed k a s) ow d" for ow d
    using assms(1) by (auto simp: books_balanced_def own unat_saturating_sub)
  have "ledger_balanced (freed k a s) d" for d
  proof -
    have "ledger_balanced s d" using assms(1) by (simp add: books_balanced_def)
    then show ?thesis
      unfolding ledger_balanced_def sum
      by (auto simp: freed_def release_eqs unat_saturating_sub split: option.splits)
  qed
  with held wf show ?thesis by (simp add: books_balanced_def freed_def release_eqs)
qed

section \<open>Steps of the pool\<close>

text \<open>What happens to one task: it is admitted with a vector that fits, or only noted, or requeued.\<close>

lemma drain_step_cases:
  obtains (admitted) v where "fits v (sch_ledgers s) True"
      "(case try_admit t (sch_ledgers s) True of
          Some v \<Rightarrow> admit t v ''admitted'' s | None \<Rightarrow> miss_realtime_deadline t s) = admit t v ''admitted'' s"
  | (missed) "(case try_admit t (sch_ledgers s) True of
          Some v \<Rightarrow> admit t v ''admitted'' s | None \<Rightarrow> miss_realtime_deadline t s) = miss_realtime_deadline t s"
      "\<not> fits (td_request t) (sch_ledgers s) True"
  by (cases "fits (td_request t) (sch_ledgers s) True") (auto simp: try_admit_def)

lemma dispatch_other_cases:
  obtains (admitted) v nt where "fits v (sch_ledgers s) False" "dispatch_other t s = admit t v nt s"
  | (offloaded) res nt where "dispatch_other t s = note_rationale \<lparr>sr_ticket = td_id t, sr_admitted = True,
       sr_note = nt, sr_offload_result = Some res\<rparr> s"
  | (requeued) r s1 where "dispatch_other t s = (r, s1\<lparr>sch_other_ready := sch_other_ready s @ [aged t]\<rparr>)"
      "sr_ticket r = td_id t" "\<not> sr_admitted r" "s1 = snd (note_rationale r s)"
proof (cases "fits (td_request t) (sch_ledgers s) False")
  case True
  then show ?thesis by (intro admitted) (simp_all add: dispatch_other_def try_admit_def)
next
  case not_fit: False
  show ?thesis
  proof (cases "try_degrade s t")
    case (Some iv)
    then obtain i v where iv: "try_degrade s t = Some (i, v)" by (cases iv) auto
    then have "fits v (sch_ledgers s) False"
      by (auto simp: try_degrade_def find_Some_iff Option.bind_eq_Some_conv)
    with iv not_fit show ?thesis by (intro admitted) (simp_all add: dispatch_other_def try_admit_def)
  next
    case None
    with not_fit show ?thesis
      by (cases "try_offload s t")
        (auto simp: dispatch_other_def try_admit_def note_rationale_def intro: offloaded requeued)
  qed
qed

lemma note_rationale_eqs [simp]:
  "sch_ledgers (snd (note_rationale r s)) = sch_ledgers s"
  "sch_allocations (snd (note_rationale r s)) = sch_allocations s"
  "sch_owners (snd (note_rationale r s)) = sch_owners s"
  "sch_realtime_ready (snd (note_rationale r s)) = sch_realtime_ready s"
  "sch_other_ready (snd (note_rationale r s)) = sch_other_ready s"
  "fst (note_rationale r s) = r"
  by (simp_all add: note_rationale_def)

lemma books_balanced_cong:
  assumes "sch_ledgers s = sch_ledgers s'" "sch_allocations s = sch_allocations s'"
    "sch_owners s = sch_owners s'"
  shows "books_balanced s = books_balanced s'"
proof -
  have sums: "allocation_sum s = allocation_sum s'" by (rule ext) (simp add: allocation_sum_def assms)
  show ?thesis
    unfolding books_balanced_def ledger_balanced_def owner_sum_def held_by_def assms sums ..
qed

text \<open>Tasks that wait have identifiers of their own, which no allocation uses.\<close>

definition ids_fresh :: "task_id list \<Rightarrow> ('j, 'sig) scheduler \<Rightarrow> bool" where
  "ids_fresh ids s \<longleftrightarrow>
     distinct ids \<and> (\<forall>i \<in> set ids. hm_get (sch_allocations s) i = None)"

lemma drain_realtime_step:
  fixes s :: "('j, 'sig) scheduler"
  assumes "books_balanced s" "ids_fresh (td_id t # ids) s"
    and "(case try_admit t (sch_ledgers s) True of
          Some v \<Rightarrow> admit t v ''admitted'' s | None \<Rightarrow> miss_realtime_deadline t s) = (r, s1)"
  shows "books_balanced s1 \<and> ids_fresh ids s1 \<and> sr_ticket r = td_id t
    \<and> sch_realtime_ready s1 = sch_realtime_ready s \<and> sch_other_ready s1 = sch_other_ready s"
proof (cases rule: drain_step_cases [of s t])
  case (admitted v)
  with assms(3) have "admit t v ''admitted'' s = (r, s1)" by simp
  then have r: "r = fst (admit t v ''admitted'' s)" and s1: "s1 = snd (admit t v ''admitted'' s)"
    by simp_all
  have "books_balanced s1"
    unfolding s1 using assms(1,2) admitted(1) by (intro admit_balanced) (auto simp: ids_fresh_def)
  with assms(2) show ?thesis by (auto simp: r s1 admit_eqs ids_fresh_def)
next
  case missed
  with assms(3) have "miss_realtime_deadline t s = (r, s1)" by simp
  then have "r = fst (miss_realtime_deadline t s)" and s1: "s1 = snd (miss_realtime_deadline t s)"
    by simp_all
  moreover have "books_balanced s1 = books_balanced s"
    by (rule books_balanced_cong) (simp_all add: s1 miss_realtime_deadline_def)
  ultimately show ?thesis
    using assms(1,2) by (simp add: miss_realtime_deadline_def ids_fresh_def)
qed

lemma drain_realtime_inv:
  assumes "drain_realtime ts s = (rs, s')" "books_balanced s"
    "ids_fresh (map td_id ts @ ids) s"
  shows "books_balanced s' \<and> ids_fresh ids s' \<and> map sr_ticket rs = map td_id ts
    \<and> sch_realtime_ready s' = sch_realtime_ready s \<and> sch_other_ready s' = sch_other_ready s"
  using assms
proof (induction ts arbitrary: s rs)
  case Nil
  then show ?case by simp
next
  case (Cons t ts)
  obtain r s1 where step: "(case try_admit t (sch_ledgers s) True of
      Some v \<Rightarrow> admit t v ''admitted'' s | None \<Rightarrow> miss_realtime_deadline t s) = (r, s1)" by fastforce
  obtain rs' s2 where rest: "drain_realtime ts s1 = (rs', s2)" by fastforce
  from Cons.prems(1) step rest have eq: "rs = r # rs'" "s2 = s'" by auto
  from Cons.prems have fresh: "ids_fresh (td_id t # map td_id ts @ ids) s" by simp
  note one = drain_realtime_step [OF Cons.prems(2) fresh step]
  with Cons.IH [of s1 rs'] rest show ?case by (simp add: eq)
qed

lemma ids_fresh_perm: "mset ks = mset js \<Longrightarrow> ids_fresh ks s \<longleftrightarrow> ids_fresh js s"
  unfolding ids_fresh_def by (metis mset_eq_imp_distinct_iff set_mset_mset)

lemma ids_fresh_Cons:
  "ids_fresh (i # ks) s \<longleftrightarrow> i \<notin> set ks \<and> hm_get (sch_allocations s) i = None \<and> ids_fresh ks s"
  by (auto simp: ids_fresh_def)

lemma td_id_aged [simp]: "td_id (aged t) = td_id t"
  by (simp add: aged_def)

lemma dispatch_other_report:
  assumes "dispatch_other t s = (r, s1)"
  shows "sr_ticket r = td_id t \<and> sch_realtime_ready s1 = sch_realtime_ready s
    \<and> sch_other_ready s1 = sch_other_ready s @ (if sr_admitted r then [] else [aged t])"
  using assms
  by (cases rule: dispatch_other_cases [of s t]) (auto simp: admit_def note_rationale_def Let_def)

lemma dispatch_other_inv:
  fixes s :: "('j, 'sig) scheduler"
  assumes "books_balanced s" "ids_fresh (td_id t # ids) s" "dispatch_other t s = (r, s1)"
  shows "books_balanced s1 \<and> ids_fresh ((if sr_admitted r then [] else [td_id t]) @ ids) s1"
proof (cases rule: dispatch_other_cases [of s t])
  case (admitted v nt)
  with assms(3) have "admit t v nt s = (r, s1)" by simp
  then have r: "r = fst (admit t v nt s)" and s1: "s1 = snd (admit t v nt s)"
    by simp_all
  have "books_balanced s1"
    unfolding s1 using assms(1,2) admitted(1) by (intro admit_balanced) (auto simp: ids_fresh_def)
  with assms(2) show ?thesis by (auto simp: r s1 admit_eqs ids_fresh_def)
next
  case (offloaded res nt)
  let ?r = "\<lparr>sr_ticket = td_id t, sr_admitted = True, sr_note = nt, sr_offload_result = Some res\<rparr>"
  have r: "r = ?r" and s1: "s1 = snd (note_rationale ?r s)"
    using offloaded assms(3) by (simp_all add: note_rationale_def)
  have "books_balanced s1 = books_balanced s" by (rule books_balanced_cong) (simp_all add: s1)
  with assms(1,2) show ?thesis by (simp add: r s1 ids_fresh_def)
next
  case (requeued r' s2)
  then have r: "r = r'" and s1: "s1 = s2\<lparr>sch_other_ready := sch_other_ready s @ [aged t]\<rparr>"
    using assms(3) by simp_all
  have "books_balanced s1 = books_balanced s"
    by (rule books_balanced_cong) (simp_all add: s1 requeued(4))
  with assms(1,2) requeued(2,3) show ?thesis by (simp add: r s1 requeued(4) ids_fresh_def)
qed

text \<open>One turn of the loop over the pool.\<close>

lemma schedule_pool_cases:
  assumes "schedule_pool cs s = (rs, s')"
  obtains (empty) "cs = []" "rs = []" "s' = s"
  | (turn) t ts r s1 rs1 where "sort_key (dominant_share s) cs = t # ts" "mset cs = add_mset t (mset ts)"
      "dispatch_other t s = (r, s1)" "schedule_pool ts s1 = (rs1, s')" "rs = r # rs1"
proof (cases "sort_key (dominant_share s) cs")
  case Nil
  moreover from this have "cs = []" by (metis length_0_conv length_sort)
  ultimately show ?thesis using assms that(1) by (simp add: schedule_pool.simps [of "[]"])
next
  case (Cons t ts)
  obtain r s1 where step: "dispatch_other t s = (r, s1)" by fastforce
  obtain rs1 s2 where rest: "schedule_pool ts s1 = (rs1, s2)" by fastforce
  have "rs = r # rs1" "s2 = s'"
    using assms Cons step rest by (auto simp: schedule_pool.simps [of cs])
  moreover have "mset cs = add_mset t (mset ts)"
    using mset_sort [of "dominant_share s" cs] by (simp add: Cons)
  ultimately show ?thesis using that(2) Cons step rest by blast
qed

lemma schedule_pool_report:
  assumes "schedule_pool cs s = (rs, s')"
  shows "mset (map sr_ticket rs) = mset (map td_id cs)
    \<and> sch_realtime_ready s' = sch_realtime_ready s
    \<and> (\<exists>again. sch_other_ready s' = sch_other_ready s @ map aged again
         \<and> mset again \<subseteq># mset cs
         \<and> map td_id again = map sr_ticket (filter (\<lambda>r. \<not> sr_admitted r) rs))"
  using assms
proof (induction cs arbitrary: s rs rule: measure_induct_rule [of length])
  case (less cs)
  from less.prems show ?case
  proof (cases rule: schedule_pool_cases)
    case empty
    then show ?thesis by simp
  next
    case (turn t ts r s1 rs1)
    have "length ts < length cs" using turn(2) by (metis size_mset size_add_mset lessI)
    from less.IH [OF this turn(4)] obtain again where ih:
      "mset (map sr_ticket rs1) = mset (map td_id ts)" "sch_realtime_ready s' = sch_realtime_ready s1"
      "sch_other_ready s' = sch_other_ready s1 @ map aged again" "mset again \<subseteq># mset ts"
      "map td_id again = map sr_ticket (filter (\<lambda>r. \<not> sr_admitted r) rs1)" by blast
    note step = dispatch_other_report [OF turn(3)]
    show ?thesis
    proof (intro conjI)
      show "mset (map sr_ticket rs) = mset (map td_id cs)"
        using ih(1) step turn(2) by (simp add: turn(5))
      show "sch_realtime_ready s' = sch_realtime_ready s" using ih(2) step by simp
      show "\<exists>again. sch_other_ready s' = sch_other_ready s @ map aged again
         \<and> mset again \<subseteq># mset cs
         \<and> map td_id again = map sr_ticket (filter (\<lambda>r. \<not> sr_admitted r) rs)"
        using ih(3-) step turn(2)
        by (intro exI [of _ "(if sr_admitted r then [] else [t]) @ again"])
          (auto simp: turn(5) intro: subset_mset.order_trans)
    qed
  qed
qed

lemma schedule_pool_inv:
  assumes "schedule_pool cs s = (rs, s')" "books_balanced s"
    "ids_fresh (map td_id cs @ map td_id (sch_other_ready s) @ ids) s"
  shows "books_balanced s' \<and> ids_fresh (map td_id (sch_other_ready s') @ ids) s'"
  using assms
proof (induction cs arbitrary: s rs rule: measure_induct_rule [of length])
  case (less cs)
  from less.prems(1) show ?case
  proof (cases rule: schedule_pool_cases)
    case empty
    with less.prems show ?thesis by simp
  next
    case (turn t ts r s1 rs1)
    have shorter: "length ts < length cs" using turn(2) by (metis size_mset size_add_mset lessI)
    have "ids_fresh (td_id t # map td_id ts @ map td_id (sch_other_ready s) @ ids) s"
      using less.prems(3) by (subst ids_fresh_perm) (simp_all add: turn(2))
    from dispatch_other_inv [OF less.prems(2) this turn(3)] dispatch_other_report [OF turn(3)]
    have "books_balanced s1" "ids_fresh (map td_id ts @ map td_id (sch_other_ready s1) @ ids) s1"
      by (auto elim!: ids_fresh_perm [THEN iffD1, rotated])
    from less.IH [OF shorter turn(4) this] show ?thesis .
  qed
qed

section \<open>Reachable states\<close>

text \<open>
  The states of a scheduler with disciplined clients.  The code checks none of the following; it is
  what the clients must keep to.  They submit tasks (of the given classes) under identifiers that
  neither wait nor are allocated; \<open>duplicate_ticket_leaks\<close> shows what a reused identifier does.
  They register each resource once, with nothing allocated: \<open>reregistered_ledger_overbooks\<close> shows
  what a second registration does.  The capacity is below the largest 32-bit value, at which the
  saturating sum of the fit test cannot tell a full ledger from an overfull one, and the reservation
  is within the capacity.  The model router and the trigger may be replaced at any time; the
  model router is shared with other clients, who change it.
\<close>

definition id_in_use :: "task_id \<Rightarrow> ('j, 'sig) scheduler \<Rightarrow> bool" where
  "id_in_use i s \<longleftrightarrow>
     i \<in> td_id ` set (sch_realtime_ready s @ sch_other_ready s) \<or> hm_contains_key (sch_allocations s) i"

definition new_provider :: "resource_ledger \<Rightarrow> ('j, 'sig) scheduler \<Rightarrow> bool" where
  "new_provider l s \<longleftrightarrow>
     hm_get (sch_ledgers s) (ld_dimension l) = None \<and> ld_allocated l = 0 \<and> ld_capacity l \<noteq> - 1
     \<and> ld_reserved_for_realtime l \<le> ld_capacity l"

inductive sched_step ::
    "SchedClass set \<Rightarrow> ('j, 'sig) scheduler \<Rightarrow> ('j, 'sig) scheduler \<Rightarrow> bool" for C where
  provider: "new_provider l s \<Longrightarrow> sched_step C s (register_resource_provider l s)"
| submit: "td_class t \<in> C \<Longrightarrow> \<not> id_in_use (td_id t) s \<Longrightarrow> submit_task m now t s = (res, s')
    \<Longrightarrow> sched_step C s s'"
| cancels: "cancel k s = (res, s') \<Longrightarrow> sched_step C s s'"
| completes: "complete k s = (res, s') \<Longrightarrow> sched_step C s s'"
| epoch: "schedule_epoch now s = (report, s') \<Longrightarrow> sched_step C s s'"
| load: "sched_step C s (update_load_signal sig s)"
| trigger: "sched_step C s (with_offload_trigger f s)"
| router: "sched_step C s (s\<lparr>sch_model_router := mr\<rparr>)"

inductive sched_reach :: "SchedClass set \<Rightarrow> ('j, 'sig) scheduler \<Rightarrow> bool" for C where
  start: "sched_reach C scheduler_new"
| step: "sched_reach C s \<Longrightarrow> sched_step C s s' \<Longrightarrow> sched_reach C s'"

definition sched_inv :: "('j, 'sig) scheduler \<Rightarrow> bool" where
  "sched_inv s \<longleftrightarrow>
     books_balanced s \<and> ids_fresh (map td_id (sch_realtime_ready s @ sch_other_ready s)) s"

lemma sched_inv_start: "sched_inv scheduler_new"
  by (simp add: sched_inv_def scheduler_new_def books_balanced_def ledger_balanced_def allocation_sum_def
      owner_sum_def held_by_def ids_fresh_def)

lemma ids_fresh_cong:
  "sch_allocations s = sch_allocations s' \<Longrightarrow> ids_fresh ids s = ids_fresh ids s'"
  by (simp add: ids_fresh_def)

lemma sched_inv_cong:
  assumes "sch_ledgers s = sch_ledgers s'" "sch_allocations s = sch_allocations s'"
    "sch_owners s = sch_owners s'" "sch_realtime_ready s = sch_realtime_ready s'"
    "sch_other_ready s = sch_other_ready s'"
  shows "sched_inv s = sched_inv s'"
  unfolding sched_inv_def books_balanced_cong [OF assms(1-3)] ids_fresh_cong [OF assms(2)] assms(4,5) ..

lemma provider_inv:
  assumes "sched_inv s" "new_provider l s"
  shows "sched_inv (register_resource_provider l s)"
proof -
  let ?s = "register_resource_provider l s"
  have sums: "allocation_sum ?s = allocation_sum s" "owner_sum ?s = owner_sum s" "held_by ?s = held_by s"
    by (intro ext; simp add: register_resource_provider_def allocation_sum_def owner_sum_def held_by_def)+
  have "ledger_balanced ?s d" for d
  proof -
    have "ledger_balanced s d" using assms(1) by (simp add: sched_inv_def books_balanced_def)
    with assms(2) show ?thesis
      unfolding ledger_balanced_def sums
      by (auto simp: register_resource_provider_def new_provider_def)
  qed
  with assms(1) show ?thesis
    by (simp add: sched_inv_def books_balanced_def sums)
      (simp add: register_resource_provider_def ids_fresh_def)
qed

lemma submit_cases:
  assumes "submit_task m now t s = (res, s')"
  obtains (refused) "res = Inl SchedUnauthorized" "s' = s"
  | (realtime) "res = Inr (td_id t)" "td_class t = RealTimeUI"
      "s' = s\<lparr>sch_realtime_ready := sch_realtime_ready s @ [t]\<rparr>"
  | (other) "res = Inr (td_id t)" "td_class t \<noteq> RealTimeUI"
      "s' = s\<lparr>sch_other_ready := sch_other_ready s @ [t]\<rparr>"
  using assms
  by (cases "check_rights_ok_result m (td_cap_token t) EXEC now"; cases "td_class t = RealTimeUI")
    (auto simp: submit_task_def)

lemma submit_inv:
  assumes "sched_inv s" "\<not> id_in_use (td_id t) s" "submit_task m now t s = (res, s')"
  shows "sched_inv s'"
  using assms(3)
proof (cases rule: submit_cases)
  case refused
  with assms show ?thesis by simp
next
  case realtime
  have "books_balanced s' = books_balanced s" by (rule books_balanced_cong) (simp_all add: realtime)
  with assms(1,2) show ?thesis
    by (auto simp: sched_inv_def realtime ids_fresh_def id_in_use_def)
next
  case other
  have "books_balanced s' = books_balanced s" by (rule books_balanced_cong) (simp_all add: other)
  with assms(1,2) show ?thesis
    by (auto simp: sched_inv_def other ids_fresh_def id_in_use_def)
qed

lemma freed_inv:
  assumes "sched_inv s" "hm_get (sch_allocations s) k = Some a"
  shows "sched_inv (freed k a s)"
  using assms freed_balanced [of s k a]
  by (auto simp: sched_inv_def freed_def release_eqs ids_fresh_def)

lemma complete_cases:
  assumes "complete k s = (res, s')"
  obtains "res = Inl NoSuchTicket" "s' = s"
  | a where "res = Inr ()" "hm_get (sch_allocations s) k = Some a" "s' = freed k a s"
  using assms by (auto simp: complete_def freed_def split: option.splits)

lemma cancel_cases:
  assumes "cancel k s = (res, s')"
  obtains (allocated) a where "hm_get (sch_allocations s) k = Some a" "s' = freed k a s"
  | (queued) "s' = s\<lparr>sch_realtime_ready := filter (\<lambda>t. td_id t \<noteq> k) (sch_realtime_ready s)\<rparr>"
  | (both) "s' = s\<lparr>sch_realtime_ready := filter (\<lambda>t. td_id t \<noteq> k) (sch_realtime_ready s),
                  sch_other_ready := filter (\<lambda>t. td_id t \<noteq> k) (sch_other_ready s)\<rparr>"
  using assms
  by (auto simp: cancel_def freed_def remove_by_id_def Let_def split: option.splits prod.splits bool.splits)

lemma filter_ids_fresh:
  "ids_fresh (map td_id (xs @ ys)) s \<Longrightarrow> ids_fresh (map td_id (filter P xs @ filter Q ys)) s"
  by (auto simp: ids_fresh_def distinct_map_filter image_iff)

lemma cancel_inv:
  assumes "sched_inv s" "cancel k s = (res, s')"
  shows "sched_inv s'"
  using assms(2)
proof (cases rule: cancel_cases)
  case (allocated a)
  with assms(1) show ?thesis by (simp add: freed_inv)
next
  case queued
  have "books_balanced s' = books_balanced s" by (rule books_balanced_cong) (simp_all add: queued)
  moreover have "ids_fresh (map td_id (filter (\<lambda>t. td_id t \<noteq> k) (sch_realtime_ready s)
      @ filter (\<lambda>_. True) (sch_other_ready s))) s"
    using assms(1) by (intro filter_ids_fresh) (simp add: sched_inv_def)
  ultimately show ?thesis
    using assms(1) by (simp add: sched_inv_def queued ids_fresh_def)
next
  case both
  have "books_balanced s' = books_balanced s" by (rule books_balanced_cong) (simp_all add: both)
  moreover have "ids_fresh (map td_id (filter (\<lambda>t. td_id t \<noteq> k) (sch_realtime_ready s)
      @ filter (\<lambda>t. td_id t \<noteq> k) (sch_other_ready s))) s"
    using assms(1) by (intro filter_ids_fresh) (simp add: sched_inv_def)
  ultimately show ?thesis
    using assms(1) by (simp add: sched_inv_def both ids_fresh_def)
qed

lemma epoch_inv:
  assumes "sched_inv s" "schedule_epoch now s = (report, s')"
  shows "sched_inv s'"
proof -
  let ?rt = "sort_key (deadline_key now) (sch_realtime_ready s)"
  let ?s0 = "s\<lparr>sch_realtime_ready := []\<rparr>"
  obtain rs1 s1 where drain: "drain_realtime ?rt ?s0 = (rs1, s1)" by fastforce
  obtain rs2 s2 where pool: "schedule_pool (sch_other_ready s1) (s1\<lparr>sch_other_ready := []\<rparr>) = (rs2, s2)"
    by fastforce
  from assms(2) drain pool have s': "s' = s2" by (simp add: schedule_epoch_def)
  have "books_balanced ?s0 = books_balanced s" by (rule books_balanced_cong) simp_all
  then have b0: "books_balanced ?s0" using assms(1) by (simp add: sched_inv_def)
  have "ids_fresh (map td_id ?rt @ map td_id (sch_other_ready s)) s"
    using assms(1)
    by (subst ids_fresh_perm [of _ "map td_id (sch_realtime_ready s @ sch_other_ready s)"])
      (simp_all add: sched_inv_def)
  then have f0: "ids_fresh (map td_id ?rt @ map td_id (sch_other_ready s)) ?s0"
    by (simp add: ids_fresh_def)
  note d = drain_realtime_inv [OF drain b0 f0]
  let ?s1 = "s1\<lparr>sch_other_ready := []\<rparr>"
  have "books_balanced ?s1 = books_balanced s1" by (rule books_balanced_cong) simp_all
  moreover have "ids_fresh (map td_id (sch_other_ready s1) @ map td_id (sch_other_ready ?s1) @ []) ?s1"
    using d by (simp add: ids_fresh_def)
  ultimately have "books_balanced s2 \<and> ids_fresh (map td_id (sch_other_ready s2) @ []) s2"
    using d by (intro schedule_pool_inv [OF pool]) simp_all
  moreover have "sch_realtime_ready s2 = []"
    using schedule_pool_report [OF pool] d by simp
  ultimately show ?thesis by (simp add: sched_inv_def s')
qed

lemma sched_step_inv: "sched_step C s s' \<Longrightarrow> sched_inv s \<Longrightarrow> sched_inv s'"
proof (induction rule: sched_step.induct)
  case (load s sig)
  then show ?case by (subst sched_inv_cong) (simp_all add: update_load_signal_def)
next
  case (trigger s f)
  then show ?case by (subst sched_inv_cong) (simp_all add: with_offload_trigger_def)
next
  case (router s mr)
  then show ?case by (subst sched_inv_cong) simp_all
qed (auto intro: provider_inv submit_inv cancel_inv epoch_inv freed_inv elim!: complete_cases)

lemma sched_reach_inv: "sched_reach C s \<Longrightarrow> sched_inv s"
  by (induction rule: sched_reach.induct) (auto intro: sched_inv_start sched_step_inv)

text \<open>
  Claim C21: the scheduler's books balance for disciplined clients.  In every state reached by calls
  that never submit an identifier still waiting or allocated, and that register each resource at
  most once, empty, with a capacity below the largest 32-bit value and a reservation within it: for
  every resource, what its ledger counts as allocated is exactly the sum over the allocations that
  are held and never more than the resource's capacity; a resource without a ledger is held by
  nobody; and what the fairness account of an owner says it holds is exactly the sum over its own
  allocations.
\<close>

theorem scheduler_books_balance:
  assumes "sched_reach C s"
  shows "(case query_ledger s d of
            None \<Rightarrow> allocation_sum s d = 0
          | Some l \<Rightarrow> unat (ld_allocated l) = allocation_sum s d
                     \<and> allocation_sum s d \<le> unat (ld_capacity l))
    \<and> unat (held_by s ow d) = owner_sum s ow d"
proof -
  have "ledger_balanced s d" "unat (held_by s ow d) = owner_sum s ow d"
    using sched_reach_inv [OF assms] by (simp_all add: sched_inv_def books_balanced_def)
  then show ?thesis
    by (auto simp: ledger_balanced_def query_ledger_def split: option.splits)
qed

section \<open>The real-time reservation\<close>

text \<open>No ledger is used beyond the headroom of the tasks that are not real-time.\<close>

definition reserve_free :: "ledgers \<Rightarrow> bool" where
  "reserve_free ls \<longleftrightarrow>
     (\<forall>d l. hm_get ls d = Some l \<longrightarrow>
        ld_allocated l \<le> headroom l False \<and> ld_reserved_for_realtime l \<le> ld_capacity l)"

lemma headroom_allocated [simp]: "headroom (l\<lparr>ld_allocated := x\<rparr>) r = headroom l r"
  by (simp add: headroom_def)

lemma reserve_free_add:
  assumes "reserve_free ls" "fits v ls False"
  shows "reserve_free (update_ledgers saturating_add v ls)"
  unfolding reserve_free_def
proof (intro allI impI)
  fix d l
  assume "hm_get (update_ledgers saturating_add v ls) d = Some l"
  then obtain l0 where l0: "hm_get ls d = Some l0"
    "l = l0\<lparr>ld_allocated := saturating_add (ld_allocated l0) (rv_get d v)\<rparr>" by auto
  show "ld_allocated l \<le> headroom l False \<and> ld_reserved_for_realtime l \<le> ld_capacity l"
    using assms l0 by (cases "rv_get d v = 0") (auto simp: reserve_free_def fits_iff word_le_nat_alt)
qed

lemma reserve_free_sub:
  assumes "reserve_free ls"
  shows "reserve_free (update_ledgers saturating_sub v ls)"
  unfolding reserve_free_def
proof (intro allI impI)
  fix d l
  assume "hm_get (update_ledgers saturating_sub v ls) d = Some l"
  then obtain l0 where l0: "hm_get ls d = Some l0"
    "l = l0\<lparr>ld_allocated := saturating_sub (ld_allocated l0) (rv_get d v)\<rparr>" by auto
  with assms have "ld_allocated l0 \<le> headroom l0 False" "ld_reserved_for_realtime l0 \<le> ld_capacity l0"
    by (auto simp: reserve_free_def)
  with l0(2) saturating_sub_le [of "ld_allocated l0" "rv_get d v"]
  show "ld_allocated l \<le> headroom l False \<and> ld_reserved_for_realtime l \<le> ld_capacity l"
    by (auto intro: order_trans)
qed

lemma reserve_free_dispatch:
  assumes "reserve_free (sch_ledgers s)" "dispatch_other t s = (r, s1)"
  shows "reserve_free (sch_ledgers s1)"
proof (cases rule: dispatch_other_cases [of s t])
  case (admitted v nt)
  with assms(2) have "s1 = snd (admit t v nt s)" by simp
  with assms(1) admitted(1) show ?thesis by (simp add: admit_eqs reserve_free_add)
next
  case (offloaded res nt)
  with assms show ?thesis by (auto simp: note_rationale_def)
next
  case (requeued r' s2)
  with assms show ?thesis by auto
qed

lemma reserve_free_pool:
  assumes "schedule_pool cs s = (rs, s')" "reserve_free (sch_ledgers s)"
  shows "reserve_free (sch_ledgers s')"
  using assms
proof (induction cs arbitrary: s rs rule: measure_induct_rule [of length])
  case (less cs)
  from less.prems(1) show ?case
  proof (cases rule: schedule_pool_cases)
    case empty
    with less.prems show ?thesis by simp
  next
    case (turn t ts r s1 rs1)
    have "length ts < length cs" using turn(2) by (metis size_mset size_add_mset lessI)
    from less.IH [OF this turn(4) reserve_free_dispatch [OF less.prems(2) turn(3)]] show ?thesis .
  qed
qed

definition no_realtime :: "('j, 'sig) scheduler \<Rightarrow> bool" where
  "no_realtime s \<longleftrightarrow> reserve_free (sch_ledgers s) \<and> sch_realtime_ready s = []"

lemma no_realtime_freed: "no_realtime s \<Longrightarrow> no_realtime (freed k a s)"
  by (simp add: no_realtime_def freed_def release_eqs reserve_free_sub)

lemma no_realtime_epoch:
  assumes "no_realtime s" "schedule_epoch now s = (report, s')"
  shows "no_realtime s'"
proof -
  obtain rs2 s2 where pool: "schedule_pool (sch_other_ready s) (s\<lparr>sch_realtime_ready := [], sch_other_ready := []\<rparr>)
      = (rs2, s2)" by fastforce
  have "s' = s2" using assms pool by (simp add: schedule_epoch_def no_realtime_def)
  with assms(1) reserve_free_pool [OF pool] schedule_pool_report [OF pool] show ?thesis
    by (simp add: no_realtime_def)
qed

lemma no_realtime_step:
  "sched_step C s s' \<Longrightarrow> RealTimeUI \<notin> C \<Longrightarrow> no_realtime s \<Longrightarrow> no_realtime s'"
proof (induction rule: sched_step.induct)
  case (provider l s)
  then show ?case
    by (auto simp: no_realtime_def reserve_free_def register_resource_provider_def new_provider_def)
next
  case (submit t s m now res s')
  then show ?case by (auto simp: no_realtime_def elim!: submit_cases)
next
  case (cancels k s res s')
  then show ?case by (auto simp: no_realtime_def freed_def release_eqs reserve_free_sub elim!: cancel_cases)
next
  case (completes k s res s')
  then show ?case by (auto elim!: complete_cases intro: no_realtime_freed)
next
  case (epoch now s report s')
  then show ?case by (blast intro: no_realtime_epoch)
qed (simp_all add: no_realtime_def update_load_signal_def with_offload_trigger_def)

lemma no_realtime_reach: "sched_reach C s \<Longrightarrow> RealTimeUI \<notin> C \<Longrightarrow> no_realtime s"
proof (induction rule: sched_reach.induct)
  case start
  then show ?case by (simp add: no_realtime_def reserve_free_def scheduler_new_def)
next
  case (step s s')
  then show ?case by (blast intro: no_realtime_step)
qed

lemma reserve_fits:
  assumes "reserve_free ls"
    and "\<And>d. rv_get d v \<noteq> 0 \<Longrightarrow> \<exists>l. hm_get ls d = Some l \<and> rv_get d v \<le> ld_reserved_for_realtime l"
  shows "fits v ls True"
  unfolding fits_iff
proof (intro allI impI)
  fix d
  assume "rv_get d v \<noteq> 0"
  with assms(2) obtain l where l: "hm_get ls d = Some l" "rv_get d v \<le> ld_reserved_for_realtime l" by blast
  with assms(1) have "ld_allocated l \<le> headroom l False" "ld_reserved_for_realtime l \<le> ld_capacity l"
    by (auto simp: reserve_free_def)
  then have "unat (ld_allocated l) + unat (ld_reserved_for_realtime l) \<le> unat (ld_capacity l)"
    by (simp add: headroom_def word_le_nat_alt unat_saturating_sub)
  with l show "\<exists>l. hm_get ls d = Some l
      \<and> unat (saturating_add (ld_allocated l) (rv_get d v)) \<le> unat (headroom l True)"
    by (auto simp: headroom_def unat_saturating_add word_le_nat_alt)
qed

text \<open>
  Claim C22: the reservation is kept for real-time work.  However many other tasks have been
  submitted, admitted, degraded, completed or cancelled before, a first real-time task that asks
  for no more than the reserved part of each resource is admitted by the next epoch.
\<close>

theorem realtime_reservation_kept:
  assumes "sched_reach (- {RealTimeUI}) s"
    and "td_class t = RealTimeUI" "submit_task m now t s = (Inr k, s1)"
    and "\<And>d. rv_get d (td_request t) \<noteq> 0
          \<Longrightarrow> \<exists>l. query_ledger s d = Some l \<and> rv_get d (td_request t) \<le> ld_reserved_for_realtime l"
  shows "\<exists>r report s2. schedule_epoch now s1 = (r # report, s2)
    \<and> sr_ticket r = k \<and> sr_admitted r"
proof -
  have nr: "no_realtime s" using no_realtime_reach [OF assms(1)] by simp
  from assms(3) have s1: "s1 = s\<lparr>sch_realtime_ready := [t]\<rparr>" and k: "k = td_id t"
    using assms(2) nr by (auto simp: no_realtime_def elim!: submit_cases)
  have "fits (td_request t) (sch_ledgers s) True"
    using nr assms(4) by (intro reserve_fits) (auto simp: no_realtime_def query_ledger_def)
  then have "try_admit t (sch_ledgers s) True = Some (td_request t)" by (simp add: try_admit_def)
  then show ?thesis
    by (auto simp: schedule_epoch_def s1 k admit_def note_rationale_def Let_def split: prod.split)
qed

section \<open>No task is lost\<close>

lemma drain_realtime_report:
  "drain_realtime ts s = (rs, s') \<Longrightarrow>
    map sr_ticket rs = map td_id ts \<and> sch_realtime_ready s' = sch_realtime_ready s
    \<and> sch_other_ready s' = sch_other_ready s"
proof (induction ts arbitrary: s rs)
  case Nil
  then show ?case by simp
next
  case (Cons t ts)
  obtain r s1 where step: "(case try_admit t (sch_ledgers s) True of
      Some v \<Rightarrow> admit t v ''admitted'' s | None \<Rightarrow> miss_realtime_deadline t s) = (r, s1)" by fastforce
  obtain rs' s2 where rest: "drain_realtime ts s1 = (rs', s2)" by fastforce
  from Cons.prems step rest have eq: "rs = r # rs'" "s2 = s'" by auto
  have "sr_ticket r = td_id t \<and> sch_realtime_ready s1 = sch_realtime_ready s \<and> sch_other_ready s1 = sch_other_ready s"
    using step by (auto simp: try_admit_def admit_def miss_realtime_deadline_def note_rationale_def Let_def
        split: if_splits)
  with Cons.IH [of s1 rs'] rest show ?case by (simp add: eq)
qed

text \<open>
  Claim C23: an epoch always ends and accounts for every task.  It reports first on the real-time
  tasks, by deadline, and then on the others, each submission once.  Afterwards the real-time
  queue is empty: a real-time task that was not admitted has missed its deadline and is dropped.
  Of the other tasks exactly those reported as not admitted wait on, in the order of the report and
  each with its weight raised by one step.
\<close>

theorem epoch_accounts_for_all:
  "\<exists>rts others s'. schedule_epoch now s = (rts @ others, s')
    \<and> map sr_ticket rts = map td_id (sort_key (deadline_key now) (sch_realtime_ready s))
    \<and> mset (map sr_ticket others) = mset (map td_id (sch_other_ready s))
    \<and> sch_realtime_ready s' = []
    \<and> mset (sch_other_ready s') \<subseteq># image_mset aged (mset (sch_other_ready s))
    \<and> map td_id (sch_other_ready s') = map sr_ticket (filter (\<lambda>r. \<not> sr_admitted r) others)"
proof -
  obtain rs1 s1 where drain: "drain_realtime (sort_key (deadline_key now) (sch_realtime_ready s))
      (s\<lparr>sch_realtime_ready := []\<rparr>) = (rs1, s1)" by fastforce
  obtain rs2 s2 where pool: "schedule_pool (sch_other_ready s1) (s1\<lparr>sch_other_ready := []\<rparr>) = (rs2, s2)"
    by fastforce
  note d = drain_realtime_report [OF drain]
  from schedule_pool_report [OF pool] d obtain again where p:
    "mset (map sr_ticket rs2) = mset (map td_id (sch_other_ready s))" "sch_realtime_ready s2 = []"
    "sch_other_ready s2 = map aged again" "mset again \<subseteq># mset (sch_other_ready s)"
    "map td_id again = map sr_ticket (filter (\<lambda>r. \<not> sr_admitted r) rs2)" by auto
  have ids: "map td_id (sch_other_ready s2) = map td_id again" by (simp add: p(3) comp_def)
  have "schedule_epoch now s = (rs1 @ rs2, s2)" using drain pool by (simp add: schedule_epoch_def)
  with d p ids show ?thesis
    by (intro exI [of _ rs1] exI [of _ rs2] exI [of _ s2]) (simp add: image_mset_subseteq_mono)
qed

section \<open>Reused identifiers\<close>

definition cpu_request :: "u32 \<Rightarrow> resource_vector" where
  "cpu_request n = zero_vector\<lparr>rv_cpu_shares := n\<rparr>"

definition demo_task :: "SchedClass \<Rightarrow> u32 \<Rightarrow> nat task_descriptor" where
  "demo_task c n = \<lparr>td_id = 1, td_owner_intent = 5, td_owner_agent = None, td_class = c, td_deadline = None,
     td_priority_weight = 1, td_request = cpu_request n, td_cap_token = demo_root, td_capability_ref = None,
     td_args = 0\<rparr>"

definition demo_scheduler :: "(nat, unit) scheduler" where
  "demo_scheduler = register_resource_provider (ledger_new Cpu 10 4) scheduler_new"

definition submitted :: "SchedClass \<Rightarrow> u32 \<Rightarrow> (nat, unit) scheduler \<Rightarrow> (nat, unit) scheduler" where
  "submitted c n s = snd (submit_task demo_monitor 0 (demo_task c n) s)"

lemma contains_63_EXEC [simp]: "contains 63 EXEC"
  by (simp add: contains_def EXEC_def)

lemma submit_demo:
  "submit_task demo_monitor 0 (demo_task c n) s = (Inr 1, submitted c n s)"
  "submitted BackgroundAgent n s = s\<lparr>sch_other_ready := sch_other_ready s @ [demo_task BackgroundAgent n]\<rparr>"
  "submitted RealTimeUI n s = s\<lparr>sch_realtime_ready := sch_realtime_ready s @ [demo_task RealTimeUI n]\<rparr>"
  by (simp_all add: submit_task_def submitted_def) (simp_all add: demo_task_def)

lemma rv_get_cpu_request [simp]: "rv_get d (cpu_request n) = (if d = Cpu then n else 0)"
  by (cases d) (simp_all add: cpu_request_def zero_vector_def)

lemmas demo_epoch_simps = schedule_epoch_def schedule_pool.simps dispatch_other_def try_admit_def
  admit_def note_rationale_def Let_def fits_def iter_dimensions_def ALL_dimensions_def headroom_def
  saturating_add_def saturating_sub_def update_ledgers_def hm_modify_def demo_task_def

text \<open>
  A second task admitted under an identifier that is still allocated replaces the
  allocation but not what it holds.  Completing it frees one of the two requests; the other is
  counted as allocated from then on, and no ticket is left that would free it.
\<close>

theorem duplicate_ticket_leaks:
  "let s = submitted BackgroundAgent 2 (submitted BackgroundAgent 2 demo_scheduler);
       s1 = snd (schedule_epoch 0 s);
       s2 = snd (complete 1 s1)
   in map_option ld_allocated (query_ledger s1 Cpu) = Some 4
      \<and> fst (complete 1 s1) = Inr ()
      \<and> map_option ld_allocated (query_ledger s2 Cpu) = Some 2
      \<and> sch_allocations s2 = []
      \<and> fst (complete 1 s2) = Inl NoSuchTicket \<and> fst (cancel 1 s2) = Inl NoSuchTicket"
  by (simp add: submit_demo demo_scheduler_def register_resource_provider_def ledger_new_def
      scheduler_new_def demo_epoch_simps query_ledger_def complete_def cancel_def release_def remove_by_id_def)

text \<open>
  Registering a resource a second time replaces its ledger, with what it counted: the allocations
  held so far are forgotten, and the next task is admitted although the two together exceed the
  capacity.
\<close>

lemma reregistered_ledger_overbooks:
  "let s1 = snd (schedule_epoch 0 (submitted BackgroundAgent 6 demo_scheduler));
       s2 = register_resource_provider (ledger_new Cpu 10 4) s1;
       s3 = snd (submit_task demo_monitor 0 ((demo_task BackgroundAgent 6)\<lparr>td_id := 2\<rparr>) s2);
       (report, s4) = schedule_epoch 0 s3
   in map_option ld_allocated (query_ledger s1 Cpu) = Some 6
      \<and> map_option ld_allocated (query_ledger s2 Cpu) = Some 0
      \<and> List.map sr_admitted report = [True]
      \<and> map_option ld_allocated (query_ledger s4 Cpu) = Some 6
      \<and> allocation_sum s4 Cpu = 12"
  by (simp add: submit_demo submit_task_def demo_scheduler_def register_resource_provider_def ledger_new_def
      scheduler_new_def demo_epoch_simps query_ledger_def allocation_sum_def) (simp add: cpu_request_def)

lemma demo_reach: "sched_reach C demo_scheduler"
  unfolding demo_scheduler_def
  by (intro sched_reach.step [OF sched_reach.start] sched_step.provider)
    (simp add: new_provider_def ledger_new_def scheduler_new_def)

theorem scheduler_books_balance_witness:
  "\<exists>s :: (nat, unit) scheduler. sched_reach UNIV s \<and> allocation_sum s Cpu = 2
     \<and> unat (held_by s (IntentOwner 5) Cpu) = 2"
proof -
  let ?s1 = "submitted BackgroundAgent 2 demo_scheduler"
  let ?s = "snd (schedule_epoch 0 ?s1)"
  have "sched_reach UNIV ?s1"
    by (rule sched_reach.step [OF demo_reach], rule sched_step.submit [OF _ _ submit_demo(1)])
      (simp_all add: id_in_use_def demo_scheduler_def register_resource_provider_def scheduler_new_def)
  then have r: "sched_reach UNIV ?s"
    by (rule sched_reach.step, intro sched_step.epoch) (rule prod.collapse [symmetric])
  have l: "map_option ld_allocated (query_ledger ?s Cpu) = Some 2" "owner_sum ?s (IntentOwner 5) Cpu = 2"
    by (simp_all add: submit_demo demo_scheduler_def register_resource_provider_def ledger_new_def
        scheduler_new_def demo_epoch_simps query_ledger_def owner_sum_def owner_of_def)
  from scheduler_books_balance [OF r, of Cpu "IntentOwner 5"] l r show ?thesis
    by (intro exI [of _ ?s]) auto
qed

theorem realtime_reservation_kept_witness:
  "\<exists>r report s2. schedule_epoch 0 (submitted RealTimeUI 4 demo_scheduler) = (r # report, s2)
     \<and> sr_ticket r = 1 \<and> sr_admitted r"
  by (rule realtime_reservation_kept [OF demo_reach _ submit_demo(1)])
    (auto simp: demo_task_def query_ledger_def demo_scheduler_def register_resource_provider_def
      ledger_new_def split: if_splits)

end
