(* ===== verification/Ipc.thy ===== *)
theory Ipc
  imports Capability
begin

text \<open>
  Messages between trust boundaries, \<open>crates/hyperion-ipc/src/\<close>: channels (\<open>channel.rs\<close>),
  frames (\<open>frame.rs\<close>), shared regions (\<open>region.rs\<close>) and the bus with its endpoints and
  pending replies (\<open>bus.rs\<close>).

  A queue of the standard library is an entry of \<open>ib_queues\<close>: the messages in it, whether a
  sender is left and whether its receiver is.  \<open>ipc_call\<close> blocks between sending and
  reading the reply; what the other threads do meanwhile is the argument \<open>others\<close>, a
  function on the state of the bus.
\<close>

section \<open>Frames and channels\<close>

type_synonym schema_id = u32
type_synonym operation = u32

datatype ChannelClass = Call | Notify

datatype Route = LocalRoute

definition CALL :: u8 where "CALL = 1"
definition REPLY :: u8 where "REPLY = 2"
definition NOTIFY :: u8 where "NOTIFY = 4"
definition ERROR :: u8 where "ERROR = 8"
definition HAS_REGION :: u8 where "HAS_REGION = 16"

datatype IpcFault =
    NoSuchIpcCapability | PeerUnreachable | Timeout | SchemaMismatch | Kernel Fault | HandshakeFailed

record region_descriptor =
  rg_region_cap :: capability_token
  rg_data :: "u8 list"

datatype FrameBody = Payload "u8 list" | Region region_descriptor | FaultBody Fault

record frame =
  fr_magic :: u32
  fr_version :: "16 word"
  fr_schema_id :: schema_id
  fr_flags :: u8
  fr_request_id :: u64
  fr_cap_token :: "capability_token option"
  fr_op :: operation
  fr_body :: FrameBody

definition HYIP_MAGIC :: u32 where "HYIP_MAGIC = 0x48594950"
definition WIRE_VERSION :: "16 word" where "WIRE_VERSION = 1"

record channel =
  ch_endpoint :: capability_token
  ch_schema_id :: schema_id
  ch_route :: Route
  ch_class :: ChannelClass

definition channel_open ::
    "capability_monitor \<Rightarrow> capability_token \<Rightarrow> instant \<Rightarrow> schema_id \<Rightarrow> ChannelClass
     \<Rightarrow> (IpcFault, channel) result" where
  "channel_open monitor token now schema cls =
     and_then (map_err (\<lambda>_. NoSuchIpcCapability) (check_rights_ok_result monitor token WRITE now))
       (\<lambda>_. Inr \<lparr>ch_endpoint = token, ch_schema_id = schema, ch_route = LocalRoute, ch_class = cls\<rparr>)"

definition region_share :: "capability_token \<Rightarrow> u8 list \<Rightarrow> region_descriptor" where
  "region_share token buf = \<lparr>rg_region_cap = token, rg_data = buf\<rparr>"

definition region_map ::
    "capability_monitor \<Rightarrow> region_descriptor \<Rightarrow> u32 \<Rightarrow> instant \<Rightarrow> (IpcFault, u8 list) result" where
  "region_map monitor desc required now =
     and_then (map_err Kernel (check_rights_ok_result monitor (rg_region_cap desc) required now))
       (\<lambda>_. Inr (rg_data desc))"

definition region_len :: "region_descriptor \<Rightarrow> nat" where
  "region_len desc = length (rg_data desc)"

definition region_is_empty :: "region_descriptor \<Rightarrow> bool" where
  "region_is_empty desc \<longleftrightarrow> rg_data desc = []"

section \<open>The bus\<close>

text \<open>The sending half of a queue lives in the map of endpoints; the receiving half with its owner.\<close>

type_synonym queue_id = nat

record queue =
  q_messages :: "frame list"
  q_sender :: bool
  q_receiver :: bool

text \<open>A pending reply has its one-place channel in \<open>ib_replies\<close> once the reply is sent.\<close>

record ipc_bus =
  ib_endpoints :: "(object_id, queue_id) hashmap"
  ib_pending_replies :: "u64 list"
  ib_next_request_id :: u64
  ib_queues :: "(queue_id, queue) hashmap"
  ib_replies :: "(u64, frame) hashmap"

definition ipc_bus_new :: ipc_bus where
  "ipc_bus_new = \<lparr>ib_endpoints = [], ib_pending_replies = [], ib_next_request_id = 0,
     ib_queues = [], ib_replies = []\<rparr>"

definition drop_sender :: "object_id \<Rightarrow> ipc_bus \<Rightarrow> ipc_bus" where
  "drop_sender object_id b =
     (case hm_get (ib_endpoints b) object_id of
        None \<Rightarrow> b
      | Some q \<Rightarrow> b\<lparr>ib_queues := hm_modify q (\<lambda>x. x\<lparr>q_sender := False\<rparr>) (ib_queues b)\<rparr>)"

definition create_endpoint :: "object_id \<Rightarrow> ipc_bus \<Rightarrow> queue_id \<times> ipc_bus" where
  "create_endpoint object_id b =
     (let rx = length (ib_queues b);
          b1 = drop_sender object_id b
      in (rx, b1\<lparr>ib_endpoints := hm_insert object_id rx (ib_endpoints b1),
                 ib_queues := hm_insert rx \<lparr>q_messages = [], q_sender = True, q_receiver = True\<rparr>
                                (ib_queues b1)\<rparr>))"

definition close_endpoint :: "object_id \<Rightarrow> ipc_bus \<Rightarrow> ipc_bus" where
  "close_endpoint object_id b =
     (drop_sender object_id b)\<lparr>ib_endpoints := hm_remove object_id (ib_endpoints b)\<rparr>"

definition drop_receiver :: "queue_id \<Rightarrow> ipc_bus \<Rightarrow> ipc_bus" where
  "drop_receiver q b = b\<lparr>ib_queues := hm_modify q (\<lambda>x. x\<lparr>q_receiver := False\<rparr>) (ib_queues b)\<rparr>"

definition ipc_send :: "object_id \<Rightarrow> frame \<Rightarrow> ipc_bus \<Rightarrow> (IpcFault, unit) result \<times> ipc_bus" where
  "ipc_send object_id fr b =
     (case hm_get (ib_endpoints b) object_id of
        None \<Rightarrow> (Inl PeerUnreachable, b)
      | Some q \<Rightarrow>
          (case hm_get (ib_queues b) q of
             None \<Rightarrow> (Inl PeerUnreachable, b)
           | Some x \<Rightarrow>
               if q_receiver x
               then (Inr (), b\<lparr>ib_queues := hm_insert q (x\<lparr>q_messages := q_messages x @ [fr]\<rparr>) (ib_queues b)\<rparr>)
               else (Inl PeerUnreachable, b)))"

definition call_frame :: "channel \<Rightarrow> u64 \<Rightarrow> operation \<Rightarrow> u8 list \<Rightarrow> frame" where
  "call_frame chan request_id op payload =
     \<lparr>fr_magic = HYIP_MAGIC, fr_version = WIRE_VERSION, fr_schema_id = ch_schema_id chan,
      fr_flags = CALL, fr_request_id = request_id, fr_cap_token = Some (ch_endpoint chan),
      fr_op = op, fr_body = Payload payload\<rparr>"

text \<open>The first half of \<open>ipc_call\<close>: the number of the request, once its frame is queued.\<close>

definition call_send ::
    "channel \<Rightarrow> operation \<Rightarrow> u8 list \<Rightarrow> ipc_bus \<Rightarrow> (IpcFault, u64) result \<times> ipc_bus" where
  "call_send chan op payload b =
     (let request_id = ib_next_request_id b;
          b1 = b\<lparr>ib_next_request_id := request_id + 1,
                 ib_pending_replies := List.insert request_id (ib_pending_replies b)\<rparr>
      in case ipc_send (ct_object_id (ch_endpoint chan)) (call_frame chan request_id op payload) b1 of
           (Inl e, b2) \<Rightarrow> (Inl e, b2\<lparr>ib_pending_replies := removeAll request_id (ib_pending_replies b2)\<rparr>)
         | (Inr _, b2) \<Rightarrow> (Inr request_id, b2))"

text \<open>The second half: the reply, if one is there before the timeout.\<close>

definition call_wait :: "u64 \<Rightarrow> ipc_bus \<Rightarrow> (IpcFault, u8 list) result \<times> ipc_bus" where
  "call_wait request_id b =
     (case hm_get (ib_replies b) request_id of
        Some reply \<Rightarrow>
          ((case fr_body reply of
              Payload payload \<Rightarrow> Inr payload
            | FaultBody fault \<Rightarrow> Inl (Kernel fault)
            | Region _ \<Rightarrow> Inl SchemaMismatch),
           b\<lparr>ib_replies := hm_remove request_id (ib_replies b)\<rparr>)
      | None \<Rightarrow>
          (Inl Timeout, b\<lparr>ib_pending_replies := removeAll request_id (ib_pending_replies b)\<rparr>))"

definition ipc_call ::
    "(ipc_bus \<Rightarrow> ipc_bus) \<Rightarrow> channel \<Rightarrow> operation \<Rightarrow> u8 list \<Rightarrow> ipc_bus
     \<Rightarrow> (IpcFault, u8 list) result \<times> ipc_bus" where
  "ipc_call others chan op payload b =
     (case call_send chan op payload b of
        (Inl e, b1) \<Rightarrow> (Inl e, b1)
      | (Inr request_id, b1) \<Rightarrow> call_wait request_id (others b1))"

definition ipc_notify ::
    "channel \<Rightarrow> operation \<Rightarrow> u8 list \<Rightarrow> ipc_bus \<Rightarrow> (IpcFault, unit) result \<times> ipc_bus" where
  "ipc_notify chan op payload b =
     ipc_send (ct_object_id (ch_endpoint chan))
       ((call_frame chan 0 op payload)\<lparr>fr_flags := NOTIFY\<rparr>) b"

text \<open>A receive that would block is the value None.\<close>

definition recv_raw :: "queue_id \<Rightarrow> ipc_bus \<Rightarrow> ((IpcFault, frame) result \<times> ipc_bus) option" where
  "recv_raw rx b =
     (case hm_get (ib_queues b) rx of
        None \<Rightarrow> Some (Inl PeerUnreachable, b)
      | Some x \<Rightarrow>
          (case q_messages x of
             fr # rest \<Rightarrow>
               Some (Inr fr, b\<lparr>ib_queues := hm_insert rx (x\<lparr>q_messages := rest\<rparr>) (ib_queues b)\<rparr>)
           | [] \<Rightarrow> if q_sender x then None else Some (Inl PeerUnreachable, b)))"

definition send_reply :: "u64 \<Rightarrow> u8 \<Rightarrow> FrameBody \<Rightarrow> ipc_bus \<Rightarrow> (IpcFault, unit) result \<times> ipc_bus" where
  "send_reply request_id flags body b =
     (if \<not> List.member (ib_pending_replies b) request_id then (Inl PeerUnreachable, b)
      else (Inr (),
        b\<lparr>ib_pending_replies := removeAll request_id (ib_pending_replies b),
          ib_replies := hm_insert request_id
            \<lparr>fr_magic = HYIP_MAGIC, fr_version = WIRE_VERSION, fr_schema_id = 0, fr_flags = flags,
             fr_request_id = request_id, fr_cap_token = None, fr_op = 0, fr_body = body\<rparr>
            (ib_replies b)\<rparr>))"

definition reply :: "u64 \<Rightarrow> u8 list \<Rightarrow> ipc_bus \<Rightarrow> (IpcFault, unit) result \<times> ipc_bus" where
  "reply request_id payload b = send_reply request_id REPLY (Payload payload) b"

definition reply_fault :: "u64 \<Rightarrow> Fault \<Rightarrow> ipc_bus \<Rightarrow> (IpcFault, unit) result \<times> ipc_bus" where
  "reply_fault request_id fault b = send_reply request_id (REPLY OR ERROR) (FaultBody fault) b"

record authenticated_call =
  ac_request_id :: u64
  ac_op :: operation
  ac_body :: FrameBody
  ac_is_call :: bool

definition reject :: "frame \<Rightarrow> Fault \<Rightarrow> ipc_bus \<Rightarrow> (IpcFault, authenticated_call) result \<times> ipc_bus" where
  "reject fr fault b =
     (Inl (Kernel fault),
      if fr_flags fr AND CALL = CALL then snd (reply_fault (fr_request_id fr) fault b) else b)"

definition authenticate ::
    "frame \<Rightarrow> capability_monitor \<Rightarrow> u32 \<Rightarrow> instant \<Rightarrow> ipc_bus
     \<Rightarrow> (IpcFault, authenticated_call) result \<times> ipc_bus" where
  "authenticate fr monitor required now b =
     (case fr_cap_token fr of
        None \<Rightarrow> reject fr InsufficientRights b
      | Some cap_token \<Rightarrow>
          (case check_rights_ok_result monitor cap_token required now of
             Inl fault \<Rightarrow> reject fr fault b
           | Inr _ \<Rightarrow>
               (Inr \<lparr>ac_request_id = fr_request_id fr, ac_op = fr_op fr, ac_body = fr_body fr,
                     ac_is_call = (fr_flags fr AND CALL = CALL)\<rparr>, b)))"

definition recv_authenticated ::
    "queue_id \<Rightarrow> capability_monitor \<Rightarrow> u32 \<Rightarrow> instant \<Rightarrow> ipc_bus
     \<Rightarrow> ((IpcFault, authenticated_call) result \<times> ipc_bus) option" where
  "recv_authenticated rx monitor required now b =
     map_option (\<lambda>(res, b1).
        case res of Inl e \<Rightarrow> (Inl e, b1) | Inr fr \<Rightarrow> authenticate fr monitor required now b1)
       (recv_raw rx b)"

section \<open>Frames come from open channels\<close>

text \<open>
  A run of the bus, with its history: the channels that \<open>channel_open\<close> returned, what was sent
  through them, and the endpoint object each queue was created for.
\<close>

datatype sent =
    SentCall (sent_by: channel) (sent_id: u64) (sent_op: operation) (sent_payload: "u8 list")
  | SentNotify (sent_by: channel) (sent_op: operation) (sent_payload: "u8 list")

fun sent_frame :: "sent \<Rightarrow> frame" where
  "sent_frame (SentCall chan i op payload) = call_frame chan i op payload"
| "sent_frame (SentNotify chan op payload) = (call_frame chan 0 op payload)\<lparr>fr_flags := NOTIFY\<rparr>"

record ipc_state =
  is_bus :: ipc_bus
  is_opened :: "channel set"
  is_sent :: "sent set"
  is_owner :: "queue_id \<Rightarrow> object_id"

inductive ipc_step :: "ipc_state \<Rightarrow> ipc_state \<Rightarrow> bool" where
  opens: "channel_open m t now schema cls = Inr chan
    \<Longrightarrow> ipc_step s (s\<lparr>is_opened := insert chan (is_opened s)\<rparr>)"
| creates: "create_endpoint ob (is_bus s) = (q, b)
    \<Longrightarrow> ipc_step s (s\<lparr>is_bus := b, is_owner := (is_owner s)(q := ob)\<rparr>)"
| closes: "ipc_step s (s\<lparr>is_bus := close_endpoint ob (is_bus s)\<rparr>)"
| drops: "ipc_step s (s\<lparr>is_bus := drop_receiver q (is_bus s)\<rparr>)"
| sends: "chan \<in> is_opened s \<Longrightarrow> call_send chan op payload (is_bus s) = (Inr i, b)
    \<Longrightarrow> ipc_step s (s\<lparr>is_bus := b, is_sent := insert (SentCall chan i op payload) (is_sent s)\<rparr>)"
| send_fails: "chan \<in> is_opened s \<Longrightarrow> call_send chan op payload (is_bus s) = (Inl e, b)
    \<Longrightarrow> ipc_step s (s\<lparr>is_bus := b\<rparr>)"
| notifies: "chan \<in> is_opened s \<Longrightarrow> ipc_notify chan op payload (is_bus s) = (Inr u, b)
    \<Longrightarrow> ipc_step s (s\<lparr>is_bus := b, is_sent := insert (SentNotify chan op payload) (is_sent s)\<rparr>)"
| notify_fails: "chan \<in> is_opened s \<Longrightarrow> ipc_notify chan op payload (is_bus s) = (Inl e, b)
    \<Longrightarrow> ipc_step s (s\<lparr>is_bus := b\<rparr>)"
| receives: "recv_authenticated q m required now (is_bus s) = Some (res3, b)
    \<Longrightarrow> ipc_step s (s\<lparr>is_bus := b\<rparr>)"
| takes: "recv_raw q (is_bus s) = Some (res5, b) \<Longrightarrow> ipc_step s (s\<lparr>is_bus := b\<rparr>)"
| replies: "send_reply i flags body (is_bus s) = (res2, b) \<Longrightarrow> ipc_step s (s\<lparr>is_bus := b\<rparr>)"
| waits: "call_wait i (is_bus s) = (res4, b) \<Longrightarrow> ipc_step s (s\<lparr>is_bus := b\<rparr>)"

inductive ipc_reach :: "ipc_state \<Rightarrow> bool" where
  start: "ipc_reach \<lparr>is_bus = ipc_bus_new, is_opened = {}, is_sent = {}, is_owner = (\<lambda>_. 0)\<rparr>"
| step: "ipc_reach s \<Longrightarrow> ipc_step s s' \<Longrightarrow> ipc_reach s'"

text \<open>Every queued frame is the frame of something sent to the queue's own endpoint.\<close>

definition frame_genuine :: "sent set \<Rightarrow> object_id \<Rightarrow> frame \<Rightarrow> bool" where
  "frame_genuine sents ob fr \<longleftrightarrow>
     (\<exists>x \<in> sents. fr = sent_frame x \<and> ct_object_id (ch_endpoint (sent_by x)) = ob)"

definition queues_genuine :: "sent set \<Rightarrow> (queue_id \<Rightarrow> object_id) \<Rightarrow> ipc_bus \<Rightarrow> bool" where
  "queues_genuine sents owner b \<longleftrightarrow>
     map fst (ib_queues b) = [0..<length (ib_queues b)]
     \<and> (\<forall>ob q. hm_get (ib_endpoints b) ob = Some q \<longrightarrow> q < length (ib_queues b) \<and> owner q = ob)
     \<and> (\<forall>q x. hm_get (ib_queues b) q = Some x \<longrightarrow> (\<forall>fr \<in> set (q_messages x). frame_genuine sents (owner q) fr))"

lemma queue_key: "map fst qs = [0..<length qs] \<Longrightarrow> hm_get qs q = Some x \<Longrightarrow> q < length qs"
  using map_of_SomeD [of qs q x] by (metis atLeastLessThan_iff fst_conv image_eqI set_map set_upt)

lemma queue_update:
  assumes "map fst qs = [0..<length qs]" "q < length qs"
  shows "map fst (hm_insert q x qs) = [0..<length qs]" "length (hm_insert q x qs) = length qs"
proof -
  have "q \<in> fst ` set qs" using assms by (metis atLeastLessThan_iff le0 set_map set_upt)
  then show keys: "map fst (hm_insert q x qs) = [0..<length qs]" using assms by (simp add: update_keys)
  show "length (hm_insert q x qs) = length qs"
    using arg_cong [OF keys, of length] by simp
qed

lemma queue_append:
  assumes "map fst qs = [0..<length qs]"
  shows "map fst (hm_insert (length qs) x qs) = [0..<Suc (length qs)]"
    and "length (hm_insert (length qs) x qs) = Suc (length qs)"
proof -
  have "length qs \<notin> fst ` set qs" using assms by (metis atLeastLessThan_iff less_irrefl set_map set_upt)
  then show keys: "map fst (hm_insert (length qs) x qs) = [0..<Suc (length qs)]"
    by (simp add: update_keys assms)
  show "length (hm_insert (length qs) x qs) = Suc (length qs)"
    using arg_cong [OF keys, of length] by simp
qed

text \<open>Replacing the messages of a queue by genuine ones, or its two flags, keeps this.\<close>

lemma queues_genuine_update:
  assumes "queues_genuine sents owner b" "hm_get (ib_queues b) q = Some x"
    "\<forall>fr \<in> set (q_messages y). frame_genuine sents (owner q) fr"
  shows "queues_genuine sents owner (b\<lparr>ib_queues := hm_insert q y (ib_queues b)\<rparr>)"
proof -
  have keys: "map fst (ib_queues b) = [0..<length (ib_queues b)]"
    using assms(1) by (simp add: queues_genuine_def)
  note q = queue_key [OF keys assms(2)]
  show ?thesis
    using assms queue_update [OF keys q] by (auto simp: queues_genuine_def)
qed

lemma queues_genuine_modify:
  assumes "queues_genuine sents owner b" "\<And>x. q_messages (f x) = q_messages x"
  shows "queues_genuine sents owner (b\<lparr>ib_queues := hm_modify q f (ib_queues b)\<rparr>)"
proof (cases "hm_get (ib_queues b) q")
  case None
  with assms(1) show ?thesis by (simp add: hm_modify_def)
next
  case (Some x)
  have "\<forall>fr \<in> set (q_messages (f x)). frame_genuine sents (owner q) fr"
    using assms Some by (simp add: queues_genuine_def)
  from queues_genuine_update [OF assms(1) Some this] Some show ?thesis
    by (simp add: hm_modify_def)
qed

lemma queues_genuine_cong:
  "ib_queues b = ib_queues b' \<Longrightarrow> ib_endpoints b = ib_endpoints b'
   \<Longrightarrow> queues_genuine sents owner b = queues_genuine sents owner b'"
  by (simp add: queues_genuine_def)

lemma frame_genuine_mono: "frame_genuine sents ob fr \<Longrightarrow> sents \<subseteq> sents' \<Longrightarrow> frame_genuine sents' ob fr"
  by (auto simp: frame_genuine_def)

lemma drop_sender_genuine:
  "queues_genuine sents owner b \<Longrightarrow> queues_genuine sents owner (drop_sender ob b)"
  by (auto simp: drop_sender_def intro!: queues_genuine_modify split: option.split)

lemma drop_sender_endpoints [simp]: "ib_endpoints (drop_sender ob b) = ib_endpoints b"
  by (simp add: drop_sender_def split: option.split)

lemma drop_sender_length:
  "map fst (ib_queues b) = [0..<length (ib_queues b)]
   \<Longrightarrow> length (ib_queues (drop_sender ob b)) = length (ib_queues b)"
  by (auto simp: drop_sender_def hm_modify_def queue_update queue_key split: option.split)

lemma create_endpoint_genuine:
  assumes "queues_genuine sents owner b" "create_endpoint ob b = (q, b')"
  shows "queues_genuine sents (owner(q := ob)) b'"
proof -
  let ?b = "drop_sender ob b"
  have keys: "map fst (ib_queues b) = [0..<length (ib_queues b)]"
    using assms(1) by (simp add: queues_genuine_def)
  have g: "queues_genuine sents owner ?b" by (rule drop_sender_genuine [OF assms(1)])
  from assms(2) have q: "q = length (ib_queues ?b)" and
    b': "b' = ?b\<lparr>ib_endpoints := hm_insert ob q (ib_endpoints ?b),
        ib_queues := hm_insert q \<lparr>q_messages = [], q_sender = True, q_receiver = True\<rparr> (ib_queues ?b)\<rparr>"
    by (auto simp: create_endpoint_def Let_def drop_sender_length [OF keys])
  have keys': "map fst (ib_queues ?b) = [0..<length (ib_queues ?b)]"
    using g by (simp add: queues_genuine_def)
  have other: "p \<noteq> q" if "hm_get (ib_queues ?b) p = Some x" for p x
    using queue_key [OF keys' that] q by simp
  show ?thesis
    unfolding queues_genuine_def
  proof (intro conjI allI impI)
    show "map fst (ib_queues b') = [0..<length (ib_queues b')]"
      by (simp add: b' q queue_append [OF keys'])
    show "p < length (ib_queues b')" "(owner(q := ob)) p = ob'"
      if "hm_get (ib_endpoints b') ob' = Some p" for ob' p
      using that g q unfolding queues_genuine_def
      by (auto simp: b' queue_append [OF keys'] less_Suc_eq split: if_splits)
    show "\<forall>fr \<in> set (q_messages x). frame_genuine sents ((owner(q := ob)) p) fr"
      if "hm_get (ib_queues b') p = Some x" for p x
      using that g other unfolding queues_genuine_def by (auto simp: b' split: if_splits)
  qed
qed

lemma ipc_send_genuine:
  assumes "queues_genuine sents owner b" "frame_genuine sents ob fr" "ipc_send ob fr b = (res, b')"
  shows "queues_genuine sents owner b'"
proof (cases "b' = b")
  case True
  with assms(1) show ?thesis by simp
next
  case False
  with assms(3) obtain q x where q: "hm_get (ib_endpoints b) ob = Some q" "hm_get (ib_queues b) q = Some x"
    "b' = b\<lparr>ib_queues := hm_insert q (x\<lparr>q_messages := q_messages x @ [fr]\<rparr>) (ib_queues b)\<rparr>"
    by (auto simp: ipc_send_def split: option.splits if_splits)
  have "owner q = ob" using assms(1) q(1) by (auto simp: queues_genuine_def)
  moreover have "\<forall>f \<in> set (q_messages x). frame_genuine sents (owner q) f"
    using assms(1) q(2) by (simp add: queues_genuine_def)
  ultimately show ?thesis
    unfolding q(3) using assms(1,2) q(2) by (intro queues_genuine_update) auto
qed

lemma send_reply_queues [simp]:
  "ib_queues (snd (send_reply i flags body b)) = ib_queues b"
  "ib_endpoints (snd (send_reply i flags body b)) = ib_endpoints b"
  by (simp_all add: send_reply_def)

lemma authenticate_queues:
  "ib_queues (snd (authenticate fr m required now b)) = ib_queues b"
  "ib_endpoints (snd (authenticate fr m required now b)) = ib_endpoints b"
  by (auto simp: authenticate_def reject_def reply_fault_def split: option.split sum.split)

lemma recv_raw_Inr:
  assumes "recv_raw q b = Some (Inr fr, b')"
  obtains x rest where "hm_get (ib_queues b) q = Some x" "q_messages x = fr # rest"
    "b' = b\<lparr>ib_queues := hm_insert q (x\<lparr>q_messages := rest\<rparr>) (ib_queues b)\<rparr>"
  using assms by (auto simp: recv_raw_def split: option.splits list.splits if_splits)

lemma recv_raw_Inl: "recv_raw q b = Some (Inl e, b') \<Longrightarrow> b' = b"
  by (auto simp: recv_raw_def split: option.splits list.splits if_splits)

lemma recv_raw_genuine:
  assumes "queues_genuine sents owner b" "recv_raw q b = Some (Inr fr, b')"
  shows "queues_genuine sents owner b' \<and> frame_genuine sents (owner q) fr"
proof -
  from assms(2) obtain x rest where x: "hm_get (ib_queues b) q = Some x" "q_messages x = fr # rest"
    "b' = b\<lparr>ib_queues := hm_insert q (x\<lparr>q_messages := rest\<rparr>) (ib_queues b)\<rparr>" by (rule recv_raw_Inr)
  have "\<forall>f \<in> set (q_messages x). frame_genuine sents (owner q) f"
    using assms(1) x(1) by (simp add: queues_genuine_def)
  with assms(1) x(1,2) show ?thesis
    unfolding x(3) by (auto intro!: queues_genuine_update)
qed

lemma recv_authenticated_cases:
  assumes "recv_authenticated q m required now b = Some (res, b')"
  obtains (failed) e where "recv_raw q b = Some (Inl e, b')" "res = Inl e"
  | (got) fr b1 where "recv_raw q b = Some (Inr fr, b1)" "authenticate fr m required now b1 = (res, b')"
proof -
  from assms obtain r b1 where r: "recv_raw q b = Some (r, b1)"
    "(case r of Inl e \<Rightarrow> (Inl e, b1) | Inr fr \<Rightarrow> authenticate fr m required now b1) = (res, b')"
    by (auto simp: recv_authenticated_def)
  with that show thesis by (cases r) auto
qed

lemma recv_authenticated_genuine:
  assumes "queues_genuine sents owner b" "recv_authenticated q m required now b = Some (res, b')"
  shows "queues_genuine sents owner b'"
  using assms(2)
proof (cases rule: recv_authenticated_cases)
  case (failed e)
  with assms(1) recv_raw_Inl show ?thesis by metis
next
  case (got fr b1)
  have "ib_queues b' = ib_queues b1" "ib_endpoints b' = ib_endpoints b1"
    using got(2) authenticate_queues [of fr m required now b1] by simp_all
  with recv_raw_genuine [OF assms(1) got(1)] queues_genuine_cong [of b' b1] show ?thesis by blast
qed

text \<open>A call that fails has queued nothing; one that succeeds has queued the frame of its number.\<close>

lemma ipc_send_Inl: "ipc_send ob fr b = (Inl e, b') \<Longrightarrow> b' = b"
  by (auto simp: ipc_send_def split: option.splits if_splits)

lemma call_send_frame_cases:
  assumes "call_send chan op payload b = (res, b')"
  obtains (failed) e where "res = Inl e" "ib_queues b' = ib_queues b" "ib_endpoints b' = ib_endpoints b"
  | (queued) b1 where "res = Inr (ib_next_request_id b)" "ib_queues b1 = ib_queues b" "ib_endpoints b1 = ib_endpoints b"
      "ipc_send (ct_object_id (ch_endpoint chan)) (call_frame chan (ib_next_request_id b) op payload) b1 = (Inr (), b')"
proof -
  let ?i = "ib_next_request_id b"
  let ?b1 = "b\<lparr>ib_next_request_id := ?i + 1,
    ib_pending_replies := List.insert ?i (ib_pending_replies b)\<rparr>"
  obtain r b2 where s: "ipc_send (ct_object_id (ch_endpoint chan)) (call_frame chan ?i op payload) ?b1 = (r, b2)"
    by fastforce
  show thesis
  proof (cases r)
    case (Inl e)
    with s have "b2 = ?b1" using ipc_send_Inl by blast
    with Inl s assms show thesis by (intro failed [of e]) (auto simp: call_send_def Let_def)
  next
    case (Inr u)
    with s assms show thesis by (intro queued [of ?b1]) (auto simp: call_send_def Let_def)
  qed
qed

lemma queues_genuine_mono:
  "queues_genuine sents owner b \<Longrightarrow> sents \<subseteq> sents' \<Longrightarrow> queues_genuine sents' owner b"
  unfolding queues_genuine_def by (meson frame_genuine_mono)

lemma call_send_genuine:
  assumes "queues_genuine sents owner b" "call_send chan op payload b = (Inr i, b')"
  shows "queues_genuine (insert (SentCall chan i op payload) sents) owner b'"
  using assms(2)
proof (cases rule: call_send_frame_cases)
  case (queued b1)
  let ?S = "insert (SentCall chan i op payload) sents"
  have "queues_genuine ?S owner b1"
    using queues_genuine_mono [OF assms(1), of ?S] queued(2,3) queues_genuine_cong [of b1 b] by auto
  moreover have "frame_genuine ?S (ct_object_id (ch_endpoint chan)) (call_frame chan i op payload)"
    by (auto simp: frame_genuine_def)
  ultimately show ?thesis using queued(1,4) by (auto intro: ipc_send_genuine)
qed simp

lemma call_send_failed_genuine:
  assumes "queues_genuine sents owner b" "call_send chan op payload b = (Inl e, b')"
  shows "queues_genuine sents owner b'"
  using assms(2) by (cases rule: call_send_frame_cases) (use assms(1) queues_genuine_cong [of b' b] in auto)

lemma notify_genuine:
  assumes "queues_genuine sents owner b" "ipc_notify chan op payload b = (res, b')"
  shows "queues_genuine (insert (SentNotify chan op payload) sents) owner b'"
  using assms(2) queues_genuine_mono [OF assms(1) subset_insertI]
  by (auto simp: ipc_notify_def frame_genuine_def elim!: ipc_send_genuine [rotated 2])

lemma notify_failed_genuine:
  assumes "queues_genuine sents owner b" "ipc_notify chan op payload b = (Inl e, b')"
  shows "queues_genuine sents owner b'"
  using assms by (auto simp: ipc_notify_def dest: ipc_send_Inl)

lemma takes_genuine:
  assumes "queues_genuine sents owner b" "recv_raw q b = Some (res, b')"
  shows "queues_genuine sents owner b'"
  using assms recv_raw_genuine recv_raw_Inl by (cases res) blast+

lemma close_endpoint_genuine:
  assumes "queues_genuine sents owner b"
  shows "queues_genuine sents owner (close_endpoint ob b)"
  using drop_sender_genuine [OF assms, of ob]
  by (auto simp: close_endpoint_def queues_genuine_def split: if_splits)

definition ipc_inv :: "ipc_state \<Rightarrow> bool" where
  "ipc_inv s \<longleftrightarrow> queues_genuine (is_sent s) (is_owner s) (is_bus s) \<and> sent_by ` is_sent s \<subseteq> is_opened s"

lemma ipc_step_inv: "ipc_step s s' \<Longrightarrow> ipc_inv s \<Longrightarrow> ipc_inv s'"
proof (induction rule: ipc_step.induct)
  case (replies i flags body s res2 b)
  then have "ib_queues b = ib_queues (is_bus s)" "ib_endpoints b = ib_endpoints (is_bus s)"
    by (metis send_reply_queues snd_conv)+
  with replies show ?case using queues_genuine_cong [of b "is_bus s"] by (simp add: ipc_inv_def)
next
  case (waits i s res4 b)
  then have "ib_queues b = ib_queues (is_bus s)" "ib_endpoints b = ib_endpoints (is_bus s)"
    by (auto simp: call_wait_def split: option.splits)
  with waits show ?case using queues_genuine_cong [of b "is_bus s"] by (simp add: ipc_inv_def)
qed (auto simp: ipc_inv_def drop_receiver_def
    intro: create_endpoint_genuine close_endpoint_genuine queues_genuine_modify call_send_genuine
      call_send_failed_genuine notify_genuine notify_failed_genuine recv_authenticated_genuine takes_genuine)

lemma ipc_reach_inv: "ipc_reach s \<Longrightarrow> ipc_inv s"
proof (induction rule: ipc_reach.induct)
  case start
  then show ?case by (simp add: ipc_inv_def queues_genuine_def ipc_bus_new_def)
next
  case (step s s')
  then show ?case by (blast intro: ipc_step_inv)
qed

lemma authenticate_Inr:
  assumes "authenticate fr m required now b = (Inr c, b')"
  shows "b' = b"
    "c = \<lparr>ac_request_id = fr_request_id fr, ac_op = fr_op fr, ac_body = fr_body fr,
          ac_is_call = (fr_flags fr AND CALL = CALL)\<rparr>"
    "\<exists>t. fr_cap_token fr = Some t \<and> check_rights_ok m t required now"
  using assms
  by (auto simp: authenticate_def reject_def check_rights_ok_def is_ok_iff split: option.splits sum.splits)

text \<open>What a receiver reads off the frame of something sent.\<close>

lemma sent_frame_simps:
  "fr_cap_token (sent_frame x) = Some (ch_endpoint (sent_by x))"
  "fr_schema_id (sent_frame x) = ch_schema_id (sent_by x)"
  "fr_op (sent_frame x) = sent_op x" "fr_body (sent_frame x) = Payload (sent_payload x)"
  "fr_request_id (sent_frame x) = (if is_SentCall x then sent_id x else 0)"
  "fr_flags (sent_frame x) AND CALL = CALL \<longleftrightarrow> is_SentCall x"
  by (cases x; simp add: call_frame_def CALL_def NOTIFY_def)+

text \<open>
  Claim C24: a server acts on the caller's authority only.  In every reachable state of the bus, a
  call that a server takes off a queue and accepts is something that was sent: through a channel
  that \<open>channel_open\<close> returned, whose token is for the very endpoint the queue was created for.
  The frame taken off the queue carries that channel's token and schema; the accepted call has the
  operation, the payload and (for a call that waits for a reply, and only there) the request number of
  that sending; and that token passes the server's own check, for the rights the server asks for, at
  the moment of acceptance.
\<close>

theorem authenticated_call_genuine:
  assumes "ipc_reach s" "recv_authenticated q m required now (is_bus s) = Some (Inr c, b')"
  shows "\<exists>x \<in> is_sent s. sent_by x \<in> is_opened s
    \<and> ct_object_id (ch_endpoint (sent_by x)) = is_owner s q
    \<and> (\<exists>fr. recv_raw q (is_bus s) = Some (Inr fr, b')
         \<and> fr_cap_token fr = Some (ch_endpoint (sent_by x)) \<and> fr_schema_id fr = ch_schema_id (sent_by x))
    \<and> check_rights_ok m (ch_endpoint (sent_by x)) required now
    \<and> c = \<lparr>ac_request_id = (if is_SentCall x then sent_id x else 0), ac_op = sent_op x,
           ac_body = Payload (sent_payload x), ac_is_call = is_SentCall x\<rparr>"
  using assms(2)
proof (cases rule: recv_authenticated_cases)
  case (failed e)
  then show ?thesis by simp
next
  case (got fr b1)
  note inv = ipc_reach_inv [OF assms(1), unfolded ipc_inv_def]
  from recv_raw_genuine [OF conjunct1 [OF inv] got(1)] obtain x where x: "x \<in> is_sent s"
    "fr = sent_frame x" "ct_object_id (ch_endpoint (sent_by x)) = is_owner s q" by (auto simp: frame_genuine_def)
  note a = authenticate_Inr [OF got(2)]
  have "sent_by x \<in> is_opened s" using inv x(1) by auto
  with x a got(1) show ?thesis by (intro bexI [OF _ x(1)]) (auto simp: sent_frame_simps)
qed

section \<open>Replies\<close>

text \<open>What the threads of a process do to the bus, one step after another.\<close>

datatype ipc_event =
    Create_event object_id
  | Close_event object_id
  | Drop_event queue_id
  | Send_event channel operation "u8 list"
  | Notify_event channel operation "u8 list"
  | Recv_event queue_id
  | Reply_event u64 "u8 list"
  | Fault_event u64 Fault
  | Wait_event u64

fun bus_step :: "ipc_event \<Rightarrow> ipc_bus \<Rightarrow> ipc_bus" where
  "bus_step (Create_event ob) b = snd (create_endpoint ob b)"
| "bus_step (Close_event ob) b = close_endpoint ob b"
| "bus_step (Drop_event q) b = drop_receiver q b"
| "bus_step (Send_event chan op payload) b = snd (call_send chan op payload b)"
| "bus_step (Notify_event chan op payload) b = snd (ipc_notify chan op payload b)"
| "bus_step (Recv_event q) b = (case recv_raw q b of None \<Rightarrow> b | Some (_, b') \<Rightarrow> b')"
| "bus_step (Reply_event i payload) b = snd (reply i payload b)"
| "bus_step (Fault_event i f) b = snd (reply_fault i f b)"
| "bus_step (Wait_event i) b = snd (call_wait i b)"

fun is_send :: "ipc_event \<Rightarrow> bool" where
  "is_send (Send_event _ _ _) = True"
| "is_send _ = False"

fun answers :: "u64 \<Rightarrow> ipc_event \<Rightarrow> bool" where
  "answers i (Reply_event j _) = (i = j)"
| "answers i (Fault_event j _) = (i = j)"
| "answers i _ = False"

fun waits_for :: "u64 \<Rightarrow> ipc_event \<Rightarrow> bool" where
  "waits_for i (Wait_event j) = (i = j)"
| "waits_for i _ = False"

abbreviation bus_run :: "ipc_event list \<Rightarrow> ipc_bus \<Rightarrow> ipc_bus" where
  "bus_run es b \<equiv> fold bus_step es b"

abbreviation sends_in :: "ipc_event list \<Rightarrow> nat" where
  "sends_in es \<equiv> length (filter is_send es)"

lemma call_send_cases:
  assumes "call_send chan op payload b = (res, b')"
  obtains (failed) e where "res = Inl e"
      "b' = b\<lparr>ib_next_request_id := ib_next_request_id b + 1,
         ib_pending_replies := removeAll (ib_next_request_id b) (ib_pending_replies b)\<rparr>"
  | (sent) qs where "res = Inr (ib_next_request_id b)"
      "b' = b\<lparr>ib_next_request_id := ib_next_request_id b + 1,
         ib_pending_replies := List.insert (ib_next_request_id b) (ib_pending_replies b), ib_queues := qs\<rparr>"
proof -
  have "removeAll x (List.insert x xs) = removeAll x xs" for x :: u64 and xs
    by (simp add: List.insert_def)
  with assms that show thesis
    by (auto simp: call_send_def ipc_send_def Let_def split: option.splits if_splits)
qed

lemma call_send_bookkeeping:
  assumes "call_send chan op payload b = (res, b')"
  shows "ib_next_request_id b' = ib_next_request_id b + 1 \<and> ib_replies b' = ib_replies b
    \<and> set (ib_pending_replies b') \<subseteq> insert (ib_next_request_id b) (set (ib_pending_replies b))
    \<and> set (ib_pending_replies b) - {ib_next_request_id b} \<subseteq> set (ib_pending_replies b')"
  using assms by (cases rule: call_send_cases) auto

lemma call_send_Inr:
  assumes "call_send chan op payload b = (Inr i, b')"
  shows "i = ib_next_request_id b \<and> i \<in> set (ib_pending_replies b')"
  using assms by (cases rule: call_send_cases) auto

lemma quiet_step:
  assumes "\<not> is_send e" "\<not> answers i e" "\<not> waits_for i e"
  shows "ib_next_request_id (bus_step e b) = ib_next_request_id b"
    and "i \<in> set (ib_pending_replies (bus_step e b)) \<longleftrightarrow> i \<in> set (ib_pending_replies b)"
    and "hm_get (ib_replies (bus_step e b)) i = hm_get (ib_replies b) i"
  using assms
  by (cases e; auto simp: create_endpoint_def close_endpoint_def drop_sender_def drop_receiver_def Let_def
      ipc_notify_def ipc_send_def recv_raw_def reply_def reply_fault_def send_reply_def call_wait_def
      split: option.splits list.splits)+

text \<open>The numbers of requests are counted up and not used before their turn.\<close>

definition bus_counted :: "nat \<Rightarrow> ipc_bus \<Rightarrow> bool" where
  "bus_counted n b \<longleftrightarrow>
     ib_next_request_id b = of_nat n
     \<and> (\<forall>i. i \<in> set (ib_pending_replies b) \<or> hm_contains_key (ib_replies b) i \<longrightarrow> unat i < n)"

lemma bus_counted_other:
  assumes "bus_counted n b" "\<not> is_send e"
  shows "bus_counted n (bus_step e b)"
  using assms
  by (cases e; auto simp: bus_counted_def create_endpoint_def close_endpoint_def drop_sender_def
      drop_receiver_def Let_def ipc_notify_def ipc_send_def recv_raw_def reply_def reply_fault_def
      send_reply_def call_wait_def split: option.splits list.splits if_splits)

lemma bus_counted_send:
  assumes "bus_counted n b" "n < 2 ^ 64" "call_send chan op payload b = (res, b')"
  shows "bus_counted (Suc n) b'"
proof -
  have "unat (of_nat n :: u64) = n" using assms(2) by (simp add: unat_of_nat)
  with assms(1) call_send_bookkeeping [OF assms(3)] show ?thesis
    by (fastforce simp: bus_counted_def add.commute)
qed

lemma bus_counted_run:
  "bus_counted n b \<Longrightarrow> n + sends_in es \<le> 2 ^ 64 \<Longrightarrow> bus_counted (n + sends_in es) (bus_run es b)"
proof (induction es arbitrary: n b)
  case Nil
  then show ?case by simp
next
  case (Cons e es)
  show ?case
  proof (cases "is_send e")
    case True
    then obtain chan op payload where e: "e = Send_event chan op payload" by (cases e) auto
    obtain res b' where s: "call_send chan op payload b = (res, b')" by fastforce
    have "bus_counted (Suc n) b'" using Cons.prems True by (intro bus_counted_send [OF _ _ s]) auto
    with Cons.IH [of "Suc n" b'] Cons.prems show ?thesis by (simp add: e s)
  next
    case False
    with Cons.IH [of n "bus_step e b"] Cons.prems bus_counted_other [of n b e] show ?thesis by simp
  qed
qed

text \<open>A request that waits keeps waiting, and one that is answered stays answered.\<close>

definition waiting :: "u64 \<Rightarrow> ipc_bus \<Rightarrow> bool" where
  "waiting i b \<longleftrightarrow> i \<in> set (ib_pending_replies b) \<and> hm_get (ib_replies b) i = None"

definition answered :: "u64 \<Rightarrow> frame \<Rightarrow> ipc_bus \<Rightarrow> bool" where
  "answered i fr b \<longleftrightarrow> i \<notin> set (ib_pending_replies b) \<and> hm_get (ib_replies b) i = Some fr"

lemma waiting_step:
  assumes "waiting i b" "\<not> answers i e" "\<not> waits_for i e" "is_send e \<Longrightarrow> ib_next_request_id b \<noteq> i"
  shows "waiting i (bus_step e b)"
proof (cases "is_send e")
  case True
  then obtain chan op payload where e: "e = Send_event chan op payload" by (cases e) auto
  obtain res b' where s: "call_send chan op payload b = (res, b')" by fastforce
  from call_send_bookkeeping [OF s] assms(1,4) True show ?thesis by (auto simp: waiting_def e s)
next
  case False
  with assms quiet_step [of e i b] show ?thesis by (simp add: waiting_def)
qed

lemma answered_step:
  assumes "answered i fr b" "\<not> waits_for i e" "is_send e \<Longrightarrow> ib_next_request_id b \<noteq> i"
  shows "answered i fr (bus_step e b)"
proof -
  consider (send) "is_send e" | (ans) "answers i e" "\<not> is_send e" | (quiet) "\<not> is_send e" "\<not> answers i e"
    by blast
  then show ?thesis
  proof cases
    case send
    then obtain chan op payload where e: "e = Send_event chan op payload" by (cases e) auto
    obtain res b' where s: "call_send chan op payload b = (res, b')" by fastforce
    from call_send_bookkeeping [OF s] assms send show ?thesis by (auto simp: answered_def e s)
  next
    case ans
    with assms(1) show ?thesis
      by (cases e) (auto simp: answered_def reply_def reply_fault_def send_reply_def)
  next
    case quiet
    with assms quiet_step [of e i b] show ?thesis by (simp add: answered_def)
  qed
qed

lemma counted_not_next:
  assumes "bus_counted n b" "unat i < n" "n < 2 ^ 64"
  shows "ib_next_request_id b \<noteq> i"
  using assms by (auto simp: bus_counted_def unat_of_nat)

lemma waiting_run:
  assumes "waiting i b" "bus_counted n b" "unat i < n" "n + sends_in es \<le> 2 ^ 64"
    "\<forall>e \<in> set es. \<not> answers i e \<and> \<not> waits_for i e"
  shows "waiting i (bus_run es b)"
  using assms
proof (induction es arbitrary: n b)
  case Nil
  then show ?case by simp
next
  case (Cons e es)
  have "waiting i (bus_step e b)"
    using Cons.prems counted_not_next [OF Cons.prems(2,3)] by (intro waiting_step) auto
  moreover have "bus_counted (n + sends_in [e]) (bus_step e b)"
    using bus_counted_run [OF Cons.prems(2), of "[e]"] Cons.prems(4) by auto
  ultimately show ?case
    using Cons.IH [of "bus_step e b" "n + sends_in [e]"] Cons.prems by (cases "is_send e") auto
qed

lemma answered_run:
  assumes "answered i fr b" "bus_counted n b" "unat i < n" "n + sends_in es \<le> 2 ^ 64"
    "\<forall>e \<in> set es. \<not> waits_for i e"
  shows "answered i fr (bus_run es b)"
  using assms
proof (induction es arbitrary: n b)
  case Nil
  then show ?case by simp
next
  case (Cons e es)
  have "answered i fr (bus_step e b)"
    using Cons.prems counted_not_next [OF Cons.prems(2,3)] by (intro answered_step) auto
  moreover have "bus_counted (n + sends_in [e]) (bus_step e b)"
    using bus_counted_run [OF Cons.prems(2), of "[e]"] Cons.prems(4) by auto
  ultimately show ?case
    using Cons.IH [of "bus_step e b" "n + sends_in [e]"] Cons.prems by (cases "is_send e") auto
qed

lemma reply_waiting:
  assumes "waiting i b"
  shows "fst (reply i v b) = Inr ()"
    and "\<exists>fr. fr_body fr = Payload v \<and> answered i fr (snd (reply i v b))"
  using assms by (auto simp: waiting_def answered_def reply_def send_reply_def)

text \<open>
  Claim C25: a call gets its own answer.  Whatever the other threads of the process do on the bus
  before and after (below the \<open>2^64\<close> calls after which the numbers repeat), the first reply to
  a call's number is accepted and is what the waiting caller receives, replies to it that come
  later change nothing, and before any reply the caller would time out.
\<close>

theorem call_gets_first_reply:
  assumes "b = bus_run es0 ipc_bus_new" "call_send chan op payload b = (Inr i, b1)"
    and "sends_in es0 + 1 + sends_in es1 + sends_in es2 \<le> 2 ^ 64"
    and "\<forall>e \<in> set es1. \<not> answers i e \<and> \<not> waits_for i e" "\<forall>e \<in> set es2. \<not> waits_for i e"
  shows "fst (call_wait i (bus_run es1 b1)) = Inl Timeout
    \<and> fst (reply i v (bus_run es1 b1)) = Inr ()
    \<and> fst (call_wait i (bus_run es2 (snd (reply i v (bus_run es1 b1))))) = Inr v"
proof -
  let ?n = "Suc (sends_in es0)"
  have "bus_counted 0 ipc_bus_new" by (simp add: bus_counted_def ipc_bus_new_def)
  from bus_counted_run [OF this, of es0] assms(1,3)
  have c0: "bus_counted (sends_in es0) b" by simp
  have c1: "bus_counted ?n b1"
    using assms(3) by (intro bus_counted_send [OF c0 _ assms(2)]) simp
  have i: "unat i = sends_in es0" "i \<in> set (ib_pending_replies b1)"
    using call_send_Inr [OF assms(2)] c0 assms(3) by (auto simp: bus_counted_def unat_of_nat)
  have "hm_get (ib_replies b) i = None"
    using c0 i(1) by (auto simp: bus_counted_def)
  with i(2) call_send_bookkeeping [OF assms(2)] have "waiting i b1" by (simp add: waiting_def)
  then have w: "waiting i (bus_run es1 b1)"
    using assms(3,4) i(1) by (intro waiting_run [OF _ c1]) auto
  from reply_waiting(2) [OF this] obtain fr where fr: "fr_body fr = Payload v"
    "answered i fr (snd (reply i v (bus_run es1 b1)))" by blast
  have "bus_counted (?n + sends_in es1) (bus_run es1 b1)"
    using assms(3) by (intro bus_counted_run [OF c1]) simp
  from bus_counted_other [OF this, of "Reply_event i v"]
  have c2: "bus_counted (?n + sends_in es1) (snd (reply i v (bus_run es1 b1)))" by simp
  have "answered i fr (bus_run es2 (snd (reply i v (bus_run es1 b1))))"
    using assms(3,5) i(1) by (intro answered_run [OF fr(2) c2]) auto
  with w fr(1) reply_waiting(1) [OF w] show ?thesis
    by (simp add: call_wait_def waiting_def answered_def)
qed

section \<open>Shared regions\<close>

lemma revoked_not_live:
  assumes "monitor_wf NEXT m" "cap_revoke m anc = Some (m', receipt)"
    and "ct_token_id t \<in> subtree (cm_graph m) (ct_token_id anc)" "is_live m t now"
  shows "\<not> is_live m' t now'"
proof -
  from assms(4) obtain nt where nt: "hm_get (cm_graph m) (ct_token_id t) = Some nt"
    "rn_live_generation nt = ct_generation t"
    by (auto simp: is_live_def live_generation_def matches_record_def split: option.splits)
  have "hm_get (cm_graph m) (ct_token_id anc) \<noteq> None"
  proof
    assume none: "hm_get (cm_graph m) (ct_token_id anc) = None"
    then have "subtree (cm_graph m) (ct_token_id anc) = {ct_token_id anc}"
      by (subst subtree_unfold) (simp add: children_of_def)
    with assms(3) nt(1) none show False by simp
  qed
  then obtain node where "hm_get (cm_graph m) (ct_token_id anc) = Some node" by auto
  from graph_revoke_forest [OF graph_wf_forest [OF assms(1)] this] assms(2)
  have "hm_get (cm_graph m') = bumped (cm_graph m) (subtree (cm_graph m) (ct_token_id anc))"
    by (auto simp: cap_revoke_def)
  then have "hm_get (cm_graph m') (ct_token_id t) = Some (bump nt)"
    using nt(1) assms(3) by (simp add: bumped_def)
  then show ?thesis
    using nt(2) by (auto simp: is_live_def live_generation_def bump_def)
qed

text \<open>
  Claim C26: a shared region is out of reach once its capability is revoked.  After revoking any
  token the region's token was delegated from, or that token itself, nobody can map the region
  through a descriptor shared before, whatever rights are asked for.
\<close>

theorem revoked_region_unmappable:
  assumes "monitor_wf NEXT m" "cap_revoke m anc = Some (m', receipt)"
    and "ct_token_id t \<in> subtree (cm_graph m) (ct_token_id anc)" "is_live m t now"
  shows "\<exists>f. region_map m' (region_share t buf) required now' = Inl (Kernel f)"
proof -
  have "\<not> check_rights_ok m' t required now'"
    using revoked_not_live [OF assms] by (simp add: check_rights_ok_iff)
  then obtain f where "check_rights_ok_result m' t required now' = Inl f"
    by (cases "check_rights_ok_result m' t required now'") (auto simp: check_rights_ok_def)
  then show ?thesis by (simp add: region_map_def region_share_def)
qed

theorem revoked_region_unmappable_witness:
  "\<exists>m' r f. cap_revoke demo_monitor demo_root = Some (m', r)
     \<and> region_map m' (region_share demo_child [1, 2]) READ 50 = Inl (Kernel f)"
proof -
  obtain node where "hm_get (cm_graph demo_monitor) (ct_token_id demo_root) = Some node"
    by (auto simp: demo_defs)
  from graph_revoke_forest [OF graph_wf_forest [OF demo_monitor_wf] this]
  obtain m' r where r: "cap_revoke demo_monitor demo_root = Some (m', r)"
    by (auto simp: cap_revoke_def)
  have "is_live demo_monitor demo_child 50"
    by (simp add: is_live_def demo_defs live_generation_def matches_record_def is_expired_def)
  moreover have "ct_token_id demo_child \<in> subtree (cm_graph demo_monitor) (ct_token_id demo_root)"
    using demo_subtree by (simp add: demo_child_def demo_root_def)
  ultimately show ?thesis
    using revoked_region_unmappable [OF demo_monitor_wf r] r by blast
qed

section \<open>What the bus does not check\<close>

text \<open>The class of a channel has no effect on how it may be used.\<close>

lemma channel_class_ignored:
  "ipc_call others (chan\<lparr>ch_class := c\<rparr>) op payload b = ipc_call others chan op payload b"
  "ipc_notify (chan\<lparr>ch_class := c\<rparr>) op payload b = ipc_notify chan op payload b"
  by (simp_all add: ipc_call_def ipc_notify_def call_send_def call_frame_def)

text \<open>Numbers of calls start at zero, the number every notification carries.\<close>

definition demo_channel :: channel where
  "demo_channel = \<lparr>ch_endpoint = demo_root, ch_schema_id = 0, ch_route = LocalRoute, ch_class = Call\<rparr>"

lemma first_call_is_zero:
  "fst (call_send demo_channel 1 [] (snd (create_endpoint 0 ipc_bus_new))) = Inr 0"
  "fr_request_id ((call_frame demo_channel 0 op payload)\<lparr>fr_flags := NOTIFY\<rparr>) = 0"
  by (simp_all add: call_send_def create_endpoint_def drop_sender_def ipc_bus_new_def ipc_send_def
      demo_channel_def demo_root_def call_frame_def Let_def)

section \<open>Concrete runs\<close>

theorem call_gets_first_reply_witness:
  "\<exists>b1. call_send demo_channel 1 [] (bus_run [Create_event 0] ipc_bus_new) = (Inr 0, b1)
     \<and> fst (call_wait 0 (bus_run [Reply_event 0 [8]] (snd (reply 0 [7] (bus_run [Recv_event 0] b1))))) = Inr [7]"
proof -
  obtain b1 where s: "call_send demo_channel 1 [] (bus_run [Create_event 0] ipc_bus_new) = (Inr 0, b1)"
    by (simp add: call_send_def create_endpoint_def drop_sender_def ipc_bus_new_def ipc_send_def
        demo_channel_def demo_root_def Let_def)
  from call_gets_first_reply [OF refl s, of "[Recv_event 0]" "[Reply_event 0 [8]]" "[7]"] s
  show ?thesis by auto
qed

lemma demo_channel_open: "channel_open demo_monitor demo_root 0 0 Call = Inr demo_channel"
  by (simp add: channel_open_def demo_channel_def)

theorem authenticated_call_genuine_witness:
  "\<exists>s c b'. ipc_reach s \<and> recv_authenticated 0 demo_monitor WRITE 0 (is_bus s) = Some (Inr c, b')
     \<and> is_sent s = {SentNotify demo_channel 1 [5]} \<and> ac_body c = Payload [5] \<and> \<not> ac_is_call c
     \<and> check_rights_ok demo_monitor (ch_endpoint demo_channel) WRITE 0"
proof -
  let ?s0 = "\<lparr>is_bus = ipc_bus_new, is_opened = {}, is_sent = {}, is_owner = (\<lambda>_. 0)\<rparr>"
  let ?s1 = "?s0\<lparr>is_opened := insert demo_channel (is_opened ?s0)\<rparr>"
  let ?b2 = "snd (create_endpoint 0 ipc_bus_new)"
  let ?s2 = "?s1\<lparr>is_bus := ?b2, is_owner := (is_owner ?s1)(0 := 0)\<rparr>"
  let ?b3 = "snd (ipc_notify demo_channel 1 [5] ?b2)"
  let ?s3 = "?s2\<lparr>is_bus := ?b3, is_sent := insert (SentNotify demo_channel 1 [5]) (is_sent ?s2)\<rparr>"
  have s1: "ipc_reach ?s1"
    by (rule ipc_reach.step [OF ipc_reach.start ipc_step.opens [OF demo_channel_open]])
  have "ipc_step ?s1 ?s2"
    by (rule ipc_step.creates) (simp add: create_endpoint_def drop_sender_def ipc_bus_new_def Let_def)
  with s1 have s2: "ipc_reach ?s2" by (rule ipc_reach.step)
  have "ipc_step ?s2 ?s3"
    by (rule ipc_step.notifies [of demo_channel _ 1 "[5]" "()"])
      (simp_all add: create_endpoint_def drop_sender_def ipc_bus_new_def Let_def ipc_notify_def ipc_send_def
        demo_channel_def demo_root_def)
  with s2 have s3: "ipc_reach ?s3" by (rule ipc_reach.step)
  have ob: "ct_object_id demo_root = 0" by (simp add: demo_root_def)
  obtain c b' where r: "recv_authenticated 0 demo_monitor WRITE 0 (is_bus ?s3) = Some (Inr c, b')"
    by (simp add: create_endpoint_def drop_sender_def ipc_bus_new_def Let_def ipc_notify_def ipc_send_def
        demo_channel_def call_frame_def recv_authenticated_def recv_raw_def authenticate_def ob)
  from authenticated_call_genuine [OF s3 r] s3 r show ?thesis
    by (intro exI [of _ ?s3] exI [of _ c] exI [of _ b']) auto
qed

end
