(* ===== verification/Graph_Index.thy ===== *)
theory Graph_Index
  imports Storage
begin

text \<open>
  The index of the knowledge graph, \<open>crates/hyperion-knowledge-graph/src/index.rs\<close>, the
  records it holds (\<open>types.rs\<close>), the decay of inferred edges (\<open>decay.rs\<close>), and what
  \<open>graph.rs\<close> computes on the index alone: ranking against a query and the breadth-first
  traversal.

  Floating-point numbers are real numbers.  The JSON form of a record is third-party code, the
  two functions of a \<open>record_codec\<close>; the JSON values inside a node and those the storage
  engine holds have a type each.
\<close>

section \<open>Records\<close>

type_synonym node_id = st_object_id
type_synonym edge_id = st_object_id
type_synonym tenant_id = u64

datatype NodeOrigin = UserAuthored | AgentGenerated | IngestedExternal | SyncedRemote

definition node_origin_default :: NodeOrigin where
  [simp]: "node_origin_default = IngestedExternal"

record 'j node_record =
  nr_object_type :: string
  nr_embedding :: "real list option"
  nr_metadata :: 'j
  nr_owner :: u64
  nr_device_origin :: u64
  nr_origin :: NodeOrigin
  nr_corroboration_count :: u32
  nr_tenant_id :: tenant_id
  nr_created_at :: u64
  nr_updated_at :: u64
  nr_tombstone :: bool

datatype EdgeOrigin = Explicit | Inferred

record edge_record =
  er_subject :: node_id
  er_predicate :: string
  er_target :: node_id
  er_weight :: real
  er_provenance :: string
  er_origin :: EdgeOrigin
  er_confidence :: "real option"
  er_owner :: u64
  er_created_at :: u64
  er_last_confirmed_at :: u64
  er_tombstone :: bool
  er_version :: u64

datatype 'j Record = Node "'j node_record" | Edge edge_record

record ('j, 'v) record_codec =
  rec_to_value :: "'j Record \<Rightarrow> 'v"
  rec_from_value :: "'v \<Rightarrow> 'j Record option"

record edge_constraint =
  cs_predicate :: string
  cs_node :: node_id

record graph_query =
  gq_type_filter :: "string list option"
  gq_embedding_query :: "real list option"
  gq_time_range :: "(u64 \<times> u64) option"
  gq_edge_constraint :: "edge_constraint option"
  gq_device_origin_filter :: "u64 option"
  gq_limit :: nat

record ranking_rationale =
  rk_similarity :: real
  rk_type_filter_matched :: "bool option"
  rk_within_time_range :: "bool option"
  rk_edge_constraint_satisfied :: "bool option"
  rk_device_origin_matched :: "bool option"
  rk_would_be_included :: bool

section \<open>The index\<close>

record 'j graph_index =
  gi_nodes :: "(node_id, 'j node_record) hashmap"
  gi_edges :: "(edge_id, edge_record) hashmap"
  gi_forward :: "(node_id, edge_id list) hashmap"
  gi_backward :: "(node_id, edge_id list) hashmap"
  gi_edge_identity :: "(node_id \<times> string \<times> node_id, edge_id) hashmap"

definition index_empty :: "'j graph_index" where
  "index_empty = \<lparr>gi_nodes = [], gi_edges = [], gi_forward = [], gi_backward = [], gi_edge_identity = []\<rparr>"

text \<open>\<open>entry(k).or_default().push(x)\<close> on a map of vectors, and the edges at a node.\<close>

definition hm_push :: "'k \<Rightarrow> 'v \<Rightarrow> ('k, 'v list) hashmap \<Rightarrow> ('k, 'v list) hashmap" where
  "hm_push k x m = hm_insert k ((case hm_get m k of None \<Rightarrow> [] | Some xs \<Rightarrow> xs) @ [x]) m"

definition edges_at :: "(node_id, edge_id list) hashmap \<Rightarrow> node_id \<Rightarrow> edge_id list" where
  "edges_at m n = (case hm_get m n of None \<Rightarrow> [] | Some xs \<Rightarrow> xs)"

fun index_apply :: "st_object_id \<Rightarrow> 'j Record \<Rightarrow> 'j graph_index \<Rightarrow> 'j graph_index" where
  "index_apply i (Node n) ix = ix\<lparr>gi_nodes := hm_insert i n (gi_nodes ix)\<rparr>"
| "index_apply i (Edge e) ix =
     (let ix1 = (if hm_contains_key (gi_edges ix) i then ix
                 else ix\<lparr>gi_forward := hm_push (er_subject e) i (gi_forward ix),
                         gi_backward := hm_push (er_target e) i (gi_backward ix)\<rparr>)
      in ix1\<lparr>gi_edge_identity := hm_insert (er_subject e, er_predicate e, er_target e) i (gi_edge_identity ix1),
             gi_edges := hm_insert i e (gi_edges ix1)\<rparr>)"

definition active_edge :: "'j graph_index \<Rightarrow> edge_id \<Rightarrow> edge_record option" where
  "active_edge ix i =
     (case hm_get (gi_edges ix) i of None \<Rightarrow> None | Some e \<Rightarrow> if er_tombstone e then None else Some e)"

definition apply_wal :: "('j, 'v) record_codec \<Rightarrow> 'v wal_record \<Rightarrow> 'j graph_index \<Rightarrow> 'j graph_index" where
  "apply_wal rc r ix =
     (case rec_from_value rc (wr_metadata r) of
        None \<Rightarrow> ix
      | Some x \<Rightarrow> index_apply (wr_object_id r) x ix)"

definition rebuild_from :: "('j, 'v) record_codec \<Rightarrow> 'v wal_record list \<Rightarrow> 'j graph_index" where
  "rebuild_from rc records = fold (apply_wal rc) records index_empty"

definition rebuild ::
    "('j, 'v) record_codec \<Rightarrow> 'v wal_codec \<Rightarrow> bytes option \<Rightarrow> (StorageError, 'j graph_index) result" where
  "rebuild rc c file = and_then (replay c file) (\<lambda>rs. Inr (rebuild_from rc rs))"

definition rebuild_encrypted ::
    "('j, 'v) record_codec \<Rightarrow> 'v wal_codec \<Rightarrow> bytes option \<Rightarrow> bytes \<Rightarrow> (StorageError, 'j graph_index) result" where
  "rebuild_encrypted rc c file key =
     and_then (replay_encrypted c key file) (\<lambda>rs. Inr (rebuild_from rc rs))"

section \<open>Decay and ranking\<close>

definition DEFAULT_INFERRED_EDGE_TAU_SECS :: real where
  "DEFAULT_INFERRED_EDGE_TAU_SECS = 30 * 24 * 3600"

definition effective_edge_weight :: "edge_record \<Rightarrow> u64 \<Rightarrow> real" where
  "effective_edge_weight edge now =
     (if er_origin edge = Explicit then er_weight edge
      else let delta_t = real (unat (saturating_sub now (er_last_confirmed_at edge)));
               recency = exp (- delta_t / DEFAULT_INFERRED_EDGE_TAU_SECS)
           in er_weight edge * recency)"

definition cosine_similarity :: "real list \<Rightarrow> real list \<Rightarrow> real" where
  "cosine_similarity a b =
     (if length a \<noteq> length b \<or> a = [] then 0
      else let dot = sum_list (map (\<lambda>(x, y). x * y) (zip a b));
               norm_a = sqrt (sum_list (map (\<lambda>x. x * x) a));
               norm_b = sqrt (sum_list (map (\<lambda>x. x * x) b))
           in if norm_a = 0 \<or> norm_b = 0 then 0 else dot / (norm_a * norm_b))"

definition satisfies_edge_constraint :: "'j graph_index \<Rightarrow> node_id \<Rightarrow> edge_constraint \<Rightarrow> bool" where
  "satisfies_edge_constraint ix n c =
     (let forward_hit = list_ex (\<lambda>e. er_predicate e = cs_predicate c \<and> er_target e = cs_node c)
            (List.map_filter (active_edge ix) (edges_at (gi_forward ix) n));
          backward_hit = list_ex (\<lambda>e. er_predicate e = cs_predicate c \<and> er_subject e = cs_node c)
            (List.map_filter (active_edge ix) (edges_at (gi_backward ix) n))
      in forward_hit \<or> backward_hit)"

definition unwrap_or :: "'a \<Rightarrow> 'a option \<Rightarrow> 'a" where
  "unwrap_or d x = (case x of None \<Rightarrow> d | Some a \<Rightarrow> a)"

definition rank_against ::
    "'j graph_index \<Rightarrow> node_id \<Rightarrow> 'j node_record \<Rightarrow> graph_query \<Rightarrow> ranking_rationale" where
  "rank_against ix node_id n q =
     (let type_filter_matched = map_option (\<lambda>types. List.member types (nr_object_type n)) (gq_type_filter q);
          within_time_range =
            map_option (\<lambda>(lo, hi). lo \<le> nr_created_at n \<and> nr_created_at n \<le> hi) (gq_time_range q);
          edge_constraint_satisfied =
            map_option (satisfies_edge_constraint ix node_id) (gq_edge_constraint q);
          device_origin_matched = map_option (\<lambda>wanted. nr_device_origin n = wanted) (gq_device_origin_filter q);
          similarity = (case (gq_embedding_query q, nr_embedding n) of
                          (Some v, Some e) \<Rightarrow> cosine_similarity v e
                        | (Some _, None) \<Rightarrow> 0
                        | (None, _) \<Rightarrow> 1)
      in \<lparr>rk_similarity = similarity, rk_type_filter_matched = type_filter_matched,
          rk_within_time_range = within_time_range,
          rk_edge_constraint_satisfied = edge_constraint_satisfied,
          rk_device_origin_matched = device_origin_matched,
          rk_would_be_included =
            (unwrap_or True type_filter_matched \<and> unwrap_or True within_time_range
             \<and> unwrap_or True edge_constraint_satisfied \<and> unwrap_or True device_origin_matched)\<rparr>)"

section \<open>Traversal\<close>

definition node_visible :: "'j graph_index \<Rightarrow> u64 \<Rightarrow> u64 option \<Rightarrow> node_id \<Rightarrow> bool" where
  "node_visible ix boundary device_origin_filter i =
     (case hm_get (gi_nodes ix) i of
        None \<Rightarrow> False
      | Some n \<Rightarrow>
          \<not> nr_tombstone n \<and> nr_owner n = boundary
          \<and> (case device_origin_filter of None \<Rightarrow> True | Some wanted \<Rightarrow> nr_device_origin n = wanted))"

type_synonym walk = "(node_id, nat) hashmap \<times> edge_id list \<times> node_id list"

text \<open>The body of the two inner loops: one edge at a node of the frontier, with the end it leads to.\<close>

definition visit_edge ::
    "'j graph_index \<Rightarrow> string list option \<Rightarrow> (node_id \<Rightarrow> bool) \<Rightarrow> nat \<Rightarrow> (edge_record \<Rightarrow> node_id)
     \<Rightarrow> edge_id \<Rightarrow> walk \<Rightarrow> walk" where
  "visit_edge ix edge_types visible hop other_end eid w =
     (case w of (depths, visited, next_frontier) \<Rightarrow>
      case active_edge ix eid of
        None \<Rightarrow> w
      | Some e \<Rightarrow>
          if (case edge_types of None \<Rightarrow> False | Some types \<Rightarrow> \<not> List.member types (er_predicate e)) then w
          else if \<not> visible (other_end e) then w
          else if hm_contains_key depths (other_end e)
          then (depths, List.insert eid visited, next_frontier)
          else (hm_insert (other_end e) (hop + 1) depths, List.insert eid visited,
                next_frontier @ [other_end e]))"

definition expand ::
    "'j graph_index \<Rightarrow> string list option \<Rightarrow> (node_id \<Rightarrow> bool) \<Rightarrow> nat \<Rightarrow> node_id \<Rightarrow> walk \<Rightarrow> walk" where
  "expand ix edge_types visible hop n w =
     fold (visit_edge ix edge_types visible hop er_subject) (edges_at (gi_backward ix) n)
       (fold (visit_edge ix edge_types visible hop er_target) (edges_at (gi_forward ix) n) w)"

fun hops ::
    "'j graph_index \<Rightarrow> string list option \<Rightarrow> (node_id \<Rightarrow> bool) \<Rightarrow> nat \<Rightarrow> nat \<Rightarrow> walk
     \<Rightarrow> (node_id, nat) hashmap \<times> edge_id list" where
  "hops ix edge_types visible 0 hop (depths, visited, frontier) = (depths, visited)"
| "hops ix edge_types visible (Suc k) hop (depths, visited, frontier) =
     (if frontier = [] then (depths, visited)
      else hops ix edge_types visible k (hop + 1)
             (fold (expand ix edge_types visible hop) frontier (depths, visited, [])))"

record 'j subgraph =
  sg_nodes :: "(node_id \<times> 'j node_record \<times> nat) list"
  sg_edges :: "(edge_id \<times> edge_record) list"

text \<open>Indexing the maps panics on a missing key; \<open>the\<close> stands for it, where a key is present.\<close>

definition walk_graph ::
    "'j graph_index \<Rightarrow> string list option \<Rightarrow> (node_id \<Rightarrow> bool) \<Rightarrow> nat \<Rightarrow> node_id \<Rightarrow> 'j subgraph" where
  "walk_graph ix edge_types visible max_hops start =
     (let (depths, visited) = hops ix edge_types visible max_hops 0 ([(start, 0)], [], [start])
      in \<lparr>sg_nodes = map (\<lambda>(i, depth). (i, the (hm_get (gi_nodes ix) i), depth)) depths,
          sg_edges = map (\<lambda>i. (i, the (hm_get (gi_edges ix) i))) visited\<rparr>)"

section \<open>The traversal is a breadth-first search\<close>

text \<open>Where an edge leads, when it is active, of the wanted types, and its end is visible.\<close>

definition leads ::
    "'j graph_index \<Rightarrow> string list option \<Rightarrow> (node_id \<Rightarrow> bool) \<Rightarrow> (edge_record \<Rightarrow> node_id) \<Rightarrow> edge_id
     \<Rightarrow> node_id \<Rightarrow> bool" where
  "leads ix edge_types visible other_end eid m \<longleftrightarrow>
     (\<exists>e. active_edge ix eid = Some e \<and> (\<forall>types. edge_types = Some types \<longrightarrow> er_predicate e \<in> set types)
        \<and> visible m \<and> m = other_end e)"

text \<open>The edges usable at a node, with the node each leads to, and the steps of a walk.\<close>

definition usable ::
    "'j graph_index \<Rightarrow> string list option \<Rightarrow> (node_id \<Rightarrow> bool) \<Rightarrow> node_id \<Rightarrow> edge_id \<Rightarrow> node_id \<Rightarrow> bool" where
  "usable ix edge_types visible n eid m \<longleftrightarrow>
     (eid \<in> set (edges_at (gi_forward ix) n) \<and> leads ix edge_types visible er_target eid m)
     \<or> (eid \<in> set (edges_at (gi_backward ix) n) \<and> leads ix edge_types visible er_subject eid m)"

definition adjacent ::
    "'j graph_index \<Rightarrow> string list option \<Rightarrow> (node_id \<Rightarrow> bool) \<Rightarrow> node_id \<Rightarrow> node_id \<Rightarrow> bool" where
  "adjacent ix edge_types visible n m \<longleftrightarrow> (\<exists>eid. usable ix edge_types visible n eid m)"

text \<open>The length of a shortest walk.\<close>

definition distance :: "('a \<Rightarrow> 'a \<Rightarrow> bool) \<Rightarrow> 'a \<Rightarrow> 'a \<Rightarrow> nat \<Rightarrow> bool" where
  "distance R a b d \<longleftrightarrow> (R ^^ d) a b \<and> (\<forall>d' < d. \<not> (R ^^ d') a b)"

lemma distance_unique: "distance R a b d \<Longrightarrow> distance R a b d' \<Longrightarrow> d = d'"
  by (metis distance_def linorder_neqE_nat)

lemma distance_0 [simp]: "distance R a b 0 \<longleftrightarrow> a = b"
  by (auto simp: distance_def)

lemma distance_ex: "(R ^^ d) a b \<Longrightarrow> \<exists>d' \<le> d. distance R a b d'"
proof -
  assume R: "(R ^^ d) a b"
  then have "(R ^^ (LEAST d. (R ^^ d) a b)) a b" by (rule LeastI)
  moreover have "\<not> (R ^^ d') a b" if "d' < (LEAST d. (R ^^ d) a b)" for d'
    using not_less_Least [OF that] .
  ultimately have "distance R a b (LEAST d. (R ^^ d) a b)" by (simp add: distance_def)
  with Least_le [of "\<lambda>d. (R ^^ d) a b", OF R] show ?thesis by blast
qed

lemma distance_Suc:
  "distance R a b (Suc d) \<longleftrightarrow> (\<exists>c. distance R a c d \<and> R c b) \<and> (\<forall>d' \<le> d. \<not> distance R a b d')"
proof
  assume dist: "distance R a b (Suc d)"
  then obtain c where c: "(R ^^ d) a c" "R c b" by (auto simp: distance_def)
  have "\<not> (R ^^ d') a c" if "d' < d" for d'
  proof
    assume "(R ^^ d') a c"
    with c(2) have "(R ^^ Suc d') a b" by auto
    with dist that show False unfolding distance_def by (metis Suc_less_eq)
  qed
  with c have "distance R a c d" by (simp add: distance_def)
  with c(2) dist show "(\<exists>c. distance R a c d \<and> R c b) \<and> (\<forall>d' \<le> d. \<not> distance R a b d')"
    using distance_unique by (metis Suc_n_not_le_n)
next
  assume a: "(\<exists>c. distance R a c d \<and> R c b) \<and> (\<forall>d' \<le> d. \<not> distance R a b d')"
  then have "(R ^^ Suc d) a b" by (auto simp: distance_def)
  moreover have "\<not> (R ^^ d') a b" if "d' < Suc d" for d'
    using a that distance_ex [of d' R a b] by (metis le_trans less_Suc_eq_le)
  ultimately show "distance R a b (Suc d)" by (simp add: distance_def)
qed

lemma distance_earlier: "distance R a b d \<Longrightarrow> h \<le> d \<Longrightarrow> \<exists>c. distance R a c h"
proof (induction d arbitrary: b)
  case 0
  then show ?case by auto
next
  case (Suc d)
  then show ?case by (metis distance_Suc le_Suc_eq)
qed

text \<open>
  What one level of the search has found so far: the nodes \<open>S\<close> outside the earlier depths
  \<open>D\<close>, and the edges \<open>E\<close>.
\<close>

definition found :: "(node_id, nat) hashmap \<Rightarrow> edge_id set \<Rightarrow> nat \<Rightarrow> node_id set \<Rightarrow> edge_id set \<Rightarrow> walk \<Rightarrow> bool" where
  "found D V hop S E w \<longleftrightarrow>
     (case w of (depths, visited, next_frontier) \<Rightarrow>
        (\<forall>i. hm_get depths i = (if i \<in> S then Some (hop + 1) else hm_get D i))
        \<and> set visited = V \<union> E \<and> set next_frontier = S \<and> (\<forall>i \<in> S. hm_get D i = None))"

lemma visit_edge_cases:
  obtains (skip) "visit_edge ix ts vis hop oe eid w = w" "\<And>m. \<not> leads ix ts vis oe eid m"
  | (follow) m where "leads ix ts vis oe eid m" "\<And>m'. leads ix ts vis oe eid m' \<Longrightarrow> m' = m"
      "visit_edge ix ts vis hop oe eid w =
        (case w of (depths, visited, nf) \<Rightarrow>
           if hm_contains_key depths m then (depths, List.insert eid visited, nf)
           else (hm_insert m (hop + 1) depths, List.insert eid visited, nf @ [m]))"
proof (cases "\<exists>m. leads ix ts vis oe eid m")
  case True
  then obtain m where m: "leads ix ts vis oe eid m" by blast
  then show ?thesis
    by (intro follow [of m]) (auto simp: leads_def visit_edge_def split: prod.splits option.splits)
next
  case False
  then show ?thesis
    by (intro skip) (auto simp: leads_def visit_edge_def split: prod.splits option.splits)
qed

lemma visit_edge_found:
  assumes "found D V hop S E w"
  shows "found D V hop (S \<union> {m. leads ix ts vis oe eid m \<and> hm_get D m = None})
    (E \<union> {i. i = eid \<and> (\<exists>m. leads ix ts vis oe i m)}) (visit_edge ix ts vis hop oe eid w)"
proof (cases rule: visit_edge_cases [of ix ts vis hop oe eid w])
  case skip
  then have sets: "{m. leads ix ts vis oe eid m \<and> hm_get D m = None} = {}"
    "{i. i = eid \<and> (\<exists>m. leads ix ts vis oe i m)} = {}" by auto
  show ?thesis unfolding sets skip(1) using assms by simp
next
  case (follow m)
  have sets: "{m'. leads ix ts vis oe eid m' \<and> hm_get D m' = None} = {m'. m' = m \<and> hm_get D m = None}"
    "{i. i = eid \<and> (\<exists>m. leads ix ts vis oe i m)} = {eid}"
    using follow(1,2) by blast+
  obtain D1 V1 F1 where w: "w = (D1, V1, F1)" by (cases w)
  have f: "\<And>i. hm_get D1 i = (if i \<in> S then Some (Suc hop) else hm_get D i)" "set V1 = V \<union> E" "set F1 = S"
    "\<forall>i \<in> S. hm_get D i = None"
    using assms by (simp_all add: found_def w)
  show ?thesis
  proof (cases "hm_get D1 m")
    case None
    then have m: "m \<notin> S" "hm_get D m = None" using f(1) [of m] by (auto split: if_splits)
    then have S: "S \<union> {m'. m' = m \<and> hm_get D m = None} = insert m S" by auto
    have "found D V hop (insert m S) (E \<union> {eid}) (hm_insert m (hop + 1) D1, List.insert eid V1, F1 @ [m])"
      using m f by (auto simp: found_def)
    with None show ?thesis unfolding follow(3) sets S by (simp add: w)
  next
    case (Some d)
    then have "m \<in> S \<or> hm_get D m \<noteq> None" using f(1) [of m] by (auto split: if_splits)
    then have S: "S \<union> {m'. m' = m \<and> hm_get D m = None} = S" by auto
    have "found D V hop S (E \<union> {eid}) (D1, List.insert eid V1, F1)"
      using f by (auto simp: found_def)
    with Some show ?thesis unfolding follow(3) sets S by (simp add: w)
  qed
qed

lemma visit_edges_found:
  assumes "found D V hop S E w"
  shows "found D V hop (S \<union> {m. (\<exists>eid \<in> set es. leads ix ts vis oe eid m) \<and> hm_get D m = None})
    (E \<union> {eid \<in> set es. \<exists>m. leads ix ts vis oe eid m}) (fold (visit_edge ix ts vis hop oe) es w)"
  using assms
proof (induction es arbitrary: S E w)
  case Nil
  then show ?case by simp
next
  case (Cons eid es)
  note step = Cons.IH [OF visit_edge_found [where ix = ix and ts = ts and vis = vis and oe = oe
      and eid = eid, OF Cons.prems]]
  have "S \<union> {m. leads ix ts vis oe eid m \<and> hm_get D m = None}
      \<union> {m. (\<exists>eid \<in> set es. leads ix ts vis oe eid m) \<and> hm_get D m = None}
      = S \<union> {m. (\<exists>eid \<in> set (eid # es). leads ix ts vis oe eid m) \<and> hm_get D m = None}"
    "E \<union> {i. i = eid \<and> (\<exists>m. leads ix ts vis oe i m)} \<union> {eid \<in> set es. \<exists>m. leads ix ts vis oe eid m}
      = E \<union> {eid' \<in> set (eid # es). \<exists>m. leads ix ts vis oe eid' m}" by auto
  with step show ?case by simp
qed

lemma expand_found:
  assumes "found D V hop S E w"
  shows "found D V hop (S \<union> {m. adjacent ix ts vis n m \<and> hm_get D m = None})
    (E \<union> {eid. \<exists>m. usable ix ts vis n eid m}) (expand ix ts vis hop n w)"
proof -
  note forward = visit_edges_found [where es = "edges_at (gi_forward ix) n" and oe = er_target
      and ix = ix and ts = ts and vis = vis, OF assms]
  note step = visit_edges_found [where es = "edges_at (gi_backward ix) n" and oe = er_subject
      and ix = ix and ts = ts and vis = vis, OF forward]
  have "S \<union> {m. (\<exists>eid \<in> set (edges_at (gi_forward ix) n). leads ix ts vis er_target eid m) \<and> hm_get D m = None}
      \<union> {m. (\<exists>eid \<in> set (edges_at (gi_backward ix) n). leads ix ts vis er_subject eid m) \<and> hm_get D m = None}
      = S \<union> {m. adjacent ix ts vis n m \<and> hm_get D m = None}"
    "E \<union> {eid \<in> set (edges_at (gi_forward ix) n). \<exists>m. leads ix ts vis er_target eid m}
      \<union> {eid \<in> set (edges_at (gi_backward ix) n). \<exists>m. leads ix ts vis er_subject eid m}
      = E \<union> {eid. \<exists>m. usable ix ts vis n eid m}"
    by (auto simp: adjacent_def usable_def)
  with step show ?thesis by (simp add: expand_def)
qed

lemma expand_all_found:
  assumes "found D V hop S E w"
  shows "found D V hop (S \<union> {m. (\<exists>n \<in> set ns. adjacent ix ts vis n m) \<and> hm_get D m = None})
    (E \<union> {eid. \<exists>n \<in> set ns. \<exists>m. usable ix ts vis n eid m}) (fold (expand ix ts vis hop) ns w)"
  using assms
proof (induction ns arbitrary: S E w)
  case Nil
  then show ?case by simp
next
  case (Cons n ns)
  note step = Cons.IH [OF expand_found [where ix = ix and ts = ts and vis = vis and n = n, OF Cons.prems]]
  have "S \<union> {m. adjacent ix ts vis n m \<and> hm_get D m = None}
      \<union> {m. (\<exists>n \<in> set ns. adjacent ix ts vis n m) \<and> hm_get D m = None}
      = S \<union> {m. (\<exists>n \<in> set (n # ns). adjacent ix ts vis n m) \<and> hm_get D m = None}"
    "E \<union> {eid. \<exists>m. usable ix ts vis n eid m} \<union> {eid. \<exists>n \<in> set ns. \<exists>m. usable ix ts vis n eid m}
      = E \<union> {eid. \<exists>n \<in> set (n # ns). \<exists>m. usable ix ts vis n eid m}" by auto
  with step show ?case by simp
qed

lemma hm_wf_visit_edge:
  "hm_wf (fst w) \<Longrightarrow> hm_wf (fst (visit_edge ix ts vis hop oe eid w))"
  by (auto simp: visit_edge_def split: prod.splits option.splits)

lemma hm_wf_visit_edges:
  "hm_wf (fst w) \<Longrightarrow> hm_wf (fst (fold (visit_edge ix ts vis hop oe) es w))"
  by (induction es arbitrary: w) (simp_all add: hm_wf_visit_edge)

lemma hm_wf_expand_all:
  "hm_wf (fst w) \<Longrightarrow> hm_wf (fst (fold (expand ix ts vis hop) ns w))"
  by (induction ns arbitrary: w) (simp_all add: expand_def hm_wf_visit_edges)

lemma hm_wf_hops: "hm_wf (fst w) \<Longrightarrow> hm_wf (fst (hops ix ts vis k hop w))"
proof (induction k arbitrary: hop w)
  case 0
  then show ?case by (cases w) simp
next
  case (Suc k)
  obtain D V F where w: "w = (D, V, F)" by (cases w)
  with Suc.prems hm_wf_expand_all [of "(D, V, [])" ix ts vis hop F] show ?case
    by (auto intro!: Suc.IH)
qed

text \<open>The state of the search between two levels.\<close>

definition level ::
    "'j graph_index \<Rightarrow> string list option \<Rightarrow> (node_id \<Rightarrow> bool) \<Rightarrow> node_id \<Rightarrow> nat \<Rightarrow> walk \<Rightarrow> bool" where
  "level ix ts vis start h w \<longleftrightarrow>
     (case w of (depths, visited, frontier) \<Rightarrow>
        (\<forall>i d. hm_get depths i = Some d \<longleftrightarrow> d \<le> h \<and> distance (adjacent ix ts vis) start i d)
        \<and> set frontier = {i. distance (adjacent ix ts vis) start i h}
        \<and> set visited = {eid. \<exists>n m d. d < h \<and> distance (adjacent ix ts vis) start n d \<and> usable ix ts vis n eid m})"

lemma level_step:
  assumes "level ix ts vis start h (D, V, F)"
  shows "level ix ts vis start (Suc h) (fold (expand ix ts vis h) F (D, V, []))"
proof -
  let ?R = "adjacent ix ts vis"
  let ?S = "{m. (\<exists>n \<in> set F. ?R n m) \<and> hm_get D m = None}"
  let ?E = "{eid. \<exists>n \<in> set F. \<exists>m. usable ix ts vis n eid m}"
  obtain D' V' F' where w: "fold (expand ix ts vis h) F (D, V, []) = (D', V', F')"
    by (cases "fold (expand ix ts vis h) F (D, V, [])")
  have "found D (set V) h {} {} (D, V, [])" by (simp add: found_def)
  from expand_all_found [where ns = F and ix = ix and ts = ts and vis = vis, OF this] w
  have f: "\<And>i. hm_get D' i = (if i \<in> ?S then Some (Suc h) else hm_get D i)" "set V' = set V \<union> ?E"
    "set F' = ?S" by (simp_all add: found_def)
  have D: "\<And>i d. hm_get D i = Some d \<longleftrightarrow> d \<le> h \<and> distance ?R start i d"
    and F: "set F = {i. distance ?R start i h}"
    and V: "set V = {eid. \<exists>n m d. d < h \<and> distance ?R start n d \<and> usable ix ts vis n eid m}"
    using assms by (auto simp: level_def)
  have none: "hm_get D m = None \<longleftrightarrow> (\<forall>d \<le> h. \<not> distance ?R start m d)" for m
    using D [of m] by (cases "hm_get D m") auto
  have S: "?S = {m. distance ?R start m (Suc h)}"
    by (auto simp: F none distance_Suc)
  have "hm_get D' i = Some d \<longleftrightarrow> d \<le> Suc h \<and> distance ?R start i d" for i d
    using D [of i d] distance_unique [of ?R start i d "Suc h"] unfolding f(1) S
    by (auto simp: le_Suc_eq)
  moreover have "set V' = {eid. \<exists>n m d. d < Suc h \<and> distance ?R start n d \<and> usable ix ts vis n eid m}"
    unfolding f(2) V F less_Suc_eq by blast
  ultimately show ?thesis by (simp add: level_def w f(3) S)
qed

lemma level_exhausted:
  assumes "level ix ts vis start h (D, V, [])" "h \<le> k"
  shows "level ix ts vis start k (D, V, [])"
proof -
  let ?R = "adjacent ix ts vis"
  have D: "\<And>i d. hm_get D i = Some d \<longleftrightarrow> d \<le> h \<and> distance ?R start i d"
    and F: "\<And>i. \<not> distance ?R start i h"
    and V: "set V = {eid. \<exists>n m d. d < h \<and> distance ?R start n d \<and> usable ix ts vis n eid m}"
    using assms(1) by (simp_all add: level_def)
  have none: "distance ?R start n d \<Longrightarrow> d < h" for n d
    using F distance_earlier [of ?R start n d h] by (metis not_le)
  have "hm_get D i = Some d \<longleftrightarrow> d \<le> k \<and> distance ?R start i d" for i d
    using none [of i d] assms(2) unfolding D by linarith
  moreover have "\<not> distance ?R start i k" for i
    using none [of i k] assms(2) by linarith
  moreover have "d < h \<and> distance ?R start n d \<longleftrightarrow> d < k \<and> distance ?R start n d" for n d
    using none [of n d] assms(2) by linarith
  then have "set V = {eid. \<exists>n m d. d < k \<and> distance ?R start n d \<and> usable ix ts vis n eid m}"
    unfolding V by blast
  ultimately show ?thesis by (simp add: level_def)
qed

lemma hops_level:
  assumes "level ix ts vis start h (D, V, F)" "hops ix ts vis k h (D, V, F) = (D', V')"
  shows "\<exists>F'. level ix ts vis start (h + k) (D', V', F')"
  using assms
proof (induction k arbitrary: h D V F)
  case 0
  then show ?case by auto
next
  case (Suc k)
  show ?case
  proof (cases "F = []")
    case True
    with Suc.prems level_exhausted [of ix ts vis start h D V "h + Suc k"] show ?thesis by auto
  next
    case False
    obtain D1 V1 F1 where w: "fold (expand ix ts vis h) F (D, V, []) = (D1, V1, F1)"
      by (cases "fold (expand ix ts vis h) F (D, V, [])")
    with Suc.IH [of "Suc h" D1 V1 F1] level_step [OF Suc.prems(1)] Suc.prems(2) False
    show ?thesis by simp
  qed
qed

lemma walk_graph_spec:
  shows walk_graph_nodes: "(i, n, d) \<in> set (sg_nodes (walk_graph ix ts vis max_hops start)) \<longleftrightarrow>
      d \<le> max_hops \<and> distance (adjacent ix ts vis) start i d \<and> n = the (hm_get (gi_nodes ix) i)"
    and walk_graph_edges: "(eid, e) \<in> set (sg_edges (walk_graph ix ts vis max_hops start)) \<longleftrightarrow>
      (\<exists>k m d'. d' < max_hops \<and> distance (adjacent ix ts vis) start k d' \<and> usable ix ts vis k eid m)
      \<and> e = the (hm_get (gi_edges ix) eid)"
proof -
  obtain D V where w: "hops ix ts vis max_hops 0 ([(start, 0)], [], [start]) = (D, V)" by fastforce
  have "level ix ts vis start 0 ([(start, 0)], [], [start])" by (auto simp: level_def)
  from hops_level [OF this w] obtain F where l: "level ix ts vis start max_hops (D, V, F)" by auto
  have "hm_wf D" using hm_wf_hops [of "([(start, 0)], [], [start])" ix ts vis max_hops 0] w by simp
  then have "(i, d) \<in> set D \<longleftrightarrow> hm_get D i = Some d" by (rule hm_mem_get)
  moreover have "hm_get D i = Some d \<longleftrightarrow> d \<le> max_hops \<and> distance (adjacent ix ts vis) start i d"
    using l by (simp add: level_def)
  ultimately have D: "(i, d) \<in> set D \<longleftrightarrow> d \<le> max_hops \<and> distance (adjacent ix ts vis) start i d"
    by (rule trans)
  have "(i, n, d) \<in> set (sg_nodes (walk_graph ix ts vis max_hops start)) \<longleftrightarrow>
      (i, d) \<in> set D \<and> n = the (hm_get (gi_nodes ix) i)"
    by (auto simp: walk_graph_def w)
  then show "(i, n, d) \<in> set (sg_nodes (walk_graph ix ts vis max_hops start)) \<longleftrightarrow>
      d \<le> max_hops \<and> distance (adjacent ix ts vis) start i d \<and> n = the (hm_get (gi_nodes ix) i)"
    unfolding D by (simp only: conj_assoc)
  have V: "eid \<in> set V \<longleftrightarrow> (\<exists>k m d'. d' < max_hops \<and> distance (adjacent ix ts vis) start k d'
      \<and> usable ix ts vis k eid m)"
    using l by (auto simp: level_def)
  have "(eid, e) \<in> set (sg_edges (walk_graph ix ts vis max_hops start)) \<longleftrightarrow>
      eid \<in> set V \<and> e = the (hm_get (gi_edges ix) eid)"
    by (auto simp: walk_graph_def w)
  then show "(eid, e) \<in> set (sg_edges (walk_graph ix ts vis max_hops start)) \<longleftrightarrow>
      (\<exists>k m d'. d' < max_hops \<and> distance (adjacent ix ts vis) start k d' \<and> usable ix ts vis k eid m)
      \<and> e = the (hm_get (gi_edges ix) eid)" unfolding V .
qed

lemma usable_active:
  "usable ix ts vis k eid m \<Longrightarrow> active_edge ix eid = Some e \<longleftrightarrow> e = the (hm_get (gi_edges ix) eid)"
  by (auto simp: usable_def leads_def active_edge_def split: option.splits if_splits)

text \<open>
  Claim C27: a traversal finds exactly the nodes within reach, by shortest ways.  It returns a node
  with a depth exactly when the shortest walk to it along active edges of the wanted types, either
  way and over visible nodes only, has that many edges and no more than the limit; and it returns
  exactly the usable edges at the nodes closer than the limit.
\<close>

theorem walk_graph_shortest:
  "((i, n, d) \<in> set (sg_nodes (walk_graph ix ts vis max_hops start)) \<longleftrightarrow>
      d \<le> max_hops \<and> distance (adjacent ix ts vis) start i d \<and> n = the (hm_get (gi_nodes ix) i))
   \<and> ((eid, e) \<in> set (sg_edges (walk_graph ix ts vis max_hops start)) \<longleftrightarrow>
      (\<exists>k m d'. d' < max_hops \<and> distance (adjacent ix ts vis) start k d' \<and> usable ix ts vis k eid m)
      \<and> active_edge ix eid = Some e)"
proof -
  let ?U = "\<exists>k m d'. d' < max_hops \<and> distance (adjacent ix ts vis) start k d' \<and> usable ix ts vis k eid m"
  have "active_edge ix eid = Some e \<longleftrightarrow> e = the (hm_get (gi_edges ix) eid)" if ?U
    using that by (elim exE conjE) (rule usable_active)
  then have "(?U \<and> active_edge ix eid = Some e) = (?U \<and> e = the (hm_get (gi_edges ix) eid))"
    by (rule conj_cong [OF refl])
  then show ?thesis by (simp only: walk_graph_nodes walk_graph_edges simp_thms)
qed

end
