(* ===== verification/Knowledge_Graph.thy ===== *)
theory Knowledge_Graph
  imports Graph_Index Events
begin

text \<open>
  The knowledge graph, \<open>crates/hyperion-knowledge-graph/src/graph.rs\<close> with \<open>import.rs\<close> and
  \<open>export.rs\<close>: every operation over the storage engine of theory Storage, the index of theory
  Graph_Index and the event bus of theory Events.

  A graph is the engine with its file, the index, and the bus it may publish to.  What a call
  takes from outside is its \<open>kg_io\<close>: the readings of the two clocks at the places that read
  them, the nonces, and how the writes go.  Publishing can wait for a full mailbox, so an
  operation that publishes is None when it does not return.
\<close>

section \<open>State and surroundings\<close>

datatype GraphError =
    GraphUnauthorized
  | GraphNotFound
  | GraphStorage StorageError
  | Malformed
  | CrossTenantGrantRequired tenant_id tenant_id

datatype LinkOutcome = Created edge_id | Updated edge_id | SuppressedByTombstone edge_id

record 'j query_hit =
  qh_node_id :: node_id
  qh_node :: "'j node_record"
  qh_score :: real

record 'j graph_snapshot =
  gs_nodes :: "(node_id \<times> 'j node_record) list"
  gs_edges :: "(edge_id \<times> edge_record) list"

datatype ProvenanceChain =
    NodeChain node_id string u64 u64 u64 "edge_id list"
  | EdgeChain edge_id node_id string node_id EdgeOrigin string "real option" u64 bool

datatype ExplainRef = NodeRef node_id | EdgeRef edge_id

record ('j, 'v) knowledge_graph =
  kg_storage :: "'v storage"
  kg_index :: "'j graph_index"
  kg_events :: "'v event_system option"

text \<open>Third-party code: the codecs, and the JSON value that announces a change.\<close>

record ('j, 'v) kg_env =
  env_wal :: "'v wal_codec"
  env_record :: "('j, 'v) record_codec"
  env_event :: "'v event_codec"
  env_changed :: "u64 \<Rightarrow> u64 \<Rightarrow> 'v"

record kg_io =
  io_now_require :: instant
  io_now_grant :: instant
  io_now_storage :: instant
  io_now_publish :: instant
  io_wall_created :: u64
  io_wall_updated :: u64
  io_wall_changed :: u64
  io_wall_event :: u64
  io_nonce :: bytes
  io_append :: append_io
  io_event :: append_io
  io_nonces :: "nat \<Rightarrow> bytes"
  io_compact :: compact_io

section \<open>Opening\<close>

definition kg_open_impl ::
    "('j, 'v) kg_env \<Rightarrow> bytes option \<Rightarrow> bytes option \<Rightarrow> (GraphError, ('j, 'v) knowledge_graph) result" where
  "kg_open_impl env file key =
     (case (case key of
              Some k \<Rightarrow> open_encrypted (env_wal env) file k
            | None \<Rightarrow> storage_open (env_wal env) file) of
        Inl e \<Rightarrow> Inl (GraphStorage e)
      | Inr storage \<Rightarrow>
          (case (case key of
                   Some k \<Rightarrow> rebuild_encrypted (env_record env) (env_wal env) (Some (snd storage)) k
                 | None \<Rightarrow> rebuild (env_record env) (env_wal env) (Some (snd storage))) of
             Inl e \<Rightarrow> Inl (GraphStorage e)
           | Inr ix \<Rightarrow> Inr \<lparr>kg_storage = storage, kg_index = ix, kg_events = None\<rparr>))"

definition kg_open ::
    "('j, 'v) kg_env \<Rightarrow> bytes option \<Rightarrow> (GraphError, ('j, 'v) knowledge_graph) result" where
  "kg_open env file = kg_open_impl env file None"

definition kg_open_encrypted ::
    "('j, 'v) kg_env \<Rightarrow> ('key \<Rightarrow> string \<Rightarrow> bytes) \<Rightarrow> bytes option \<Rightarrow> 'key
     \<Rightarrow> (GraphError, ('j, 'v) knowledge_graph) result" where
  "kg_open_encrypted env derive_key file device_key =
     kg_open_impl env file (Some (derive_key device_key ''hyperion.knowledge-graph.wal.v1''))"

definition with_events :: "'v event_system \<Rightarrow> ('j, 'v) knowledge_graph \<Rightarrow> ('j, 'v) knowledge_graph" where
  "with_events bus g = g\<lparr>kg_events := Some bus\<rparr>"

section \<open>Helpers of every operation\<close>

definition publish_changed ::
    "('j, 'v) kg_env \<Rightarrow> kg_io \<Rightarrow> capability_monitor \<Rightarrow> capability_token \<Rightarrow> u64 \<Rightarrow> u64 \<Rightarrow> u64 list
     \<Rightarrow> ('j, 'v) knowledge_graph \<Rightarrow> ('j, 'v) knowledge_graph option" where
  "publish_changed env io monitor token subject_id owner ancestors g =
     (case kg_events g of
        None \<Rightarrow> Some g
      | Some bus \<Rightarrow>
          (let topic = topic_new ObjectChanged (Object subject_id) ''kg.object_changed.v1'';
               payload = Inline (env_changed env subject_id (io_wall_changed io))
           in map_option (\<lambda>(_, bus'). g\<lparr>kg_events := Some bus'\<rparr>)
                (publish (env_event env) (io_event io) monitor token (io_now_publish io) (io_wall_event io)
                   owner topic payload ancestors bus)))"

definition require ::
    "capability_monitor \<Rightarrow> capability_token \<Rightarrow> instant \<Rightarrow> u32 \<Rightarrow> (GraphError, unit) result" where
  "require monitor token now rights =
     map_err (\<lambda>_. GraphUnauthorized) (check_rights_ok_result monitor token rights now)"

text \<open>The tail every write shares: the record goes to the engine, then to the index, then the
  change is announced.\<close>

definition store_record ::
    "('j, 'v) kg_env \<Rightarrow> kg_io \<Rightarrow> capability_monitor \<Rightarrow> capability_token \<Rightarrow> st_object_id option
     \<Rightarrow> version_id option \<Rightarrow> 'j Record \<Rightarrow> u64 \<Rightarrow> u64 list \<Rightarrow> (st_object_id \<Rightarrow> 'r)
     \<Rightarrow> ('j, 'v) knowledge_graph \<Rightarrow> ((GraphError, 'r) result \<times> ('j, 'v) knowledge_graph) option" where
  "store_record env io monitor token id_arg expected_version record owner ancestors reply g =
     (case put_object (env_wal env) (io_nonce io) (io_append io) monitor token (io_now_storage io)
             id_arg expected_version (rec_to_value (env_record env) record) (kg_storage g) of
        (Inl e, storage) \<Rightarrow> Some (Inl (GraphStorage e), g\<lparr>kg_storage := storage\<rparr>)
      | (Inr (assigned_id, _), storage) \<Rightarrow>
          (let g = g\<lparr>kg_storage := storage, kg_index := index_apply assigned_id record (kg_index g)\<rparr>
           in map_option (\<lambda>g. (Inr (reply assigned_id), g))
                (publish_changed env io monitor token assigned_id owner ancestors g)))"

section \<open>Edges\<close>

definition tenant_of :: "'j graph_index \<Rightarrow> node_id \<Rightarrow> tenant_id" where
  "tenant_of ix n = (case hm_get (gi_nodes ix) n of None \<Rightarrow> 0 | Some r \<Rightarrow> nr_tenant_id r)"

definition find_edge ::
    "'j graph_index \<Rightarrow> node_id \<Rightarrow> string \<Rightarrow> node_id \<Rightarrow> (edge_id \<times> edge_record) option" where
  "find_edge ix subject predicate target =
     Option.bind (hm_get (gi_edge_identity ix) (subject, predicate, target)) (\<lambda>i.
       map_option (\<lambda>e. (i, e)) (hm_get (gi_edges ix) i))"

text \<open>The arguments of a link, besides the token.\<close>

record link_args =
  la_subject :: node_id
  la_predicate :: string
  la_target :: node_id
  la_weight :: real
  la_origin :: EdgeOrigin
  la_confidence :: "real option"
  la_provenance :: string
  la_observed_version :: "u64 option"

definition link_record ::
    "link_args \<Rightarrow> u64 \<Rightarrow> u64 \<Rightarrow> u64 \<Rightarrow> (edge_id \<times> edge_record) option \<Rightarrow> edge_record" where
  "link_record a owner created_at now existing =
     \<lparr>er_subject = la_subject a, er_predicate = la_predicate a, er_target = la_target a,
      er_weight = la_weight a, er_provenance = la_provenance a, er_origin = la_origin a,
      er_confidence = la_confidence a, er_owner = owner, er_created_at = created_at,
      er_last_confirmed_at = now, er_tombstone = False,
      er_version = (case existing of None \<Rightarrow> 0 | Some (_, e) \<Rightarrow> er_version e + 1)\<rparr>"

definition link ::
    "('j, 'v) kg_env \<Rightarrow> kg_io \<Rightarrow> capability_monitor \<Rightarrow> capability_token \<Rightarrow> link_args
     \<Rightarrow> ('j, 'v) knowledge_graph \<Rightarrow> ((GraphError, LinkOutcome) result \<times> ('j, 'v) knowledge_graph) option" where
  "link env io monitor token a g =
     (case require monitor token (io_now_require io) WRITE of
        Inl e \<Rightarrow> Some (Inl e, g)
      | Inr _ \<Rightarrow>
          (let ix = kg_index g;
               subject_tenant = tenant_of ix (la_subject a);
               target_tenant = tenant_of ix (la_target a)
           in if subject_tenant \<noteq> target_tenant
                 \<and> \<not> is_ok (check_rights_ok_result monitor token GRANT (io_now_grant io))
              then Some (Inl (CrossTenantGrantRequired subject_tenant target_tenant), g)
              else
                let existing = find_edge ix (la_subject a) (la_predicate a) (la_target a);
                    caller_boundary = ct_origin token;
                    write = (\<lambda>id_arg expected created_at owner reply.
                      store_record env io monitor token id_arg expected
                        (Edge (link_record a owner created_at (io_wall_updated io) existing))
                        owner [la_subject a, la_target a] reply g)
                in case existing of
                     Some (i, e) \<Rightarrow>
                       if er_owner e \<noteq> caller_boundary then Some (Inl GraphNotFound, g)
                       else if er_tombstone e
                       then (if (case la_observed_version a of None \<Rightarrow> False | Some v \<Rightarrow> er_version e \<le> v)
                             then write (Some i) (current_version (fst (kg_storage g)) i) (er_created_at e)
                                    caller_boundary Created
                             else Some (Inr (SuppressedByTombstone i), g))
                       else write (Some i) (current_version (fst (kg_storage g)) i) (er_created_at e)
                              (er_owner e) Updated
                   | None \<Rightarrow> write None None (io_wall_created io) caller_boundary Created))"

definition unlink ::
    "('j, 'v) kg_env \<Rightarrow> kg_io \<Rightarrow> capability_monitor \<Rightarrow> capability_token \<Rightarrow> edge_id
     \<Rightarrow> ('j, 'v) knowledge_graph \<Rightarrow> ((GraphError, unit) result \<times> ('j, 'v) knowledge_graph) option" where
  "unlink env io monitor token edge_id g =
     (case require monitor token (io_now_require io) WRITE of
        Inl e \<Rightarrow> Some (Inl e, g)
      | Inr _ \<Rightarrow>
          (case hm_get (gi_edges (kg_index g)) edge_id of
             None \<Rightarrow> Some (Inl GraphNotFound, g)
           | Some existing \<Rightarrow>
               if er_owner existing \<noteq> ct_origin token then Some (Inl GraphNotFound, g)
               else if er_tombstone existing then Some (Inr (), g)
               else store_record env io monitor token (Some edge_id)
                      (current_version (fst (kg_storage g)) edge_id)
                      (Edge (existing\<lparr>er_tombstone := True, er_version := er_version existing + 1\<rparr>))
                      (ct_origin token) [er_subject existing, er_target existing] (\<lambda>_. ()) g))"

text \<open>The sweep: the edges are chosen under the lock, then unlinked one by one, each with clock
  readings and writes of its own.\<close>

definition decayed_edges :: "'j graph_index \<Rightarrow> u64 \<Rightarrow> real \<Rightarrow> u64 \<Rightarrow> edge_id list" where
  "decayed_edges ix boundary threshold now =
     map fst (filter (\<lambda>(_, e). \<not> er_tombstone e \<and> er_owner e = boundary \<and> er_origin e = Inferred
                                \<and> effective_edge_weight e now < threshold) (gi_edges ix))"

fun unlink_all ::
    "('j, 'v) kg_env \<Rightarrow> (edge_id \<Rightarrow> kg_io) \<Rightarrow> capability_monitor \<Rightarrow> capability_token \<Rightarrow> edge_id list
     \<Rightarrow> ('j, 'v) knowledge_graph \<Rightarrow> ((GraphError, unit) result \<times> ('j, 'v) knowledge_graph) option" where
  "unlink_all env ios monitor token [] g = Some (Inr (), g)"
| "unlink_all env ios monitor token (i # is') g =
     Option.bind (unlink env (ios i) monitor token i g) (\<lambda>(res, g).
       case res of Inl e \<Rightarrow> Some (Inl e, g) | Inr _ \<Rightarrow> unlink_all env ios monitor token is' g)"

definition prune_decayed_edges ::
    "('j, 'v) kg_env \<Rightarrow> kg_io \<Rightarrow> (edge_id \<Rightarrow> kg_io) \<Rightarrow> capability_monitor \<Rightarrow> capability_token \<Rightarrow> real \<Rightarrow> u64
     \<Rightarrow> ('j, 'v) knowledge_graph
     \<Rightarrow> ((GraphError, edge_id list) result \<times> ('j, 'v) knowledge_graph) option" where
  "prune_decayed_edges env io ios monitor token threshold now g =
     (case require monitor token (io_now_require io) WRITE of
        Inl e \<Rightarrow> Some (Inl e, g)
      | Inr _ \<Rightarrow>
          (let to_prune = decayed_edges (kg_index g) (ct_origin token) threshold now
           in map_option (\<lambda>(res, g). (and_then res (\<lambda>_. Inr to_prune), g))
                (unlink_all env ios monitor token to_prune g)))"

section \<open>Nodes\<close>

record 'j node_args =
  na_object_type :: string
  na_embedding :: "real list option"
  na_metadata :: 'j
  na_device_origin :: u64
  na_origin :: NodeOrigin
  na_tenant_id :: tenant_id

definition put_node_with_provenance ::
    "('j, 'v) kg_env \<Rightarrow> kg_io \<Rightarrow> capability_monitor \<Rightarrow> capability_token \<Rightarrow> node_id option \<Rightarrow> 'j node_args
     \<Rightarrow> ('j, 'v) knowledge_graph \<Rightarrow> ((GraphError, node_id) result \<times> ('j, 'v) knowledge_graph) option" where
  "put_node_with_provenance env io monitor token node_id a g =
     (case require monitor token (io_now_require io) WRITE of
        Inl e \<Rightarrow> Some (Inl e, g)
      | Inr _ \<Rightarrow>
          (let caller_boundary = ct_origin token;
               expected_version = Option.bind node_id (current_version (fst (kg_storage g)));
               existing = Option.bind node_id (hm_get (gi_nodes (kg_index g)))
           in if (case existing of None \<Rightarrow> False | Some n \<Rightarrow> nr_owner n \<noteq> caller_boundary)
              then Some (Inl GraphNotFound, g)
              else store_record env io monitor token node_id expected_version
                     (Node \<lparr>nr_object_type = na_object_type a, nr_embedding = na_embedding a,
                       nr_metadata = na_metadata a,
                       nr_owner = (case existing of None \<Rightarrow> caller_boundary | Some n \<Rightarrow> nr_owner n),
                       nr_device_origin = na_device_origin a, nr_origin = na_origin a,
                       nr_corroboration_count =
                         (case existing of None \<Rightarrow> 0 | Some n \<Rightarrow> nr_corroboration_count n),
                       nr_tenant_id = na_tenant_id a,
                       nr_created_at = (case existing of None \<Rightarrow> io_wall_created io | Some n \<Rightarrow> nr_created_at n),
                       nr_updated_at = io_wall_updated io,
                       nr_tombstone = (case existing of None \<Rightarrow> False | Some n \<Rightarrow> nr_tombstone n)\<rparr>)
                     caller_boundary [] (\<lambda>i. i) g))"

definition put_node_with_device_origin ::
    "('j, 'v) kg_env \<Rightarrow> kg_io \<Rightarrow> capability_monitor \<Rightarrow> capability_token \<Rightarrow> node_id option \<Rightarrow> string
     \<Rightarrow> real list option \<Rightarrow> 'j \<Rightarrow> u64
     \<Rightarrow> ('j, 'v) knowledge_graph \<Rightarrow> ((GraphError, node_id) result \<times> ('j, 'v) knowledge_graph) option" where
  "put_node_with_device_origin env io monitor token node_id object_type embedding md device_origin g =
     put_node_with_provenance env io monitor token node_id
       \<lparr>na_object_type = object_type, na_embedding = embedding, na_metadata = md,
        na_device_origin = device_origin, na_origin = node_origin_default, na_tenant_id = 0\<rparr> g"

definition put_node_with_tenant ::
    "('j, 'v) kg_env \<Rightarrow> kg_io \<Rightarrow> capability_monitor \<Rightarrow> capability_token \<Rightarrow> node_id option \<Rightarrow> string
     \<Rightarrow> real list option \<Rightarrow> 'j \<Rightarrow> tenant_id
     \<Rightarrow> ('j, 'v) knowledge_graph \<Rightarrow> ((GraphError, node_id) result \<times> ('j, 'v) knowledge_graph) option" where
  "put_node_with_tenant env io monitor token node_id object_type embedding md tenant_id g =
     put_node_with_provenance env io monitor token node_id
       \<lparr>na_object_type = object_type, na_embedding = embedding, na_metadata = md,
        na_device_origin = 0, na_origin = node_origin_default, na_tenant_id = tenant_id\<rparr> g"

definition put_node ::
    "('j, 'v) kg_env \<Rightarrow> kg_io \<Rightarrow> capability_monitor \<Rightarrow> capability_token \<Rightarrow> node_id option \<Rightarrow> string
     \<Rightarrow> real list option \<Rightarrow> 'j
     \<Rightarrow> ('j, 'v) knowledge_graph \<Rightarrow> ((GraphError, node_id) result \<times> ('j, 'v) knowledge_graph) option" where
  "put_node env io monitor token node_id object_type embedding md g =
     put_node_with_device_origin env io monitor token node_id object_type embedding md 0 g"

definition corroborate_node ::
    "('j, 'v) kg_env \<Rightarrow> kg_io \<Rightarrow> capability_monitor \<Rightarrow> capability_token \<Rightarrow> node_id
     \<Rightarrow> ('j, 'v) knowledge_graph \<Rightarrow> ((GraphError, u32) result \<times> ('j, 'v) knowledge_graph) option" where
  "corroborate_node env io monitor token node_id g =
     (case require monitor token (io_now_require io) WRITE of
        Inl e \<Rightarrow> Some (Inl e, g)
      | Inr _ \<Rightarrow>
          (case hm_get (gi_nodes (kg_index g)) node_id of
             None \<Rightarrow> Some (Inl GraphNotFound, g)
           | Some existing \<Rightarrow>
               if nr_tombstone existing \<or> nr_owner existing \<noteq> ct_origin token
               then Some (Inl GraphNotFound, g)
               else
                 let new_count = saturating_add (nr_corroboration_count existing) 1
                 in store_record env io monitor token (Some node_id)
                      (current_version (fst (kg_storage g)) node_id)
                      (Node (existing\<lparr>nr_corroboration_count := new_count,
                                      nr_updated_at := io_wall_updated io\<rparr>))
                      (ct_origin token) [] (\<lambda>_. new_count) g))"

definition kg_get ::
    "capability_monitor \<Rightarrow> capability_token \<Rightarrow> instant \<Rightarrow> node_id \<Rightarrow> ('j, 'v) knowledge_graph
     \<Rightarrow> (GraphError, 'j node_record) result" where
  "kg_get monitor token now node_id g =
     and_then (require monitor token now READ) (\<lambda>_.
       case hm_get (gi_nodes (kg_index g)) node_id of
         None \<Rightarrow> Inl GraphNotFound
       | Some n \<Rightarrow> if \<not> nr_tombstone n \<and> nr_owner n = ct_origin token then Inr n else Inl GraphNotFound)"

definition delete_node ::
    "('j, 'v) kg_env \<Rightarrow> kg_io \<Rightarrow> capability_monitor \<Rightarrow> capability_token \<Rightarrow> node_id
     \<Rightarrow> ('j, 'v) knowledge_graph \<Rightarrow> ((GraphError, unit) result \<times> ('j, 'v) knowledge_graph) option" where
  "delete_node env io monitor token node_id g =
     (case require monitor token (io_now_require io) WRITE of
        Inl e \<Rightarrow> Some (Inl e, g)
      | Inr _ \<Rightarrow>
          (case hm_get (gi_nodes (kg_index g)) node_id of
             None \<Rightarrow> Some (Inl GraphNotFound, g)
           | Some existing \<Rightarrow>
               if nr_owner existing \<noteq> ct_origin token then Some (Inl GraphNotFound, g)
               else if nr_tombstone existing then Some (Inr (), g)
               else store_record env io monitor token (Some node_id)
                      (current_version (fst (kg_storage g)) node_id)
                      (Node (existing\<lparr>nr_tombstone := True, nr_updated_at := io_wall_updated io\<rparr>))
                      (ct_origin token) [] (\<lambda>_. ()) g))"

definition purge_node_history ::
    "('j, 'v) kg_env \<Rightarrow> kg_io \<Rightarrow> capability_monitor \<Rightarrow> capability_token \<Rightarrow> node_id
     \<Rightarrow> ('j, 'v) knowledge_graph \<Rightarrow> ((GraphError, nat) result \<times> ('j, 'v) knowledge_graph) option" where
  "purge_node_history env io monitor token node_id g =
     (case require monitor token (io_now_require io) WRITE of
        Inl e \<Rightarrow> Some (Inl e, g)
      | Inr _ \<Rightarrow>
          (case hm_get (gi_nodes (kg_index g)) node_id of
             None \<Rightarrow> Some (Inl GraphNotFound, g)
           | Some existing \<Rightarrow>
               if nr_owner existing \<noteq> ct_origin token then Some (Inl GraphNotFound, g)
               else
                 case purge_object (env_wal env) (io_nonces io) (io_compact io) monitor token
                        (io_now_storage io) node_id (kg_storage g) of
                   (Inl e, storage) \<Rightarrow> Some (Inl (GraphStorage e), g\<lparr>kg_storage := storage\<rparr>)
                 | (Inr purged, storage) \<Rightarrow>
                     (let ix = kg_index g;
                          g = g\<lparr>kg_storage := storage,
                                kg_index := ix\<lparr>gi_nodes := hm_remove node_id (gi_nodes ix)\<rparr>\<rparr>
                      in map_option (\<lambda>g. (Inr purged, g))
                           (publish_changed env io monitor token node_id (ct_origin token) [] g))))"

definition kg_current_version :: "('j, 'v) knowledge_graph \<Rightarrow> node_id \<Rightarrow> version_id option" where
  "kg_current_version g node_id = current_version (fst (kg_storage g)) node_id"

definition get_at_version ::
    "('j, 'v) kg_env \<Rightarrow> capability_monitor \<Rightarrow> capability_token \<Rightarrow> instant \<Rightarrow> instant \<Rightarrow> node_id \<Rightarrow> version_id
     \<Rightarrow> ('j, 'v) knowledge_graph \<Rightarrow> (GraphError, 'j node_record) result" where
  "get_at_version env monitor token now now' node_id version g =
     and_then (require monitor token now READ) (\<lambda>_.
       case hm_get (gi_nodes (kg_index g)) node_id of
         None \<Rightarrow> Inl GraphNotFound
       | Some n \<Rightarrow>
           if nr_owner n \<noteq> ct_origin token then Inl GraphNotFound
           else case get_object monitor token now' (fst (kg_storage g)) node_id (Some version) of
                  Inl e \<Rightarrow> Inl (if e = NotFound then GraphNotFound else GraphStorage e)
                | Inr payload \<Rightarrow>
                    (case rec_from_value (env_record env) payload of
                       Some (Node record) \<Rightarrow> Inr record
                     | _ \<Rightarrow> Inl GraphNotFound))"

section \<open>Queries\<close>

definition visible_nodes :: "'j graph_index \<Rightarrow> u64 \<Rightarrow> (node_id \<times> 'j node_record) list" where
  "visible_nodes ix boundary = filter (\<lambda>(_, n). \<not> nr_tombstone n \<and> nr_owner n = boundary) (gi_nodes ix)"

definition visible_edges :: "'j graph_index \<Rightarrow> u64 \<Rightarrow> (edge_id \<times> edge_record) list" where
  "visible_edges ix boundary = filter (\<lambda>(_, e). \<not> er_tombstone e \<and> er_owner e = boundary) (gi_edges ix)"

definition query ::
    "capability_monitor \<Rightarrow> capability_token \<Rightarrow> instant \<Rightarrow> graph_query \<Rightarrow> ('j, 'v) knowledge_graph
     \<Rightarrow> (GraphError, 'j query_hit list) result" where
  "query monitor token now q g =
     and_then (require monitor token now READ) (\<lambda>_.
       let ix = kg_index g;
           hits = List.map_filter (\<lambda>(i, n).
             let rationale = rank_against ix i n q
             in if rk_would_be_included rationale
                then Some \<lparr>qh_node_id = i, qh_node = n, qh_score = rk_similarity rationale\<rparr> else None)
             (visible_nodes ix (ct_origin token));
           hits = sort_key (\<lambda>h. - qh_score h) hits
       in Inr (if 0 < gq_limit q then take (gq_limit q) hits else hits))"

definition explain_ranking ::
    "capability_monitor \<Rightarrow> capability_token \<Rightarrow> instant \<Rightarrow> node_id \<Rightarrow> graph_query \<Rightarrow> ('j, 'v) knowledge_graph
     \<Rightarrow> (GraphError, ranking_rationale) result" where
  "explain_ranking monitor token now node_id q g =
     and_then (require monitor token now READ) (\<lambda>_.
       case hm_get (gi_nodes (kg_index g)) node_id of
         None \<Rightarrow> Inl GraphNotFound
       | Some n \<Rightarrow>
           if \<not> nr_tombstone n \<and> nr_owner n = ct_origin token
           then Inr (rank_against (kg_index g) node_id n q) else Inl GraphNotFound)"

definition dump ::
    "capability_monitor \<Rightarrow> capability_token \<Rightarrow> instant \<Rightarrow> ('j, 'v) knowledge_graph
     \<Rightarrow> (GraphError, 'j graph_snapshot) result" where
  "dump monitor token now g =
     and_then (require monitor token now READ) (\<lambda>_.
       Inr \<lparr>gs_nodes = sort_key fst (visible_nodes (kg_index g) (ct_origin token)),
            gs_edges = sort_key fst (visible_edges (kg_index g) (ct_origin token))\<rparr>)"

definition traverse_with_device_origin_filter ::
    "capability_monitor \<Rightarrow> capability_token \<Rightarrow> instant \<Rightarrow> node_id \<Rightarrow> string list option \<Rightarrow> nat \<Rightarrow> u64 option
     \<Rightarrow> ('j, 'v) knowledge_graph \<Rightarrow> (GraphError, 'j subgraph) result" where
  "traverse_with_device_origin_filter monitor token now start edge_types max_hops device_origin_filter g =
     and_then (require monitor token now READ) (\<lambda>_.
       let ix = kg_index g;
           visible = node_visible ix (ct_origin token) device_origin_filter
       in if \<not> visible start then Inl GraphNotFound
          else Inr (walk_graph ix edge_types visible max_hops start))"

definition traverse ::
    "capability_monitor \<Rightarrow> capability_token \<Rightarrow> instant \<Rightarrow> node_id \<Rightarrow> string list option \<Rightarrow> nat
     \<Rightarrow> ('j, 'v) knowledge_graph \<Rightarrow> (GraphError, 'j subgraph) result" where
  "traverse monitor token now start edge_types max_hops g =
     traverse_with_device_origin_filter monitor token now start edge_types max_hops None g"

definition kg_generation ::
    "capability_monitor \<Rightarrow> capability_token \<Rightarrow> instant \<Rightarrow> node_id \<Rightarrow> ('j, 'v) knowledge_graph
     \<Rightarrow> (GraphError, u64) result" where
  "kg_generation monitor token now node_id g =
     and_then (kg_get monitor token now node_id g) (\<lambda>n. Inr (nr_updated_at n))"

definition kg_explain ::
    "capability_monitor \<Rightarrow> capability_token \<Rightarrow> instant \<Rightarrow> ExplainRef \<Rightarrow> ('j, 'v) knowledge_graph
     \<Rightarrow> (GraphError, ProvenanceChain) result" where
  "kg_explain monitor token now target g =
     and_then (require monitor token now READ) (\<lambda>_.
       let ix = kg_index g
       in case target of
            NodeRef i \<Rightarrow>
              (case hm_get (gi_nodes ix) i of
                 None \<Rightarrow> Inl GraphNotFound
               | Some n \<Rightarrow>
                   if nr_owner n \<noteq> ct_origin token then Inl GraphNotFound
                   else Inr (NodeChain i (nr_object_type n) (nr_owner n) (nr_created_at n) (nr_updated_at n)
                          (remdups_adj (sort (edges_at (gi_forward ix) i @ edges_at (gi_backward ix) i)))))
          | EdgeRef i \<Rightarrow>
              (case hm_get (gi_edges ix) i of
                 None \<Rightarrow> Inl GraphNotFound
               | Some e \<Rightarrow>
                   if er_owner e \<noteq> ct_origin token then Inl GraphNotFound
                   else Inr (EdgeChain i (er_subject e) (er_predicate e) (er_target e) (er_origin e)
                          (er_provenance e) (er_confidence e) (er_created_at e) (er_tombstone e))))"

section \<open>Import and export\<close>

record 'j imported_node =
  im_id :: u64
  im_object_type :: string
  im_metadata :: 'j

record imported_edge =
  ie_subject :: u64
  ie_predicate :: string
  ie_target :: u64
  ie_weight :: real
  ie_provenance :: string
  ie_origin :: EdgeOrigin
  ie_confidence :: "real option"

record 'j graph_import =
  gp_nodes :: "'j imported_node list"
  gp_edges :: "imported_edge list"

record import_report =
  ir_nodes_created :: nat
  ir_edges_created :: nat
  ir_edges_skipped_unresolved :: nat

text \<open>The two loops of an import; the calls take their surroundings from a sequence.\<close>

fun import_nodes ::
    "('j, 'v) kg_env \<Rightarrow> (nat \<Rightarrow> kg_io) \<Rightarrow> nat \<Rightarrow> capability_monitor \<Rightarrow> capability_token \<Rightarrow> 'j imported_node list
     \<Rightarrow> (u64, node_id) hashmap \<Rightarrow> ('j, 'v) knowledge_graph
     \<Rightarrow> ((GraphError, (u64, node_id) hashmap) result \<times> ('j, 'v) knowledge_graph) option" where
  "import_nodes env ios k monitor token [] translation g = Some (Inr translation, g)"
| "import_nodes env ios k monitor token (n # ns) translation g =
     Option.bind (put_node env (ios k) monitor token None (im_object_type n) None (im_metadata n) g)
       (\<lambda>(res, g). case res of
          Inl e \<Rightarrow> Some (Inl e, g)
        | Inr real_id \<Rightarrow>
            import_nodes env ios (k + 1) monitor token ns (hm_insert (im_id n) real_id translation) g)"

fun import_edges ::
    "('j, 'v) kg_env \<Rightarrow> (nat \<Rightarrow> kg_io) \<Rightarrow> nat \<Rightarrow> capability_monitor \<Rightarrow> capability_token \<Rightarrow> imported_edge list
     \<Rightarrow> (u64, node_id) hashmap \<Rightarrow> nat \<Rightarrow> nat \<Rightarrow> ('j, 'v) knowledge_graph
     \<Rightarrow> ((GraphError, nat \<times> nat) result \<times> ('j, 'v) knowledge_graph) option" where
  "import_edges env ios k monitor token [] translation created skipped g =
     Some (Inr (created, skipped), g)"
| "import_edges env ios k monitor token (e # es) translation created skipped g =
     (case (hm_get translation (ie_subject e), hm_get translation (ie_target e)) of
        (Some subject, Some target) \<Rightarrow>
          Option.bind (link env (ios k) monitor token
              \<lparr>la_subject = subject, la_predicate = ie_predicate e, la_target = target,
               la_weight = ie_weight e, la_origin = ie_origin e, la_confidence = ie_confidence e,
               la_provenance = ie_provenance e, la_observed_version = None\<rparr> g)
            (\<lambda>(res, g). case res of
               Inl err \<Rightarrow> Some (Inl err, g)
             | Inr _ \<Rightarrow> import_edges env ios (k + 1) monitor token es translation (created + 1) skipped g)
      | _ \<Rightarrow> import_edges env ios k monitor token es translation created (skipped + 1) g)"

definition import_json ::
    "('j, 'v) kg_env \<Rightarrow> (string \<Rightarrow> 'j graph_import option) \<Rightarrow> (nat \<Rightarrow> kg_io) \<Rightarrow> capability_monitor
     \<Rightarrow> capability_token \<Rightarrow> string \<Rightarrow> ('j, 'v) knowledge_graph
     \<Rightarrow> ((GraphError, import_report) result \<times> ('j, 'v) knowledge_graph) option" where
  "import_json env parse ios monitor token json g =
     (case parse json of
        None \<Rightarrow> Some (Inl Malformed, g)
      | Some parsed \<Rightarrow>
          Option.bind (import_nodes env ios 0 monitor token (gp_nodes parsed) [] g) (\<lambda>(res, g).
            case res of
              Inl e \<Rightarrow> Some (Inl e, g)
            | Inr translation \<Rightarrow>
                map_option (\<lambda>(res, g).
                    (and_then res (\<lambda>(created, skipped).
                       Inr \<lparr>ir_nodes_created = length (gp_nodes parsed), ir_edges_created = created,
                            ir_edges_skipped_unresolved = skipped\<rparr>), g))
                  (import_edges env ios (length (gp_nodes parsed)) monitor token (gp_edges parsed)
                     translation 0 0 g)))"

definition default_query :: graph_query where
  "default_query = \<lparr>gq_type_filter = None, gq_embedding_query = None, gq_time_range = None,
     gq_edge_constraint = None, gq_device_origin_filter = None, gq_limit = 0\<rparr>"

definition seed_if_empty ::
    "('j, 'v) kg_env \<Rightarrow> (string \<Rightarrow> 'j graph_import option) \<Rightarrow> (nat \<Rightarrow> kg_io) \<Rightarrow> instant \<Rightarrow> capability_monitor
     \<Rightarrow> capability_token \<Rightarrow> string \<Rightarrow> ('j, 'v) knowledge_graph
     \<Rightarrow> ((GraphError, import_report option) result \<times> ('j, 'v) knowledge_graph) option" where
  "seed_if_empty env parse ios now monitor token json g =
     (case query monitor token now default_query g of
        Inl e \<Rightarrow> Some (Inl e, g)
      | Inr existing \<Rightarrow>
          if existing \<noteq> [] then Some (Inr None, g)
          else map_option (\<lambda>(res, g). (and_then res (\<lambda>report. Inr (Some report)), g))
                 (import_json env parse ios monitor token json g))"

record 'j exported_node =
  xn_id :: u64
  xn_object_type :: string
  xn_metadata :: 'j
  xn_owner :: u64
  xn_device_origin :: u64
  xn_created_at :: u64
  xn_updated_at :: u64

record exported_edge =
  xe_id :: u64
  xe_subject :: u64
  xe_predicate :: string
  xe_target :: u64
  xe_weight :: real
  xe_provenance :: string
  xe_origin :: EdgeOrigin
  xe_confidence :: "real option"
  xe_owner :: u64
  xe_created_at :: u64

record 'j graph_export =
  gx_nodes :: "'j exported_node list"
  gx_edges :: "exported_edge list"

definition to_json :: "('j graph_export \<Rightarrow> string) \<Rightarrow> 'j graph_snapshot \<Rightarrow> string" where
  "to_json to_string_pretty snapshot =
     to_string_pretty
       \<lparr>gx_nodes = map (\<lambda>(i, n).
          \<lparr>xn_id = i, xn_object_type = nr_object_type n, xn_metadata = nr_metadata n, xn_owner = nr_owner n,
           xn_device_origin = nr_device_origin n, xn_created_at = nr_created_at n,
           xn_updated_at = nr_updated_at n\<rparr>) (gs_nodes snapshot),
        gx_edges = map (\<lambda>(i, e).
          \<lparr>xe_id = i, xe_subject = er_subject e, xe_predicate = er_predicate e, xe_target = er_target e,
           xe_weight = er_weight e, xe_provenance = er_provenance e, xe_origin = er_origin e,
           xe_confidence = er_confidence e, xe_owner = er_owner e, xe_created_at = er_created_at e\<rparr>)
          (gs_edges snapshot)\<rparr>"

definition export_json ::
    "('j graph_export \<Rightarrow> string) \<Rightarrow> capability_monitor \<Rightarrow> capability_token \<Rightarrow> instant
     \<Rightarrow> ('j, 'v) knowledge_graph \<Rightarrow> (GraphError, string) result" where
  "export_json to_string_pretty monitor token now g =
     and_then (dump monitor token now g) (\<lambda>snapshot. Inr (to_json to_string_pretty snapshot))"

section \<open>Calls and runs\<close>

text \<open>The calls that change a graph; an import is the sequence of its writes.\<close>

datatype 'j kg_call =
    Link kg_io capability_monitor capability_token link_args
  | Unlink kg_io capability_monitor capability_token edge_id
  | Prune kg_io "edge_id \<Rightarrow> kg_io" capability_monitor capability_token real u64
  | PutNode kg_io capability_monitor capability_token "node_id option" "'j node_args"
  | Corroborate kg_io capability_monitor capability_token node_id
  | DeleteNode kg_io capability_monitor capability_token node_id
  | PurgeNode kg_io capability_monitor capability_token node_id

fun kg_step ::
    "('j, 'v) kg_env \<Rightarrow> 'j kg_call \<Rightarrow> ('j, 'v) knowledge_graph \<Rightarrow> ('j, 'v) knowledge_graph option" where
  "kg_step env (Link io m t a) g = map_option snd (link env io m t a g)"
| "kg_step env (Unlink io m t i) g = map_option snd (unlink env io m t i g)"
| "kg_step env (Prune io ios m t threshold now) g =
     map_option snd (prune_decayed_edges env io ios m t threshold now g)"
| "kg_step env (PutNode io m t i a) g = map_option snd (put_node_with_provenance env io m t i a g)"
| "kg_step env (Corroborate io m t i) g = map_option snd (corroborate_node env io m t i g)"
| "kg_step env (DeleteNode io m t i) g = map_option snd (delete_node env io m t i g)"
| "kg_step env (PurgeNode io m t i) g = map_option snd (purge_node_history env io m t i g)"

fun kg_token :: "'j kg_call \<Rightarrow> capability_token" where
  "kg_token (Link _ _ t _) = t"
| "kg_token (Unlink _ _ t _) = t"
| "kg_token (Prune _ _ _ t _ _) = t"
| "kg_token (PutNode _ _ t _ _) = t"
| "kg_token (Corroborate _ _ t _) = t"
| "kg_token (DeleteNode _ _ t _) = t"
| "kg_token (PurgeNode _ _ t _) = t"

text \<open>The counters have room: an identifier and a version are left for each edge, and one more.\<close>

definition room :: "('j, 'v) knowledge_graph \<Rightarrow> bool" where
  "room g \<longleftrightarrow>
     unat (se_next_object_id (fst (kg_storage g))) + length (gi_edges (kg_index g)) + 1 < 2 ^ 64
     \<and> unat (se_next_version_id (fst (kg_storage g))) + length (gi_edges (kg_index g)) + 1 < 2 ^ 64"

inductive kg_run ::
    "('j, 'v) kg_env \<Rightarrow> ('j kg_call \<Rightarrow> ('j, 'v) knowledge_graph \<Rightarrow> bool) \<Rightarrow> ('j, 'v) knowledge_graph
     \<Rightarrow> ('j, 'v) knowledge_graph \<Rightarrow> bool"
  for env P g where
  kg_run_start: "kg_run env P g g"
| kg_run_step: "kg_run env P g g' \<Longrightarrow> P call g' \<Longrightarrow> room g' \<Longrightarrow> kg_step env call g' = Some g''
    \<Longrightarrow> kg_run env P g g''"

end
