(* ===== verification/Graph_Safety.thy ===== *)
theory Graph_Safety
  imports Knowledge_Graph "HOL-Library.Multiset"
begin

text \<open>
  What the operations of theory Knowledge_Graph guarantee: every call is a sequence of elementary
  changes, trust boundaries do not touch each other's records, a deleted node stays deleted, and a
  graph opened on the log's file is the graph that wrote it.
\<close>

declare map_of_eq_Some_iff [simp del] Some_eq_map_of_iff [simp del]

section \<open>What a call changes\<close>

text \<open>
  Every call is a sequence of elementary changes made for its caller's boundary: a write the engine
  refused, a record stored under the caller's name where the caller may write it, a purge.
\<close>

definition may_store :: "u64 \<Rightarrow> st_object_id option \<Rightarrow> version_id option \<Rightarrow> 'j Record \<Rightarrow> ('j, 'v) knowledge_graph \<Rightarrow> bool" where
  "may_store b id_arg expected record g \<longleftrightarrow>
     expected = Option.bind id_arg (current_version (fst (kg_storage g)))
     \<and> (case record of
          Node n \<Rightarrow> nr_owner n = b
            \<and> (\<forall>i n0. id_arg = Some i \<longrightarrow> hm_get (gi_nodes (kg_index g)) i = Some n0
                 \<longrightarrow> nr_owner n0 = b \<and> (nr_tombstone n0 \<longrightarrow> nr_tombstone n))
        | Edge e \<Rightarrow> er_owner e = b
            \<and> (\<forall>i. id_arg = Some i \<longrightarrow>
                 (\<exists>e0. hm_get (gi_edges (kg_index g)) i = Some e0 \<and> er_owner e0 = b)))"

inductive change ::
    "('j, 'v) kg_env \<Rightarrow> u64 \<Rightarrow> node_id set \<Rightarrow> kg_io \<Rightarrow> ('j, 'v) knowledge_graph
     \<Rightarrow> ('j, 'v) knowledge_graph \<Rightarrow> bool"
  for env b X io g g' where
  unchanged: "kg_storage g' = kg_storage g \<Longrightarrow> kg_index g' = kg_index g \<Longrightarrow> change env b X io g g'"
| refused: "put_object (env_wal env) (io_nonce io) (io_append io) m t now id_arg expected md (kg_storage g)
      = (Inl e, kg_storage g')
    \<Longrightarrow> kg_index g' = kg_index g \<Longrightarrow> change env b X io g g'"
| stored: "put_object (env_wal env) (io_nonce io) (io_append io) m t now id_arg expected
        (rec_to_value (env_record env) record) (kg_storage g) = (Inr (i, v), kg_storage g')
    \<Longrightarrow> kg_index g' = index_apply i record (kg_index g) \<Longrightarrow> may_store b id_arg expected record g
    \<Longrightarrow> X = {} \<Longrightarrow> change env b X io g g'"
| purge_refused: "purge_object (env_wal env) (io_nonces io) (io_compact io) m t now i (kg_storage g)
      = (Inl e, kg_storage g')
    \<Longrightarrow> kg_index g' = kg_index g \<Longrightarrow> change env b X io g g'"
| purged: "purge_object (env_wal env) (io_nonces io) (io_compact io) m t now i (kg_storage g)
      = (Inr k, kg_storage g')
    \<Longrightarrow> kg_index g' = (kg_index g)\<lparr>gi_nodes := hm_remove i (gi_nodes (kg_index g))\<rparr>
    \<Longrightarrow> hm_get (gi_nodes (kg_index g)) i = Some n \<Longrightarrow> nr_owner n = b \<Longrightarrow> i \<in> X
    \<Longrightarrow> change env b X io g g'"

lemma put_object_storage:
  assumes "put_object c nonce io m t now id_arg expected md (e, f) = (res, (e', f'))"
  shows "case res of
      Inl _ \<Rightarrow> e' = e \<or> e' = allocate id_arg e
    | Inr (i, v) \<Rightarrow> i = put_target e id_arg \<and> hm_get (se_version_pointer e) i = expected
        \<and> e' = commit_record (put_record t e id_arg md) (allocate id_arg e)"
  using assms by (auto simp: put_object_eq split: if_splits prod.splits sum.splits)

lemma purge_object_storage:
  assumes "purge_object c nonces io m t now i (e, f) = (res, (e', f'))"
  shows "\<exists>w. case res of Inl _ \<Rightarrow> e' = e \<or> e' = e\<lparr>se_wal := w\<rparr> | Inr _ \<Rightarrow> e' = purge_engine w i e"
  using assms by (auto simp: purge_object_eq split: if_splits prod.splits sum.splits)

lemma publish_changed_keeps:
  assumes "publish_changed env io m t s owner anc g = Some g'"
  shows "kg_storage g' = kg_storage g" "kg_index g' = kg_index g"
  using assms by (auto simp: publish_changed_def Let_def split: option.splits)

lemma store_record_change:
  assumes "store_record env io m t id_arg expected record owner anc reply g = Some (res, g')"
    "may_store b id_arg expected record g"
  shows "change env b {} io g g'"
proof -
  obtain pr st where put: "put_object (env_wal env) (io_nonce io) (io_append io) m t (io_now_storage io)
      id_arg expected (rec_to_value (env_record env) record) (kg_storage g) = (pr, st)"
    by (meson surj_pair)
  show ?thesis
  proof (cases pr)
    case (Inl e)
    with put assms(1) show ?thesis by (auto simp: store_record_def intro: refused)
  next
    case (Inr iv)
    obtain i v where "iv = (i, v)" by (cases iv)
    with Inr put assms(1) publish_changed_keeps
    have "kg_storage g' = st \<and> kg_index g' = index_apply i record (kg_index g)"
      by (fastforce simp: store_record_def Let_def)
    with Inr put assms(2) \<open>iv = (i, v)\<close> show ?thesis by (auto intro: stored)
  qed
qed

lemma store_record_Inr:
  assumes "store_record env io m t id_arg expected record owner anc reply g = Some (Inr r, g')"
  obtains i where "kg_index g' = index_apply i record (kg_index g)" "r = reply i"
    "i = put_target (fst (kg_storage g)) id_arg"
proof -
  obtain e f where s: "kg_storage g = (e, f)" by (cases "kg_storage g")
  obtain pr e' f' where put: "put_object (env_wal env) (io_nonce io) (io_append io) m t (io_now_storage io)
      id_arg expected (rec_to_value (env_record env) record) (e, f) = (pr, (e', f'))"
    by (metis surj_pair)
  with assms s obtain i v where pr: "pr = Inr (i, v)" by (cases pr) (auto simp: store_record_def)
  from assms put pr s publish_changed_keeps
  have "kg_index g' = index_apply i record (kg_index g)" "r = reply i"
    by (fastforce simp: store_record_def Let_def)+
  moreover have "i = put_target (fst (kg_storage g)) id_arg"
    using put_object_storage [OF put] pr s by simp
  ultimately show ?thesis by (rule that)
qed

lemma link_change: "link env io m t a g = Some (res, g') \<Longrightarrow> change env (ct_origin t) {} io g g'"
  by (auto simp: link_def Let_def find_edge_def may_store_def link_record_def bind_eq_Some_conv
      split: sum.splits if_splits option.splits intro: unchanged elim!: store_record_change)

lemma unlink_change: "unlink env io m t i g = Some (res, g') \<Longrightarrow> change env (ct_origin t) {} io g g'"
  by (auto simp: unlink_def may_store_def split: sum.splits if_splits option.splits
      intro: unchanged elim!: store_record_change)

lemma put_node_change:
  "put_node_with_provenance env io m t i a g = Some (res, g') \<Longrightarrow> change env (ct_origin t) {} io g g'"
  by (auto simp: put_node_with_provenance_def Let_def may_store_def split: sum.splits if_splits option.splits
      intro: unchanged elim!: store_record_change)

lemma corroborate_change:
  "corroborate_node env io m t i g = Some (res, g') \<Longrightarrow> change env (ct_origin t) {} io g g'"
  by (auto simp: corroborate_node_def Let_def may_store_def split: sum.splits if_splits option.splits
      intro: unchanged elim!: store_record_change)

lemma delete_node_change:
  "delete_node env io m t i g = Some (res, g') \<Longrightarrow> change env (ct_origin t) {} io g g'"
  by (auto simp: delete_node_def may_store_def split: sum.splits if_splits option.splits
      intro: unchanged elim!: store_record_change)

lemma purge_node_change:
  assumes "purge_node_history env io m t i g = Some (res, g')"
  shows "change env (ct_origin t) {i} io g g'"
proof (cases "require m t (io_now_require io) WRITE = Inr ()
    \<and> (\<exists>n. hm_get (gi_nodes (kg_index g)) i = Some n \<and> nr_owner n = ct_origin t)")
  case False
  with assms have "g' = g" by (auto simp: purge_node_history_def split: sum.splits option.splits if_splits)
  then show ?thesis by (simp add: unchanged)
next
  case True
  then obtain n where n: "hm_get (gi_nodes (kg_index g)) i = Some n" "nr_owner n = ct_origin t" by blast
  obtain pr st where put: "purge_object (env_wal env) (io_nonces io) (io_compact io) m t (io_now_storage io)
      i (kg_storage g) = (pr, st)" by (meson surj_pair)
  show ?thesis
  proof (cases pr)
    case (Inl e)
    with put assms n True show ?thesis by (auto simp: purge_node_history_def intro: purge_refused)
  next
    case (Inr k)
    with put assms n True publish_changed_keeps
    have "kg_storage g' = st \<and> kg_index g' = (kg_index g)\<lparr>gi_nodes := hm_remove i (gi_nodes (kg_index g))\<rparr>"
      by (fastforce simp: purge_node_history_def Let_def)
    with Inr put n show ?thesis by (auto intro: purged)
  qed
qed

lemma purge_node_Inr:
  assumes "purge_node_history env io m t i g = Some (Inr k, g')"
  shows "purge_object (env_wal env) (io_nonces io) (io_compact io) m t (io_now_storage io) i (kg_storage g)
      = (Inr k, kg_storage g')"
    "kg_index g' = (kg_index g)\<lparr>gi_nodes := hm_remove i (gi_nodes (kg_index g))\<rparr>"
proof -
  obtain pr st where purge: "purge_object (env_wal env) (io_nonces io) (io_compact io) m t (io_now_storage io)
      i (kg_storage g) = (pr, st)" by (meson surj_pair)
  from assms obtain k' where pr: "pr = Inr k'"
    using purge by (cases pr) (auto simp: purge_node_history_def split: sum.splits option.splits if_splits)
  let ?g = "g\<lparr>kg_storage := st, kg_index := (kg_index g)\<lparr>gi_nodes := hm_remove i (gi_nodes (kg_index g))\<rparr>\<rparr>"
  from assms have "k' = k \<and> publish_changed env io m t i (ct_origin t) [] ?g = Some g'"
    using purge pr by (auto simp: purge_node_history_def Let_def split: sum.splits option.splits if_splits)
  with publish_changed_keeps [of env io m t i "ct_origin t" "[]" ?g g'] purge pr
  show "purge_object (env_wal env) (io_nonces io) (io_compact io) m t (io_now_storage io) i (kg_storage g)
      = (Inr k, kg_storage g')"
    "kg_index g' = (kg_index g)\<lparr>gi_nodes := hm_remove i (gi_nodes (kg_index g))\<rparr>" by simp_all
qed

text \<open>The surroundings a call uses, and the number of elementary changes it can make.\<close>

fun kg_ios :: "'j kg_call \<Rightarrow> kg_io set" where
  "kg_ios (Link io _ _ _) = {io}"
| "kg_ios (Unlink io _ _ _) = {io}"
| "kg_ios (Prune _ ios _ _ _ _) = range ios"
| "kg_ios (PutNode io _ _ _ _) = {io}"
| "kg_ios (Corroborate io _ _ _) = {io}"
| "kg_ios (DeleteNode io _ _ _) = {io}"
| "kg_ios (PurgeNode io _ _ _) = {io}"

text \<open>The nodes a call can purge.\<close>

fun kg_purges :: "'j kg_call \<Rightarrow> node_id set" where
  "kg_purges (PurgeNode _ _ _ i) = {i}"
| "kg_purges _ = {}"

abbreviation changes ::
    "('j, 'v) kg_env \<Rightarrow> 'j kg_call \<Rightarrow> ('j, 'v) knowledge_graph \<Rightarrow> ('j, 'v) knowledge_graph \<Rightarrow> bool" where
  "changes env call g g' \<equiv> \<exists>io \<in> kg_ios call. change env (ct_origin (kg_token call)) (kg_purges call) io g g'"

lemma unlink_all_changes:
  assumes "unlink_all env ios m t is' g = Some (res, g')"
  shows "\<exists>k \<le> length is'. ((\<lambda>g g'. \<exists>i. change env (ct_origin t) {} (ios i) g g') ^^ k) g g'"
  using assms
proof (induction is' arbitrary: g)
  case Nil
  then show ?case by auto
next
  case (Cons i is')
  let ?R = "\<lambda>g g'. \<exists>i. change env (ct_origin t) {} (ios i) g g'"
  obtain r1 g1 where u: "unlink env (ios i) m t i g = Some (r1, g1)"
    using Cons.prems by (auto simp: bind_eq_Some_conv)
  have step: "?R g g1" using unlink_change [OF u] by blast
  show ?case
  proof (cases r1)
    case (Inl e)
    with Cons.prems u step have "(?R ^^ 1) g g'" by auto
    then show ?thesis by (intro exI [of _ 1]) simp
  next
    case (Inr x)
    with Cons.prems u Cons.IH obtain k where "k \<le> length is'" "(?R ^^ k) g1 g'" by auto
    with step show ?thesis by (intro exI [of _ "Suc k"]) (simp only: relpowp_Suc_I2 list.size, simp)
  qed
qed

lemma kg_step_changes:
  assumes "kg_step env call g = Some g'"
  shows "\<exists>k \<le> length (gi_edges (kg_index g)) + 1. (changes env call ^^ k) g g'"
proof (cases call)
  case (Prune io ios m t threshold now)
  have le: "length (decayed_edges (kg_index g) (ct_origin t) threshold now) \<le> length (gi_edges (kg_index g))"
    by (simp add: decayed_edges_def)
  show ?thesis
  proof (cases "require m t (io_now_require io) WRITE")
    case (Inl e)
    with assms Prune have "(changes env call ^^ 0) g g'" by (simp add: prune_decayed_edges_def)
    then show ?thesis by blast
  next
    case (Inr x)
    with assms Prune obtain res where
      "unlink_all env ios m t (decayed_edges (kg_index g) (ct_origin t) threshold now) g = Some (res, g')"
      by (auto simp: prune_decayed_edges_def Let_def)
    from unlink_all_changes [OF this] obtain k where
      "k \<le> length (decayed_edges (kg_index g) (ct_origin t) threshold now)" "(changes env call ^^ k) g g'"
      using Prune by auto
    with le show ?thesis by (intro exI [of _ k]) simp
  qed
next
  case (Link io m t a)
  with assms have "(changes env call ^^ 1) g g'" by (auto dest: link_change)
  then show ?thesis by (intro exI [of _ 1]) simp
next
  case (Unlink io m t i)
  with assms have "(changes env call ^^ 1) g g'" by (auto dest: unlink_change)
  then show ?thesis by (intro exI [of _ 1]) simp
next
  case (PutNode io m t i a)
  with assms have "(changes env call ^^ 1) g g'" by (auto dest: put_node_change)
  then show ?thesis by (intro exI [of _ 1]) simp
next
  case (Corroborate io m t i)
  with assms have "(changes env call ^^ 1) g g'" by (auto dest: corroborate_change)
  then show ?thesis by (intro exI [of _ 1]) simp
next
  case (DeleteNode io m t i)
  with assms have "(changes env call ^^ 1) g g'" by (auto dest: delete_node_change)
  then show ?thesis by (intro exI [of _ 1]) simp
next
  case (PurgeNode io m t i)
  with assms have "(changes env call ^^ 1) g g'" by (auto dest: purge_node_change)
  then show ?thesis by (intro exI [of _ 1]) simp
qed

text \<open>What holds after each elementary change holds after a call, while the counters have room.\<close>

definition counters_after :: "nat \<Rightarrow> ('j, 'v) knowledge_graph \<Rightarrow> ('j, 'v) knowledge_graph \<Rightarrow> bool" where
  "counters_after k g g' \<longleftrightarrow>
     unat (se_next_object_id (fst (kg_storage g'))) \<le> unat (se_next_object_id (fst (kg_storage g))) + k
     \<and> unat (se_next_version_id (fst (kg_storage g'))) \<le> unat (se_next_version_id (fst (kg_storage g))) + k"

abbreviation has_next :: "('j, 'v) knowledge_graph \<Rightarrow> bool" where
  "has_next g \<equiv> se_next_object_id (fst (kg_storage g)) \<noteq> - 1 \<and> se_next_version_id (fst (kg_storage g)) \<noteq> - 1"

lemma unat_add_one_le: "unat (x + 1 :: u64) \<le> Suc (unat x)"
  by (cases "x = - 1") (simp_all add: unat_add_one)

lemma next_object_id_allocate:
  "se_next_object_id (allocate id_arg e) = (if id_arg = None then se_next_object_id e + 1 else se_next_object_id e)"
  by (auto simp: allocate_def split: option.splits)

lemma change_counters:
  assumes "change env b X io g g'"
  shows "counters_after 1 g g'"
proof -
  obtain e f e' f' where s: "kg_storage g = (e, f)" "kg_storage g' = (e', f')" by (meson surj_pair)
  have "e' = e \<or> (\<exists>ia. e' = allocate ia e) \<or> (\<exists>ia r. e' = commit_record r (allocate ia e))
      \<or> (\<exists>w. e' = e\<lparr>se_wal := w\<rparr>) \<or> (\<exists>w i. e' = purge_engine w i e)"
    using assms
  proof cases
    case unchanged
    with s show ?thesis by auto
  next
    case (refused m t now id_arg expected md x)
    from put_object_storage [OF refused(1) [unfolded s]] show ?thesis by auto
  next
    case (stored m t now id_arg expected rc i v)
    from put_object_storage [OF stored(1) [unfolded s]] show ?thesis by auto
  next
    case (purge_refused m t now i x)
    from purge_object_storage [OF purge_refused(1) [unfolded s]] show ?thesis by auto
  next
    case (purged m t now i k n)
    from purge_object_storage [OF purged(1) [unfolded s]] show ?thesis by auto
  qed
  then show ?thesis
    using s unat_add_one_le
    by (auto simp: counters_after_def commit_record_def purge_engine_def next_object_id_allocate)
qed

lemma kg_step_induct:
  assumes step: "kg_step env call g = Some g'" and "room g" and start: "Q g"
    and ind: "\<And>io g g'. io \<in> kg_ios call \<Longrightarrow> change env (ct_origin (kg_token call)) (kg_purges call) io g g'
      \<Longrightarrow> has_next g \<Longrightarrow> Q g \<Longrightarrow> Q g'"
  shows "Q g'"
proof -
  obtain k where k: "k \<le> length (gi_edges (kg_index g)) + 1" "(changes env call ^^ k) g g'"
    using kg_step_changes [OF step] by blast
  have "Q h \<and> counters_after j g h" if "(changes env call ^^ j) g h" "j \<le> k" for h j
    using that
  proof (induction j arbitrary: h)
    case 0
    with start show ?case by (simp add: counters_after_def)
  next
    case (Suc j)
    from Suc.prems(1) obtain h0 io where h0: "(changes env call ^^ j) g h0" "io \<in> kg_ios call"
      "change env (ct_origin (kg_token call)) (kg_purges call) io h0 h" by auto
    with Suc have ih: "Q h0" "counters_after j g h0" by auto
    have "has_next h0"
      using ih(2) Suc.prems(2) k(1) \<open>room g\<close>
      by (auto simp: counters_after_def room_def unat_max_word)
    with ind h0 ih change_counters [OF h0(3)] show ?case by (auto simp: counters_after_def)
  qed
  with k(2) show ?thesis by blast
qed

section \<open>Trust boundaries do not touch each other's records\<close>

definition owned_nodes :: "u64 \<Rightarrow> 'j graph_index \<Rightarrow> (node_id \<times> 'j node_record) set" where
  "owned_nodes b ix = {(i, n). hm_get (gi_nodes ix) i = Some n \<and> nr_owner n = b}"

definition owned_edges :: "u64 \<Rightarrow> 'j graph_index \<Rightarrow> (edge_id \<times> edge_record) set" where
  "owned_edges b ix = {(i, e). hm_get (gi_edges ix) i = Some e \<and> er_owner e = b}"

definition graph_ok :: "('j, 'v) knowledge_graph \<Rightarrow> bool" where
  "graph_ok g \<longleftrightarrow>
     hm_wf (gi_nodes (kg_index g)) \<and> hm_wf (gi_edges (kg_index g))
     \<and> (\<forall>i. hm_contains_key (gi_nodes (kg_index g)) i
            \<longrightarrow> hm_contains_key (se_version_pointer (fst (kg_storage g))) i)
     \<and> (\<forall>i. hm_contains_key (gi_edges (kg_index g)) i \<longrightarrow> i < se_next_object_id (fst (kg_storage g)))"

lemma graph_ok_wf: "graph_ok g \<Longrightarrow> hm_wf (gi_nodes (kg_index g))" "graph_ok g \<Longrightarrow> hm_wf (gi_edges (kg_index g))"
  by (simp_all add: graph_ok_def)

lemma index_apply_simps:
  "gi_nodes (index_apply i (Node n) ix) = hm_insert i n (gi_nodes ix)"
  "gi_edges (index_apply i (Node n) ix) = gi_edges ix"
  "gi_nodes (index_apply i (Edge e) ix) = gi_nodes ix"
  "gi_edges (index_apply i (Edge e) ix) = hm_insert i e (gi_edges ix)"
  by (simp_all add: Let_def)

declare index_apply.simps [simp del]

lemma stored_place:
  assumes put: "put_object c nonce io m t now id_arg expected md (e, f) = (Inr (i, v), (e', f'))"
    and ok: "graph_ok g" "kg_storage g = (e, f)" and may: "may_store b id_arg expected rc g"
  shows "case rc of
      Node n \<Rightarrow> nr_owner n = b
        \<and> (\<forall>n0. hm_get (gi_nodes (kg_index g)) i = Some n0 \<longrightarrow> nr_owner n0 = b
             \<and> (nr_tombstone n0 \<longrightarrow> nr_tombstone n))
    | Edge d \<Rightarrow> er_owner d = b
        \<and> (\<forall>d0. hm_get (gi_edges (kg_index g)) i = Some d0 \<longrightarrow> er_owner d0 = b)"
proof (cases id_arg)
  case None
  with put_object_storage [OF put] may
  have "i = se_next_object_id e" "hm_get (se_version_pointer e) i = None"
    by (auto simp: put_target_def may_store_def)
  with ok have "hm_get (gi_nodes (kg_index g)) i = None" "hm_get (gi_edges (kg_index g)) i = None"
    unfolding graph_ok_def by (metis fst_conv, metis fst_conv order_less_irrefl)
  with may show ?thesis by (auto simp: may_store_def split: Record.splits)
next
  case (Some j)
  with put_object_storage [OF put] have "i = j" by (simp add: put_target_def)
  with may Some show ?thesis by (auto simp: may_store_def split: Record.splits)
qed

lemma change_owned:
  assumes ch: "change env a X io g g'" and ok: "graph_ok g" and "a \<noteq> b"
  shows "owned_nodes b (kg_index g') = owned_nodes b (kg_index g)"
    "owned_edges b (kg_index g') = owned_edges b (kg_index g)"
proof -
  obtain e f e' f' where s: "kg_storage g = (e, f)" "kg_storage g' = (e', f')" by (meson surj_pair)
  have "owned_nodes b (kg_index g') = owned_nodes b (kg_index g)
      \<and> owned_edges b (kg_index g') = owned_edges b (kg_index g)"
    using ch
  proof cases
    case (stored m t now id_arg expected rc i v)
    note place = stored_place [OF stored(1) [unfolded s] ok s(1) stored(3)]
    show ?thesis
    proof (cases rc)
      case (Node n)
      with place stored(2) \<open>a \<noteq> b\<close> show ?thesis
        by (auto simp: owned_nodes_def owned_edges_def index_apply_simps split: if_splits)
    next
      case (Edge d)
      with place stored(2) \<open>a \<noteq> b\<close> show ?thesis
        by (auto simp: owned_nodes_def owned_edges_def index_apply_simps split: if_splits)
    qed
  next
    case (purged m t now i k n)
    with ok \<open>a \<noteq> b\<close> show ?thesis
      by (auto simp: owned_nodes_def owned_edges_def graph_ok_def map_of_delete AList.delete_conv' split: if_splits)
  qed simp_all
  then show "owned_nodes b (kg_index g') = owned_nodes b (kg_index g)"
    "owned_edges b (kg_index g') = owned_edges b (kg_index g)" by simp_all
qed

lemma less_allocated:
  "se_next_object_id e \<noteq> - 1 \<Longrightarrow> i < se_next_object_id e \<Longrightarrow> i < se_next_object_id (allocate ia e)"
  using word_less_add_one [of "se_next_object_id e"]
  by (auto simp: next_object_id_allocate intro: less_trans)

lemma change_graph_ok:
  assumes ch: "change env a X io g g'" and ok: "graph_ok g" and "has_next g"
  shows "graph_ok g'"
proof -
  obtain e f e' f' where s: "kg_storage g = (e, f)" "kg_storage g' = (e', f')" by (meson surj_pair)
  have next_ok: "se_next_object_id e \<noteq> - 1" using \<open>has_next g\<close> s by simp
  show ?thesis
    using ch
  proof cases
    case unchanged
    with ok show ?thesis by (simp add: graph_ok_def)
  next
    case (refused m t now id_arg expected md x)
    with put_object_storage [OF refused(1) [unfolded s]] ok s next_ok show ?thesis
      by (auto simp: graph_ok_def less_allocated)
  next
    case (stored m t now id_arg expected rc i v)
    note st = put_object_storage [OF stored(1) [unfolded s]]
    then have i: "i = put_target e id_arg"
      and e': "se_version_pointer e' = hm_insert i (se_next_version_id e) (se_version_pointer e)"
        "se_next_object_id e' = se_next_object_id (allocate id_arg e)"
      by (simp_all add: commit_record_def put_record_def)
    show ?thesis
    proof (cases rc)
      case (Node n)
      with stored(2) ok s e' next_ok show ?thesis
        by (auto simp: graph_ok_def index_apply_simps less_allocated)
    next
      case (Edge d)
      have "i < se_next_object_id (allocate id_arg e)"
      proof (cases id_arg)
        case None
        with i next_ok show ?thesis
          by (simp add: put_target_def next_object_id_allocate word_less_add_one)
      next
        case (Some j)
        with stored(3) Edge i have "hm_contains_key (gi_edges (kg_index g)) i"
          by (auto simp: may_store_def put_target_def)
        with ok s next_ok show ?thesis by (simp add: graph_ok_def less_allocated)
      qed
      with Edge stored(2) ok s e' next_ok show ?thesis
        by (auto simp: graph_ok_def index_apply_simps less_allocated)
    qed
  next
    case (purge_refused m t now i x)
    with purge_object_storage [OF purge_refused(1) [unfolded s]] ok s show ?thesis
      by (auto simp: graph_ok_def)
  next
    case (purged m t now i k n)
    from purge_object_storage [OF purged(1) [unfolded s]] obtain w where "e' = purge_engine w i e" by auto
    with purged ok s show ?thesis
      by (auto simp: graph_ok_def purge_engine_def AList.delete_conv' split: if_splits)
  qed
qed

lemma kg_run_induct:
  assumes "kg_run env P g g'" "Q g"
    and "\<And>call h0 io h h'. P call h0 \<Longrightarrow> io \<in> kg_ios call
      \<Longrightarrow> change env (ct_origin (kg_token call)) (kg_purges call) io h h' \<Longrightarrow> has_next h \<Longrightarrow> Q h \<Longrightarrow> Q h'"
  shows "Q g'"
  using assms(1)
proof (induction rule: kg_run.induct)
  case kg_run_start
  show ?case by (rule assms(2))
next
  case (kg_run_step h call h')
  show ?case
    by (rule kg_step_induct [where Q = Q, OF kg_run_step(4,3,5)]) (use kg_run_step(2) assms(3) in blast)
qed

text \<open>An opened graph: the records of the file, and nothing else, are in the index.\<close>

lemma rebuild_from_snoc: "rebuild_from rc (rs @ [r]) = apply_wal rc r (rebuild_from rc rs)"
  by (simp add: rebuild_from_def)

lemma rebuild_from_wf:
  "hm_wf (gi_nodes (rebuild_from rc rs))" "hm_wf (gi_edges (rebuild_from rc rs))"
proof (induction rs rule: rev_induct)
  case Nil
  { case 1 show ?case by (simp add: rebuild_from_def index_empty_def) }
  { case 2 show ?case by (simp add: rebuild_from_def index_empty_def) }
next
  case (snoc r rs)
  { case 1 show ?case using snoc
      by (cases "rec_from_value rc (wr_metadata r)"; cases "the (rec_from_value rc (wr_metadata r))")
        (auto simp: rebuild_from_snoc apply_wal_def index_apply_simps) }
  { case 2 show ?case using snoc
      by (cases "rec_from_value rc (wr_metadata r)"; cases "the (rec_from_value rc (wr_metadata r))")
        (auto simp: rebuild_from_snoc apply_wal_def index_apply_simps) }
qed

lemma rebuild_from_nodes:
  "hm_contains_key (gi_nodes (rebuild_from rc rs)) i \<Longrightarrow> \<exists>r \<in> set rs. wr_object_id r = i"
proof (induction rs rule: rev_induct)
  case (snoc r rs)
  then show ?case
    by (cases "rec_from_value rc (wr_metadata r)"; cases "the (rec_from_value rc (wr_metadata r))")
      (auto simp: rebuild_from_snoc apply_wal_def index_apply_simps split: if_splits)
qed (simp add: rebuild_from_def index_empty_def)

lemma rebuild_from_edges:
  "hm_contains_key (gi_edges (rebuild_from rc rs)) i \<longleftrightarrow>
     (\<exists>r \<in> set rs. wr_object_id r = i \<and> (\<exists>e. rec_from_value rc (wr_metadata r) = Some (Edge e)))"
proof (induction rs rule: rev_induct)
  case (snoc r rs)
  then show ?case
    by (cases "rec_from_value rc (wr_metadata r)"; cases "the (rec_from_value rc (wr_metadata r))")
      (auto simp: rebuild_from_snoc apply_wal_def index_apply_simps split: if_splits)
qed (simp add: rebuild_from_def index_empty_def)

lemma fold_apply_pointer:
  "hm_contains_key (se_version_pointer (fold apply_record rs e)) i \<longleftrightarrow>
     hm_contains_key (se_version_pointer e) i \<or> (\<exists>r \<in> set rs. wr_object_id r = i)"
  by (induction rs arbitrary: e) (auto simp: apply_record_def)

lemma kg_open_impl_Inr:
  assumes "kg_open_impl env file key = Inr g"
  obtains rs where "replay_lines (env_wal env) key file = Inr rs"
    "fst (kg_storage g) = fold apply_record rs (empty_engine \<lparr>wal_seal = key, wal_attached = True\<rparr> key)"
    "snd (kg_storage g) = (case file of None \<Rightarrow> [] | Some f \<Rightarrow> f)"
    "kg_index g = rebuild_from (env_record env) rs" "kg_events g = None"
proof -
  let ?f = "case file of None \<Rightarrow> [] | Some f \<Rightarrow> f"
  have opened: "(case key of Some k \<Rightarrow> open_encrypted (env_wal env) file k
      | None \<Rightarrow> storage_open (env_wal env) file) = open_impl (env_wal env) key file"
    by (simp add: open_encrypted_def storage_open_def split: option.split)
  have rebuilt: "(case key of Some k \<Rightarrow> rebuild_encrypted (env_record env) (env_wal env) (Some f) k
      | None \<Rightarrow> rebuild (env_record env) (env_wal env) (Some f))
      = and_then (replay_lines (env_wal env) key (Some f)) (\<lambda>rs. Inr (rebuild_from (env_record env) rs))" for f
    by (simp add: rebuild_encrypted_def rebuild_def replay_encrypted_def replay_def split: option.split)
  have same: "replay_lines (env_wal env) key (Some ?f) = replay_lines (env_wal env) key file"
    by (simp add: replay_lines_def lines_of_def split: option.split)
  from assms show ?thesis
    unfolding kg_open_impl_def opened rebuilt
    by (cases "replay_lines (env_wal env) key file") (auto simp: open_impl_eq same intro: that)
qed

lemma opened_graph_ok:
  assumes "kg_open_impl env file key = Inr g" "hm_get (gi_edges (kg_index g)) (- 1) = None"
  shows "graph_ok g"
proof -
  from kg_open_impl_Inr [OF assms(1)] obtain rs where
    e: "fst (kg_storage g) = fold apply_record rs (empty_engine \<lparr>wal_seal = key, wal_attached = True\<rparr> key)"
    and ix: "kg_index g = rebuild_from (env_record env) rs" by metis
  have "i < se_next_object_id (fst (kg_storage g))" if i: "hm_contains_key (gi_edges (kg_index g)) i" for i
  proof -
    from i rebuild_from_edges [of "env_record env" rs i] ix obtain r where r: "r \<in> set rs" "wr_object_id r = i" by auto
    from i assms(2) have "i \<noteq> - 1" by auto
    then have "i < i + 1" by (rule word_less_add_one)
    also have "i + 1 \<le> se_next_object_id (fst (kg_storage g))"
      unfolding e fold_next_object_id using r by (intro fold_max_member) auto
    finally show ?thesis .
  qed
  moreover have "hm_contains_key (se_version_pointer (fst (kg_storage g))) i"
    if "hm_contains_key (gi_nodes (kg_index g)) i" for i
    unfolding e fold_apply_pointer using rebuild_from_nodes [of "env_record env" rs i] that ix by simp
  ultimately show ?thesis
    using rebuild_from_wf [of "env_record env" rs] ix by (simp add: graph_ok_def)
qed

lemma kg_run_ok: "kg_run env P g g' \<Longrightarrow> graph_ok g \<Longrightarrow> graph_ok g'"
  by (erule kg_run_induct [where Q = graph_ok]) (blast intro: change_graph_ok)+

lemma kg_run_owned:
  assumes "kg_run env (\<lambda>call _. ct_origin (kg_token call) \<noteq> b) g g'" "graph_ok g"
  shows "owned_nodes b (kg_index g') = owned_nodes b (kg_index g)"
    "owned_edges b (kg_index g') = owned_edges b (kg_index g)"
proof -
  let ?Q = "\<lambda>h. graph_ok h \<and> owned_nodes b (kg_index h) = owned_nodes b (kg_index g)
    \<and> owned_edges b (kg_index h) = owned_edges b (kg_index g)"
  have "?Q g'"
    using assms(1)
  proof (rule kg_run_induct)
    show "?Q g" using assms(2) by simp
  next
    fix call :: "'a kg_call" and io h h'
    assume "ct_origin (kg_token call) \<noteq> b" "change env (ct_origin (kg_token call)) (kg_purges call) io h h'"
      "has_next h" "?Q h"
    then show "?Q h'" using change_owned [of env "ct_origin (kg_token call)" "kg_purges call" io h h' b]
      change_graph_ok [of env "ct_origin (kg_token call)" "kg_purges call" io h h'] by simp
  qed
  then show "owned_nodes b (kg_index g') = owned_nodes b (kg_index g)"
    "owned_edges b (kg_index g') = owned_edges b (kg_index g)" by simp_all
qed

lemma sort_key_fst_unique:
  assumes "distinct (map fst xs)" "distinct (map fst ys)" "set xs = set ys"
  shows "sort_key fst xs = sort_key fst ys"
proof (rule sort_key_inj_key_eq)
  from assms have "mset xs = mset ys" by (simp add: set_eq_iff_mset_eq_distinct distinct_map)
  then show "mset xs = mset (sort_key fst ys)" by simp
  show "inj_on fst (set xs)" using assms(1) by (simp add: distinct_map)
  show "sorted (map fst (sort_key fst ys))" by simp
qed

lemma filtered_cong:
  assumes "\<And>n. P n \<Longrightarrow> x = Some n \<longleftrightarrow> y = Some n"
  shows "(case x of None \<Rightarrow> d | Some n \<Rightarrow> if P n then f n else d)
    = (case y of None \<Rightarrow> d | Some n \<Rightarrow> if P n then f n else d)"
proof (cases "\<exists>n. P n \<and> x = Some n")
  case True
  then obtain n where "P n" "x = Some n" by blast
  with assms [of n] show ?thesis by simp
next
  case False
  then have "\<not> (\<exists>n. P n \<and> y = Some n)" using assms by blast
  with False show ?thesis by (simp split: option.split)
qed

lemma filtered_cong_not:
  assumes "\<And>n. P n \<Longrightarrow> x = Some n \<longleftrightarrow> y = Some n"
  shows "(case x of None \<Rightarrow> d | Some n \<Rightarrow> if \<not> P n then d else f n)
    = (case y of None \<Rightarrow> d | Some n \<Rightarrow> if \<not> P n then d else f n)"
proof -
  have "(\<lambda>n. if \<not> P n then d else f n) = (\<lambda>n. if P n then f n else d)" by auto
  then show ?thesis using filtered_cong [of P x y d f, OF assms] by (simp only:)
qed

lemma mem_visible_nodes:
  assumes "graph_ok h"
  shows "(k, x) \<in> set (visible_nodes (kg_index h) b) \<longleftrightarrow>
    hm_get (gi_nodes (kg_index h)) k = Some x \<and> \<not> nr_tombstone x \<and> nr_owner x = b"
  unfolding visible_nodes_def using hm_mem_get [OF graph_ok_wf(1) [OF assms]] by (simp only: set_filter) blast

lemma mem_visible_edges:
  assumes "graph_ok h"
  shows "(k, x) \<in> set (visible_edges (kg_index h) b) \<longleftrightarrow>
    hm_get (gi_edges (kg_index h)) k = Some x \<and> \<not> er_tombstone x \<and> er_owner x = b"
  unfolding visible_edges_def using hm_mem_get [OF graph_ok_wf(2) [OF assms]] by (simp only: set_filter) blast

lemma distinct_visible:
  assumes "graph_ok h"
  shows "distinct (map fst (visible_nodes (kg_index h) b))" "distinct (map fst (visible_edges (kg_index h) b))"
  using graph_ok_wf [OF assms] by (simp_all add: visible_nodes_def visible_edges_def distinct_map_filter)

lemma reads_of_owned:
  assumes nodes: "owned_nodes (ct_origin t) (kg_index g') = owned_nodes (ct_origin t) (kg_index g)"
    and edges: "owned_edges (ct_origin t) (kg_index g') = owned_edges (ct_origin t) (kg_index g)"
    and wf: "graph_ok g" "graph_ok g'"
  shows "kg_get m t now i g' = kg_get m t now i g"
    "dump m t now g' = dump m t now g"
    "kg_explain m t now (EdgeRef j) g' = kg_explain m t now (EdgeRef j) g"
proof -
  have n: "hm_get (gi_nodes (kg_index g')) k = Some x \<longleftrightarrow> hm_get (gi_nodes (kg_index g)) k = Some x"
    if "nr_owner x = ct_origin t" for k x
  proof -
    have "(k, x) \<in> owned_nodes (ct_origin t) (kg_index g') \<longleftrightarrow> (k, x) \<in> owned_nodes (ct_origin t) (kg_index g)"
      by (simp add: nodes)
    with that show ?thesis by (simp add: owned_nodes_def)
  qed
  have e: "hm_get (gi_edges (kg_index g')) k = Some x \<longleftrightarrow> hm_get (gi_edges (kg_index g)) k = Some x"
    if "er_owner x = ct_origin t" for k x
  proof -
    have "(k, x) \<in> owned_edges (ct_origin t) (kg_index g') \<longleftrightarrow> (k, x) \<in> owned_edges (ct_origin t) (kg_index g)"
      by (simp add: edges)
    with that show ?thesis by (simp add: owned_edges_def)
  qed
  have "(case hm_get (gi_nodes (kg_index g')) i of None \<Rightarrow> Inl GraphNotFound
      | Some n \<Rightarrow> if \<not> nr_tombstone n \<and> nr_owner n = ct_origin t then Inr n else Inl GraphNotFound)
    = (case hm_get (gi_nodes (kg_index g)) i of None \<Rightarrow> Inl GraphNotFound
      | Some n \<Rightarrow> if \<not> nr_tombstone n \<and> nr_owner n = ct_origin t then Inr n else Inl GraphNotFound)"
    by (rule filtered_cong) (use n in blast)
  then show "kg_get m t now i g' = kg_get m t now i g" unfolding kg_get_def by (simp only:)
  have nodes_eq: "set (visible_nodes (kg_index g') (ct_origin t)) = set (visible_nodes (kg_index g) (ct_origin t))"
  proof (rule set_eqI)
    fix p :: "node_id \<times> 'a node_record"
    obtain k x where "p = (k, x)" by (cases p)
    then show "p \<in> set (visible_nodes (kg_index g') (ct_origin t)) \<longleftrightarrow> p \<in> set (visible_nodes (kg_index g) (ct_origin t))"
      using n [of x k] unfolding \<open>p = (k, x)\<close> mem_visible_nodes [OF wf(1)] mem_visible_nodes [OF wf(2)] by blast
  qed
  have edges_eq: "set (visible_edges (kg_index g') (ct_origin t)) = set (visible_edges (kg_index g) (ct_origin t))"
  proof (rule set_eqI)
    fix p :: "edge_id \<times> edge_record"
    obtain k x where "p = (k, x)" by (cases p)
    then show "p \<in> set (visible_edges (kg_index g') (ct_origin t)) \<longleftrightarrow> p \<in> set (visible_edges (kg_index g) (ct_origin t))"
      using e [of x k] unfolding \<open>p = (k, x)\<close> mem_visible_edges [OF wf(1)] mem_visible_edges [OF wf(2)] by blast
  qed
  show "dump m t now g' = dump m t now g"
    unfolding dump_def sort_key_fst_unique [OF distinct_visible(1) [OF wf(2)] distinct_visible(1) [OF wf(1)] nodes_eq]
      sort_key_fst_unique [OF distinct_visible(2) [OF wf(2)] distinct_visible(2) [OF wf(1)] edges_eq] ..
  have "(case hm_get (gi_edges (kg_index g')) j of None \<Rightarrow> Inl GraphNotFound
      | Some e \<Rightarrow> if er_owner e \<noteq> ct_origin t then Inl GraphNotFound else f e)
    = (case hm_get (gi_edges (kg_index g)) j of None \<Rightarrow> Inl GraphNotFound
      | Some e \<Rightarrow> if er_owner e \<noteq> ct_origin t then Inl GraphNotFound else f e)"
    for f :: "edge_record \<Rightarrow> (GraphError, ProvenanceChain) result"
    by (rule filtered_cong_not) (use e in blast)
  then show "kg_explain m t now (EdgeRef j) g' = kg_explain m t now (EdgeRef j) g"
    unfolding kg_explain_def Let_def ExplainRef.case by (simp only:)
qed

text \<open>
  Claim C28: trust boundaries are isolated.  Open a graph on any file none of whose edges has the
  last identifier, and let anyone work on it.  From there on, whatever calls the other boundaries
  make, whether their writes succeed or fail, a boundary reads every node, its whole dump and the
  provenance of every edge exactly as before.
\<close>

theorem boundaries_isolated:
  assumes "kg_open_impl env file key = Inr g0" "hm_get (gi_edges (kg_index g0)) (- 1) = None"
    "kg_run env (\<lambda>_ _. True) g0 g"
    "kg_run env (\<lambda>call _. ct_origin (kg_token call) \<noteq> ct_origin t) g g'"
  shows "kg_get m t now i g' = kg_get m t now i g
    \<and> dump m t now g' = dump m t now g
    \<and> kg_explain m t now (EdgeRef j) g' = kg_explain m t now (EdgeRef j) g"
proof -
  have ok: "graph_ok g" by (rule kg_run_ok [OF assms(3) opened_graph_ok [OF assms(1,2)]])
  then show ?thesis
    using reads_of_owned [of t g' g] kg_run_owned [OF assms(4) ok] kg_run_ok [OF assms(4) ok] by simp
qed

section \<open>A deleted node stays deleted\<close>

definition deleted :: "node_id \<Rightarrow> ('j, 'v) knowledge_graph \<Rightarrow> bool" where
  "deleted i g \<longleftrightarrow> graph_ok g \<and> (\<exists>n. hm_get (gi_nodes (kg_index g)) i = Some n \<and> nr_tombstone n)"

lemma change_deleted:
  assumes ch: "change env a X io g g'" and del: "deleted i g" and "i \<notin> X" "has_next g"
  shows "deleted i g'"
proof -
  obtain e f e' f' where s: "kg_storage g = (e, f)" "kg_storage g' = (e', f')" by (meson surj_pair)
  from del obtain n where ok: "graph_ok g" and n: "hm_get (gi_nodes (kg_index g)) i = Some n" "nr_tombstone n"
    by (auto simp: deleted_def)
  have "\<exists>n. hm_get (gi_nodes (kg_index g')) i = Some n \<and> nr_tombstone n"
    using ch
  proof cases
    case (stored m t now id_arg expected rc j v)
    note place = stored_place [OF stored(1) [unfolded s] ok s(1) stored(3)]
    show ?thesis
      using place stored(2) n by (cases rc) (auto simp: index_apply_simps)
  next
    case (purged m t now j k n)
    with n \<open>i \<notin> X\<close> show ?thesis by auto
  qed (use n in auto)
  with change_graph_ok [OF ch ok \<open>has_next g\<close>] show ?thesis by (simp add: deleted_def)
qed

lemma delete_node_deletes:
  assumes "delete_node env io m t i g = Some (Inr (), g')" "graph_ok g" "room g"
  shows "deleted i g'"
proof -
  have "kg_step env (DeleteNode io m t i) g = Some g'" using assms(1) by simp
  from kg_step_induct [where Q = graph_ok, OF this assms(3,2)] have ok: "graph_ok g'"
    using change_graph_ok by blast
  from assms(1) obtain n where n: "hm_get (gi_nodes (kg_index g)) i = Some n"
    "nr_tombstone n \<and> g' = g \<or> store_record env io m t (Some i) (current_version (fst (kg_storage g)) i)
       (Node (n\<lparr>nr_tombstone := True, nr_updated_at := io_wall_updated io\<rparr>)) (ct_origin t) [] (\<lambda>_. ()) g
       = Some (Inr (), g')"
    by (auto simp: delete_node_def split: sum.splits option.splits if_splits)
  then have "\<exists>n. hm_get (gi_nodes (kg_index g')) i = Some n \<and> nr_tombstone n"
    by (auto simp: index_apply_simps put_target_def elim!: store_record_Inr)
  with ok show ?thesis by (simp add: deleted_def)
qed

lemma deleted_unreadable:
  assumes "deleted i g"
  shows "kg_get m t now i g \<noteq> Inr n"
    "query m t now q g = Inr hits \<Longrightarrow> i \<notin> qh_node_id ` set hits"
    "dump m t now g = Inr snap \<Longrightarrow> i \<notin> fst ` set (gs_nodes snap)"
    "traverse m t now i types k g \<noteq> Inr sg"
proof -
  from assms obtain d where ok: "graph_ok g" and d: "hm_get (gi_nodes (kg_index g)) i = Some d" "nr_tombstone d"
    by (auto simp: deleted_def)
  have hidden: "(i, x) \<notin> set (visible_nodes (kg_index g) b)" for x b
    using d unfolding mem_visible_nodes [OF ok] by auto
  show "kg_get m t now i g \<noteq> Inr n"
    using d by (cases "require m t now READ") (auto simp: kg_get_def)
  show "traverse m t now i types k g \<noteq> Inr sg"
    using d by (cases "require m t now READ")
      (auto simp: traverse_def traverse_with_device_origin_filter_def node_visible_def)
  show "i \<notin> fst ` set (gs_nodes snap)" if "dump m t now g = Inr snap"
    using that hidden by (cases "require m t now READ") (auto simp: dump_def)
  show "i \<notin> qh_node_id ` set hits" if "query m t now q g = Inr hits"
  proof
    assume "i \<in> qh_node_id ` set hits"
    then obtain h where "h \<in> set hits" "qh_node_id h = i" by blast
    with that hidden show False
      by (cases "require m t now READ")
        (auto simp: query_def Let_def map_filter_def split: if_splits dest!: in_set_takeD)
  qed
qed

text \<open>
  Claim C30: a deleted node stays deleted.  Once the owner's call to delete a node has returned, no
  token reads the node again, by itself, in a query, in a dump or as the start of a traversal,
  whatever calls anybody makes afterwards, as long as nobody purges the node's history.
\<close>

theorem deleted_node_stays_deleted:
  assumes "kg_open_impl env file key = Inr g0" "hm_get (gi_edges (kg_index g0)) (- 1) = None"
    "kg_run env (\<lambda>_ _. True) g0 g" "room g"
    "delete_node env io m t i g = Some (Inr (), g1)"
    "kg_run env (\<lambda>call _. i \<notin> kg_purges call) g1 g'"
  shows "kg_get m' t' now i g' \<noteq> Inr n
    \<and> (query m' t' now q g' = Inr hits \<longrightarrow> i \<notin> qh_node_id ` set hits)
    \<and> (dump m' t' now g' = Inr snap \<longrightarrow> i \<notin> fst ` set (gs_nodes snap))
    \<and> traverse m' t' now i types k g' \<noteq> Inr sg"
proof -
  have "graph_ok g" by (rule kg_run_ok [OF assms(3) opened_graph_ok [OF assms(1,2)]])
  then have "deleted i g1" by (rule delete_node_deletes [OF assms(5) _ assms(4)])
  have "deleted i g'"
    by (rule kg_run_induct [where Q = "deleted i", OF assms(6) \<open>deleted i g1\<close>]) (rule change_deleted)
  from deleted_unreadable [OF this] show ?thesis by simp
qed

section \<open>A small graph, for the witnesses\<close>

text \<open>Boundary 7 creates a node and deletes it; the log's codec knows the two records.\<close>

definition demo_kg_io :: kg_io where
  "demo_kg_io = \<lparr>io_now_require = 0, io_now_grant = 0, io_now_storage = 0, io_now_publish = 0,
     io_wall_created = 5, io_wall_updated = 5, io_wall_changed = 5, io_wall_event = 5,
     io_nonce = [], io_append = AppendOk, io_event = AppendOk, io_nonces = (\<lambda>_. []), io_compact = CompactOk\<rparr>"

definition demo_node :: "bool \<Rightarrow> nat node_record" where
  "demo_node tombstone = \<lparr>nr_object_type = ''doc'', nr_embedding = None, nr_metadata = 3, nr_owner = 7,
     nr_device_origin = 0, nr_origin = UserAuthored, nr_corroboration_count = 0, nr_tenant_id = 0,
     nr_created_at = 5, nr_updated_at = 5, nr_tombstone = tombstone\<rparr>"

definition demo_log :: "nat Record wal_record list" where
  "demo_log =
     [\<lparr>wr_object_id = 0, wr_prev_version = None, wr_new_version = 0,
       wr_metadata = Node (demo_node False), wr_actor_origin = 7\<rparr>,
      \<lparr>wr_object_id = 0, wr_prev_version = Some 0, wr_new_version = 1,
       wr_metadata = Node (demo_node True), wr_actor_origin = 7\<rparr>]"

definition demo_env :: "(nat, nat Record) kg_env" where
  "demo_env = \<lparr>env_wal = \<lparr>json_encode = (\<lambda>r. if r = demo_log ! 0 then Some [49] else if r = demo_log ! 1 then Some [50] else None),
       json_decode = (\<lambda>p. if p = [49] then Some (demo_log ! 0) else if p = [50] then Some (demo_log ! 1) else None),
       aead_encrypt = (\<lambda>k n p. p), aead_decrypt = (\<lambda>k n s. Some s)\<rparr>,
     env_record = \<lparr>rec_to_value = (\<lambda>r. r), rec_from_value = Some\<rparr>,
     env_event = \<lparr>ec_wal = \<lparr>json_encode = (\<lambda>_. None), json_decode = (\<lambda>_. None), aead_encrypt = (\<lambda>k n p. p),
         aead_decrypt = (\<lambda>k n s. Some s)\<rparr>, ec_to_value = (\<lambda>_. None), ec_from_value = (\<lambda>_. None)\<rparr>,
     env_changed = (\<lambda>i now. Node (demo_node False))\<rparr>"

definition demo_graph :: "nat \<Rightarrow> (nat, nat Record) knowledge_graph" where
  "demo_graph k = \<lparr>kg_storage =
       (fold (\<lambda>r e. commit_record r (allocate (if wr_prev_version r = None then None else Some 0) e)) (take k demo_log)
          (empty_engine \<lparr>wal_seal = None, wal_attached = True\<rparr> None),
        concat (take k [[49, 10], [50, 10]])),
     kg_index = rebuild_from (env_record demo_env) (take k demo_log), kg_events = None\<rparr>"

definition demo_put_node :: "nat kg_call" where
  "demo_put_node = PutNode demo_kg_io demo_monitor demo_root None
     \<lparr>na_object_type = ''doc'', na_embedding = None, na_metadata = 3, na_device_origin = 0,
      na_origin = UserAuthored, na_tenant_id = 0\<rparr>"

lemma demo_kg_open: "kg_open_impl demo_env None None = Inr (demo_graph 0)"
  by (simp add: kg_open_impl_def storage_open_def open_impl_eq replay_lines_def rebuild_def replay_def
      demo_graph_def lines_of_def)

lemma demo_kg_room: "room (demo_graph 0)" "room (demo_graph 1)"
  by (simp_all add: room_def demo_graph_def demo_log_def empty_engine_def rebuild_from_def index_empty_def
      commit_record_def allocate_def apply_wal_def index_apply.simps demo_env_def)

lemma demo_origin_7: "ct_origin demo_root = 7"
  by (simp add: demo_root_def)

lemmas demo_kg_defs = require_def demo_kg_io_def demo_graph_def store_record_def put_object_eq put_target_def
  put_record_def append_and_fsync_def encode_line_def publish_changed_def demo_env_def demo_log_def
  demo_node_def empty_engine_def demo_origin_7 rebuild_from_def apply_wal_def commit_record_def allocate_def
  index_apply.simps index_empty_def current_version_def version_record_of_def

lemma demo_put_step: "kg_step demo_env demo_put_node (demo_graph 0) = Some (demo_graph 1)"
  by (simp add: demo_put_node_def put_node_with_provenance_def demo_kg_defs)

lemma demo_delete_step:
  "delete_node demo_env demo_kg_io demo_monitor demo_root 0 (demo_graph 1) = Some (Inr (), demo_graph 2)"
  by (simp add: delete_node_def demo_kg_defs numeral_2_eq_2)

lemma demo_no_last_edge: "hm_get (gi_edges (kg_index (demo_graph 0))) (- 1) = None"
  by (simp add: demo_kg_defs)

theorem boundaries_isolated_witness:
  "kg_step demo_env demo_put_node (demo_graph 0) = Some (demo_graph 1)
   \<and> hm_get (gi_nodes (kg_index (demo_graph 1))) 0 = Some (demo_node False)
   \<and> dump demo_monitor demo_child 5 (demo_graph 1) = dump demo_monitor demo_child 5 (demo_graph 0)"
proof -
  have "kg_run demo_env (\<lambda>call _. ct_origin (kg_token call) \<noteq> ct_origin demo_child) (demo_graph 0) (demo_graph 1)"
    by (rule kg_run_step [OF kg_run_start _ demo_kg_room(1) demo_put_step]) (simp add: demo_put_node_def demo_defs)
  from boundaries_isolated [OF demo_kg_open demo_no_last_edge kg_run_start this] demo_put_step
  show ?thesis by (simp add: demo_kg_defs)
qed

theorem deleted_node_stays_deleted_witness:
  "kg_get demo_monitor demo_root 5 0 (demo_graph 1) = Inr (demo_node False)
   \<and> delete_node demo_env demo_kg_io demo_monitor demo_root 0 (demo_graph 1) = Some (Inr (), demo_graph 2)
   \<and> kg_get demo_monitor demo_root 5 0 (demo_graph 2) \<noteq> Inr (demo_node False)"
proof -
  have "kg_run demo_env (\<lambda>_ _. True) (demo_graph 0) (demo_graph 1)"
    by (rule kg_run_step [OF kg_run_start _ demo_kg_room(1) demo_put_step]) simp
  from deleted_node_stays_deleted [OF demo_kg_open demo_no_last_edge this demo_kg_room(2) demo_delete_step kg_run_start]
    demo_delete_step
  show ?thesis by (simp add: kg_get_def require_def) (simp add: demo_kg_defs)
qed

end
