(* ===== verification/Graph_Durability.thy ===== *)
theory Graph_Durability
  imports Graph_Safety
begin

text \<open>
  The index of a knowledge graph is what its log says: after any run of calls a graph opened on the
  log's file has the same index, the same versions and the same history.  A purge of an identifier
  that is an edge's too is the exception, shown at the end.
\<close>

section \<open>The log and the index agree\<close>

definition record_codec_ok :: "('j, 'v) record_codec \<Rightarrow> bool" where
  "record_codec_ok rc \<longleftrightarrow> (\<forall>x. rec_from_value rc (rec_to_value rc x) = Some x)"

definition kg_refines :: "('j, 'v) kg_env \<Rightarrow> ('j, 'v) knowledge_graph \<Rightarrow> 'v wal_record list \<Rightarrow> bool" where
  "kg_refines env g rs \<longleftrightarrow>
     engine_refines (env_wal env) (kg_storage g) rs
     \<and> sorted_wrt (<) (map wr_new_version rs)
     \<and> kg_index g = rebuild_from (env_record env) rs"

text \<open>Surroundings in which a write works or fails before it has changed the file.\<close>

definition io_good :: "bytes option \<Rightarrow> kg_io \<Rightarrow> bool" where
  "io_good key io \<longleftrightarrow>
     (io_append io = AppendOk \<or> io_append io = WriteFails 0) \<and> good_nonce key (io_nonce io)
     \<and> io_compact io \<noteq> ReopenFails \<and> good_nonces key (io_nonces io)"

lemma apply_wal_restamp [simp]: "apply_wal rc (restamp a r) = apply_wal rc r"
  by (rule ext) (simp add: apply_wal_def restamp_def split: option.split)

lemma rebuild_from_restamp: "rebuild_from rc (map (restamp a) rs) = rebuild_from rc rs"
  by (induction rs rule: rev_induct) (simp_all add: rebuild_from_snoc)

definition without_node :: "node_id \<Rightarrow> 'j graph_index \<Rightarrow> 'j graph_index" where
  "without_node i ix = ix\<lparr>gi_nodes := hm_remove i (gi_nodes ix)\<rparr>"

lemma without_node_apply:
  "without_node i (index_apply i (Node n) ix) = without_node i ix"
  "j \<noteq> i \<Longrightarrow> without_node i (index_apply j x ix) = index_apply j x (without_node i ix)"
  by (cases x; simp add: without_node_def index_apply.simps Let_def AList.delete_update AList.delete_update_same)+

lemma rebuild_without:
  assumes "\<forall>r \<in> set rs. wr_object_id r = i \<longrightarrow> (\<forall>e. rec_from_value rc (wr_metadata r) \<noteq> Some (Edge e))"
  shows "rebuild_from rc (filter (\<lambda>r. wr_object_id r \<noteq> i) rs) = without_node i (rebuild_from rc rs)"
  using assms
proof (induction rs rule: rev_induct)
  case Nil
  then show ?case by (simp add: rebuild_from_def without_node_def index_empty_def)
next
  case (snoc r rs)
  show ?case
  proof (cases "rec_from_value rc (wr_metadata r)")
    case None
    with snoc show ?thesis by (simp add: rebuild_from_snoc apply_wal_def)
  next
    case (Some x)
    with snoc show ?thesis
      by (cases x) (auto simp: rebuild_from_snoc apply_wal_def without_node_apply)
  qed
qed

lemma surviving_records_eq:
  assumes v: "engine_views e rs" and o: "ordered_log rs" and s: "sorted_wrt (<) (map wr_new_version rs)"
  shows "surviving_records token obj e = map (restamp (ct_origin token)) (filter (\<lambda>r. wr_object_id r \<noteq> obj) rs)"
    (is "?xs = ?ys")
proof (rule map_sorted_distinct_set_unique [of wr_new_version])
  have wf: "hm_wf (se_version_chain e)" using v by (simp add: engine_views_def)
  have xs: "sorted (map wr_new_version ?xs)" "distinct (map wr_new_version ?xs)"
    using surviving_records_sorted [OF wf, of token obj] by (simp_all add: strict_sorted_iff)
  have "map wr_new_version ?ys = map wr_new_version (filter (\<lambda>r. wr_object_id r \<noteq> obj) rs)" by simp
  moreover have "sorted_wrt (<) (map wr_new_version (filter (\<lambda>r. wr_object_id r \<noteq> obj) rs))"
    using s by (simp add: sorted_wrt_map sorted_wrt_filter)
  ultimately have ys: "sorted (map wr_new_version ?ys)" "distinct (map wr_new_version ?ys)"
    by (simp_all only: strict_sorted_iff)
  show sets: "set ?xs = set ?ys" by (rule set_eqI) (auto simp: mem_surviving_records [OF v o])
  show "inj_on wr_new_version (set ?xs \<union> set ?ys)"
    using xs(2) sets by (simp add: distinct_map)
  show "sorted (map wr_new_version ?xs)" "distinct (map wr_new_version ?xs)"
    "sorted (map wr_new_version ?ys)" "distinct (map wr_new_version ?ys)" by fact+
qed

lemma change_refines:
  assumes ch: "change env b X io g g'" and ref: "kg_refines env g rs" and codec: "record_codec_ok (env_record env)"
    and key: "se_encryption_key (fst (kg_storage g)) = key" and io: "io_good key io" and "has_next g"
    and X: "\<forall>i \<in> X. hm_get (gi_edges (kg_index g)) i = None"
  shows "\<exists>rs'. kg_refines env g' rs'"
    "se_encryption_key (fst (kg_storage g')) = key"
    "\<forall>i \<in> X. hm_get (gi_edges (kg_index g')) i = None"
proof -
  obtain e f e' f' where s: "kg_storage g = (e, f)" "kg_storage g' = (e', f')" by (meson surj_pair)
  have er: "engine_refines (env_wal env) (e, f) rs" and sorted: "sorted_wrt (<) (map wr_new_version rs)"
    and ix: "kg_index g = rebuild_from (env_record env) rs" using ref s by (simp_all add: kg_refines_def)
  have next_v: "se_next_version_id e \<noteq> - 1" using \<open>has_next g\<close> s by simp
  have good: "io_append io = AppendOk \<or> io_append io = WriteFails 0" "good_nonce (se_encryption_key e) (io_nonce io)"
    "io_compact io \<noteq> ReopenFails" "good_nonces (se_encryption_key e) (io_nonces io)"
    using io key s by (simp_all add: io_good_def)
  have "(\<exists>rs'. kg_refines env g' rs') \<and> se_encryption_key e' = se_encryption_key e
      \<and> (\<forall>i \<in> X. hm_get (gi_edges (kg_index g')) i = None)"
    using ch
  proof cases
    case unchanged
    with ref s X show ?thesis by (auto simp: kg_refines_def)
  next
    case (refused m t now id_arg expected md x)
    note put = refused(1) [unfolded s]
    have "engine_refines (env_wal env) (e', f') rs"
      using put_object_refines [OF er good(2) next_v] put_object_untouched [OF er] put good(1) by fastforce
    then have "kg_refines env g' rs" using refused(2) sorted ix s by (simp add: kg_refines_def)
    moreover have "se_encryption_key e' = se_encryption_key e" using put_object_storage [OF put] by auto
    ultimately show ?thesis using refused(2) X by auto
  next
    case (stored m t now id_arg expected rc i v)
    have "io_append io = AppendOk" by (rule put_object_Inr_io [OF stored(1) [unfolded s]])
    note put = stored(1) [unfolded s this]
    let ?r = "put_record t e id_arg (rec_to_value (env_record env) rc)"
    have "engine_refines (env_wal env) (e', f') (rs @ [?r])"
      using put_object_refines [OF er good(2) next_v put] by simp
    moreover have "\<forall>r \<in> set rs. wr_new_version r < se_next_version_id e"
      using er by (simp add: engine_refines_def engine_views_def)
    then have "sorted_wrt (<) (map wr_new_version (rs @ [?r]))"
      using sorted by (auto simp: sorted_wrt_append put_record_def)
    moreover have "i = put_target e id_arg" using put_object_storage [OF put] by simp
    then have "kg_index g' = rebuild_from (env_record env) (rs @ [?r])"
      using stored(2) ix codec by (simp add: rebuild_from_snoc apply_wal_def record_codec_ok_def put_record_def)
    ultimately have "kg_refines env g' (rs @ [?r])" using s by (simp add: kg_refines_def)
    moreover have "se_encryption_key e' = se_encryption_key e"
      using put_object_storage [OF put] by (simp add: commit_record_def)
    ultimately show ?thesis using stored(4) by auto
  next
    case (purge_refused m t now i x)
    note purge = purge_refused(1) [unfolded s]
    have "kg_refines env g' rs"
      using purge_object_refines [OF er good(4,3) purge] purge_refused(2) sorted ix s by (simp add: kg_refines_def)
    moreover have "se_encryption_key e' = se_encryption_key e" using purge_object_storage [OF purge] by auto
    ultimately show ?thesis using purge_refused(2) X by auto
  next
    case (purged m t now i k n)
    note purge = purged(1) [unfolded s]
    have v: "engine_views e rs" "ordered_log rs" using er by (simp_all add: engine_refines_def)
    let ?rs = "surviving_records t i e"
    have "engine_refines (env_wal env) (e', f') ?rs"
      using purge_object_refines [OF er good(4,3) purge] by simp
    moreover have "sorted_wrt (<) (map wr_new_version ?rs)"
      using v by (intro surviving_records_sorted) (simp add: engine_views_def)
    moreover have "\<forall>r \<in> set rs. wr_object_id r = i
        \<longrightarrow> (\<forall>d. rec_from_value (env_record env) (wr_metadata r) \<noteq> Some (Edge d))"
      using X purged(5) rebuild_from_edges [of "env_record env" rs i] ix by auto
    then have "kg_index g' = rebuild_from (env_record env) ?rs"
      using purged(2) ix by (simp add: surviving_records_eq [OF v sorted] rebuild_from_restamp rebuild_without without_node_def)
    ultimately have "kg_refines env g' ?rs" using s by (simp add: kg_refines_def)
    moreover have "se_encryption_key e' = se_encryption_key e"
      using purge_object_storage [OF purge] by (auto simp: purge_engine_def)
    ultimately show ?thesis using purged(2) X by auto
  qed
  then show "\<exists>rs'. kg_refines env g' rs'" "se_encryption_key (fst (kg_storage g')) = key"
    "\<forall>i \<in> X. hm_get (gi_edges (kg_index g')) i = None" using s key by simp_all
qed

definition well_behaved :: "bytes option \<Rightarrow> 'j kg_call \<Rightarrow> ('j, 'v) knowledge_graph \<Rightarrow> bool" where
  "well_behaved key call g \<longleftrightarrow>
     (\<forall>io \<in> kg_ios call. io_good key io) \<and> (\<forall>i \<in> kg_purges call. hm_get (gi_edges (kg_index g)) i = None)"

lemma kg_run_refines:
  assumes "kg_run env (well_behaved key) g g'" "kg_refines env g rs" "record_codec_ok (env_record env)"
    "se_encryption_key (fst (kg_storage g)) = key"
  shows "(\<exists>rs'. kg_refines env g' rs') \<and> se_encryption_key (fst (kg_storage g')) = key"
  using assms(1)
proof (induction rule: kg_run.induct)
  case kg_run_start
  show ?case using assms by blast
next
  case (kg_run_step h call h')
  let ?Q = "\<lambda>x. (\<exists>rs'. kg_refines env x rs') \<and> se_encryption_key (fst (kg_storage x)) = key
    \<and> (\<forall>i \<in> kg_purges call. hm_get (gi_edges (kg_index x)) i = None)"
  have "?Q h'"
  proof (rule kg_step_induct [where Q = ?Q, OF kg_run_step(4,3)])
    show "?Q h" using kg_run_step(2,5) by (simp add: well_behaved_def)
  next
    fix io x x'
    assume io: "io \<in> kg_ios call" and ch: "change env (ct_origin (kg_token call)) (kg_purges call) io x x'"
      and n: "has_next x" and q: "?Q x"
    then obtain rs' where rs': "kg_refines env x rs'" by blast
    have "io_good key io" using io kg_run_step(2) by (simp add: well_behaved_def)
    from change_refines [OF ch rs' assms(3) _ this n] q show "?Q x'" by simp
  qed
  then show ?case by blast
qed

lemma kg_open_replay:
  assumes "engine_refines (env_wal env) (e, f) rs" "se_encryption_key e = key"
    "open_impl (env_wal env) key (Some f) = Inr s"
  shows "kg_open_impl env (Some f) key = Inr \<lparr>kg_storage = s, kg_index = rebuild_from (env_record env) rs, kg_events = None\<rparr>"
proof -
  have "replay_lines (env_wal env) key (Some f) = Inr rs"
    using assms(1,2) by (simp add: engine_refines_def replay_log_file)
  moreover from this assms(3) have "snd s = f" by (auto simp: open_impl_eq)
  ultimately show ?thesis
    using assms(3) by (cases key) (simp_all add: kg_open_impl_def storage_open_def open_encrypted_def
        rebuild_def rebuild_encrypted_def replay_def replay_encrypted_def)
qed

lemma opened_run_refines:
  assumes "codec_ok (env_wal env)" "record_codec_ok (env_record env)"
    "kg_open_impl env None key = Inr g0" "kg_run env (well_behaved key) g0 g"
  shows "(\<exists>rs. kg_refines env g rs) \<and> se_encryption_key (fst (kg_storage g)) = key"
proof -
  obtain rs0 where rs0: "replay_lines (env_wal env) key None = Inr rs0"
    "fst (kg_storage g0) = fold apply_record rs0 (empty_engine \<lparr>wal_seal = key, wal_attached = True\<rparr> key)"
    "snd (kg_storage g0) = []" "kg_index g0 = rebuild_from (env_record env) rs0"
    using kg_open_impl_Inr [OF assms(3)] by auto
  obtain e0 where "open_impl (env_wal env) key None = Inr (e0, [])" and er0: "engine_refines (env_wal env) (e0, []) []"
    using fresh_refines [OF assms(1)] by blast
  then have "e0 = empty_engine \<lparr>wal_seal = key, wal_attached = True\<rparr> key"
    by (simp add: open_impl_eq replay_lines_def)
  moreover from rs0(1) have "rs0 = []" by (simp add: replay_lines_def)
  ultimately have e0: "fst (kg_storage g0) = e0" "se_encryption_key e0 = key" "rs0 = []"
    using rs0(2) by (simp_all add: empty_engine_def)
  moreover have "kg_storage g0 = (e0, [])" using e0(1) rs0(3) by (simp add: prod_eq_iff)
  ultimately have "kg_refines env g0 []" "se_encryption_key (fst (kg_storage g0)) = key"
    using rs0(4) er0 e0 by (simp_all add: kg_refines_def)
  from kg_run_refines [OF assms(4) this(1) assms(2) this(2)] show ?thesis .
qed

text \<open>
  Claim C29: the graph is durable.  Start from an empty file, plain or sealed, and run any calls of
  any callers in which every append is complete and synced or fails before a byte is written, no
  rewrite of the log fails at the reopening after its rename, no purged identifier is an edge's, and
  the counters of versions and objects have not come round.  Opening the file again gives a graph
  with the same index, so the same answer to every query, and the same current and past versions of
  every node.
\<close>

theorem graph_durable:
  assumes "codec_ok (env_wal env)" "record_codec_ok (env_record env)"
    "kg_open_impl env None key = Inr g0" "kg_run env (well_behaved key) g0 g"
  shows "\<exists>g'. kg_open_impl env (Some (snd (kg_storage g))) key = Inr g'
    \<and> kg_index g' = kg_index g
    \<and> (\<forall>i. kg_current_version g' i = kg_current_version g i)
    \<and> (\<forall>m t now now' i v. get_at_version env m t now now' i v g' = get_at_version env m t now now' i v g)"
proof -
  from opened_run_refines [OF assms]
  obtain rs where rs: "kg_refines env g rs" and key: "se_encryption_key (fst (kg_storage g)) = key" by blast
  obtain e f where s: "kg_storage g = (e, f)" by (cases "kg_storage g")
  have er: "engine_refines (env_wal env) (e, f) rs" using rs s by (simp add: kg_refines_def)
  from reopen_refines [OF er] key s obtain e' where
    e': "open_impl (env_wal env) key (Some f) = Inr (e', f)" "engine_refines (env_wal env) (e', f) rs" by auto
  let ?g = "\<lparr>kg_storage = (e', f), kg_index = rebuild_from (env_record env) rs, kg_events = None\<rparr>"
  have opened: "kg_open_impl env (Some f) key = Inr ?g"
    by (rule kg_open_replay [OF er _ e'(1)]) (use key s in simp)
  have "engine_views e rs" "engine_views e' rs" using er e'(2) by (simp_all add: engine_refines_def)
  note reads = same_views_same_reads [OF this]
  have ix: "kg_index ?g = kg_index g" using rs by (simp add: kg_refines_def)
  have get: "get_object m t now (fst (kg_storage ?g)) i v = get_object m t now (fst (kg_storage g)) i v" for m t now i v
    using reads(1) s by simp
  have "get_at_version env m t now now' i v ?g = get_at_version env m t now now' i v g" for m t now now' i v
    unfolding get_at_version_def ix get ..
  moreover have "kg_current_version ?g i = kg_current_version g i" for i
    using reads(2) s by (simp add: kg_current_version_def)
  ultimately show ?thesis using opened ix s by (intro exI [of _ ?g]) simp
qed

lemma demo_env_ok: "codec_ok (env_wal demo_env)" "record_codec_ok (env_record demo_env)"
  by (simp_all add: codec_ok_def record_codec_ok_def demo_env_def)

theorem graph_durable_witness:
  "\<exists>g'. kg_open_impl demo_env (Some [49, 10, 50, 10]) None = Inr g'
     \<and> kg_index g' = kg_index (demo_graph 2)
     \<and> get_at_version demo_env demo_monitor demo_root 5 5 0 0 g' = Inr (demo_node False)"
proof -
  let ?delete = "DeleteNode demo_kg_io demo_monitor demo_root 0"
  have good: "io_good None demo_kg_io" by (simp add: io_good_def good_nonce_def good_nonces_def demo_kg_io_def)
  have "kg_run demo_env (well_behaved None) (demo_graph 0) (demo_graph 1)"
    by (rule kg_run_step [OF kg_run_start _ demo_kg_room(1) demo_put_step])
      (simp add: well_behaved_def demo_put_node_def good)
  moreover have "kg_step demo_env ?delete (demo_graph 1) = Some (demo_graph 2)"
    by (simp only: kg_step.simps demo_delete_step option.simps snd_conv)
  moreover have "well_behaved None ?delete (demo_graph 1)" by (simp add: well_behaved_def good)
  ultimately have "kg_run demo_env (well_behaved None) (demo_graph 0) (demo_graph 2)"
    using demo_kg_room(2) by (blast intro: kg_run_step)
  from graph_durable [OF demo_env_ok demo_kg_open this] obtain g' where
    g': "kg_open_impl demo_env (Some (snd (kg_storage (demo_graph 2)))) None = Inr g'"
    "kg_index g' = kg_index (demo_graph 2)"
    "get_at_version demo_env demo_monitor demo_root 5 5 0 0 g' = get_at_version demo_env demo_monitor demo_root 5 5 0 0 (demo_graph 2)"
    by blast
  have "snd (kg_storage (demo_graph 2)) = [49, 10, 50, 10]" by (simp add: demo_graph_def)
  moreover have "get_at_version demo_env demo_monitor demo_root 5 5 0 0 (demo_graph 2) = Inr (demo_node False)"
    by (simp add: get_at_version_def get_object_def demo_kg_defs numeral_2_eq_2)
  ultimately show ?thesis using g' by auto
qed

section \<open>What one boundary can do to another's edges\<close>

lemma put_node_edges:
  assumes "put_node_with_provenance env io m t i a g = Some (Inr j, g')"
  shows "gi_edges (kg_index g') = gi_edges (kg_index g)"
proof -
  have "gi_edges (kg_index h) = gi_edges (kg_index g)"
    if "store_record env io m t i v (Node n) b [] (\<lambda>i. i) g = Some (Inr j, h)" for v n b h
    using that by (rule store_record_Inr) (simp add: index_apply_simps)
  then show ?thesis
    using assms by (cases "require m t (io_now_require io) WRITE")
      (auto simp: put_node_with_provenance_def Let_def split: if_split_asm)
qed

text \<open>
  The owner check of a node write looks at the node table only, so a caller may write a node under the
  identifier of an edge of another boundary.  When the caller then purges that node, the engine
  rewrites its log without any record of that identifier: the running graph still has the edge, and
  the graph opened on the file does not.
\<close>

lemma purge_erases_foreign_edge:
  assumes ref: "kg_refines env g rs" and codec: "record_codec_ok (env_record env)"
    and key: "se_encryption_key (fst (kg_storage g)) = key"
    and edge: "hm_get (gi_edges (kg_index g)) j = Some d"
    and put: "put_node_with_provenance env io m t (Some j) a g = Some (Inr j, g1)" "io_good key io" "has_next g"
    and purge: "purge_node_history env io' m' t' j g1 = Some (Inr k, g2)" "io_good key io'"
  shows "hm_get (gi_edges (kg_index g2)) j = Some d
    \<and> (\<exists>g'. kg_open_impl env (Some (snd (kg_storage g2))) key = Inr g' \<and> hm_get (gi_edges (kg_index g')) j = None)"
proof -
  note ch = put_node_change [OF put(1)]
  obtain rs1 where rs1: "kg_refines env g1 rs1" and key1: "se_encryption_key (fst (kg_storage g1)) = key"
    using change_refines [OF ch ref codec key put(2,3)] by auto
  note e1 = put_node_edges [OF put(1)]
  obtain e f e' f' where s: "kg_storage g1 = (e, f)" "kg_storage g2 = (e', f')" by (meson surj_pair)
  from purge_node_Inr [OF purge(1)] s have purge_eq: "purge_object (env_wal env) (io_nonces io') (io_compact io') m' t' (io_now_storage io') j (e, f)
      = (Inr k, (e', f'))" and e2: "gi_edges (kg_index g2) = gi_edges (kg_index g1)"
    by simp_all
  have er: "engine_refines (env_wal env) (e, f) rs1" using rs1 s by (simp add: kg_refines_def)
  have good: "good_nonces (se_encryption_key e) (io_nonces io')" "io_compact io' \<noteq> ReopenFails"
    using purge(2) key1 s by (simp_all add: io_good_def)
  have er': "engine_refines (env_wal env) (e', f') (surviving_records t' j e)"
    using purge_object_refines [OF er good purge_eq] by simp
  have key': "se_encryption_key e' = key"
    using purge_object_storage [OF purge_eq] key1 s by (auto simp: purge_engine_def)
  from reopen_refines [OF er'] key' obtain st where "open_impl (env_wal env) key (Some f') = Inr st" by auto
  note opened = kg_open_replay [OF er' key' this]
  have "wr_object_id r \<noteq> j" if "r \<in> set (surviving_records t' j e)" for r
    using that er by (auto simp: mem_surviving_records engine_refines_def)
  then have "hm_get (gi_edges (rebuild_from (env_record env) (surviving_records t' j e))) j = None"
    using rebuild_from_edges [of "env_record env" "surviving_records t' j e" j] by auto
  with opened edge e1 e2 s show ?thesis by simp
qed

text \<open>
  A link does not ask who owns the nodes it joins.  When anyone links two nodes another boundary sees,
  the owner's traversal from the first follows the new edge and returns it.
\<close>

lemma stranger_edge_traversed:
  assumes ok: "graph_ok g"
    and link: "link env io m t a g = Some (Inr (Created i), g')"
    and fresh: "find_edge (kg_index g) (la_subject a) (la_predicate a) (la_target a) = None"
    and visible: "node_visible (kg_index g) b None (la_subject a)" "node_visible (kg_index g) b None (la_target a)"
    and reader: "check_rights_ok m' t' READ now" "ct_origin t' = b"
  shows "\<exists>sg e. traverse m' t' now (la_subject a) None 1 g' = Inr sg \<and> (i, e) \<in> set (sg_edges sg)
    \<and> er_owner e = ct_origin t"
proof -
  let ?x = "la_subject a" and ?y = "la_target a"
  let ?e = "link_record a (ct_origin t) (io_wall_created io) (io_wall_updated io) None"
  have "store_record env io m t None None (Edge ?e) (ct_origin t) [?x, ?y] Created g = Some (Inr (Created i), g')"
    using link fresh by (auto simp: link_def Let_def split: sum.splits if_splits)
  then have ix: "kg_index g' = index_apply i (Edge ?e) (kg_index g)"
    and i: "i = se_next_object_id (fst (kg_storage g))"
    by (auto simp: put_target_def elim!: store_record_Inr)
  from ok have new: "hm_get (gi_edges (kg_index g)) i = None"
    unfolding graph_ok_def i by (metis order_less_irrefl)
  have granted: "check_rights_ok_result m' t' READ now = Inr ()"
    using reader(1) by (simp add: check_rights_ok_result_Inr)
  have vis: "node_visible (kg_index g') b None n = node_visible (kg_index g) b None n" for n
    by (simp add: node_visible_def ix index_apply_simps)
  have act: "active_edge (kg_index g') i = Some ?e"
    by (simp add: active_edge_def ix index_apply_simps link_record_def)
  have fwd: "i \<in> set (edges_at (gi_forward (kg_index g')) ?x)"
    using new by (simp add: ix index_apply.simps Let_def edges_at_def hm_push_def link_record_def)
  have "usable (kg_index g') None (node_visible (kg_index g') b None) ?x i ?y"
    using act fwd visible by (auto simp: usable_def leads_def vis link_record_def)
  then have "(i, the (hm_get (gi_edges (kg_index g')) i))
      \<in> set (sg_edges (walk_graph (kg_index g') None (node_visible (kg_index g') b None) 1 ?x))"
    unfolding walk_graph_edges by (intro conjI exI [of _ ?x] exI [of _ ?y] exI [of _ "0::nat"]) (simp_all add: distance_0)
  moreover have "the (hm_get (gi_edges (kg_index g')) i) = ?e" by (simp add: ix index_apply_simps)
  moreover have "traverse m' t' now ?x None 1 g' =
      Inr (walk_graph (kg_index g') None (node_visible (kg_index g') b None) 1 ?x)"
    using reader visible by (simp add: traverse_def traverse_with_device_origin_filter_def require_def
        granted vis Let_def)
  moreover have "er_owner ?e = ct_origin t" by (simp add: link_record_def)
  ultimately show ?thesis by metis
qed

end
