(* ===== verification/Recovery.thy ===== *)
theory Recovery
  imports Graph_Durability "HOL-Library.Monad_Syntax"
begin

text \<open>
  Rollback and recovery, \<open>crates/hyperion-recovery/src/service.rs\<close> and \<open>types.rs\<close>: recovery
  points with snapshots of the nodes an action is about to touch, the journal of actions, undo and
  redo with their conflict rule, crash recovery, pinning and the retention sweep, over the knowledge
  graph of theory Knowledge_Graph.

  The service and the graph are passed explicitly.  Every call of the graph takes its surroundings
  from a sequence; a call of the graph that does not return is None.  The memory engine, which keeps
  the causes of rollbacks, and the agent runtime are arguments: records of the operations the service
  calls, over states of their own.
\<close>

section \<open>State\<close>

declare map_of_eq_Some_iff [simp del] Some_eq_map_of_iff [simp del]

type_synonym recovery_point_id = u64
type_synonym action_id = u64

datatype Trigger =
    Automatic
  | UserRequested
  | PreRiskyAction
  | PreUpdate
  | PreAgentRun u64
  | PreGoalFork u64

record recovery_point =
  rp_id :: recovery_point_id
  rp_created_at :: u64
  rp_trigger :: Trigger
  rp_pinned :: bool

datatype ActionStatus = Committed | InFlight | Aborted | Undone | Expired

record action_record =
  ar_action_id :: action_id
  ar_agent_run_id :: "u64 option"
  ar_session_id :: "u64 option"
  ar_goal_id :: "node_id option"
  ar_recovery_point_before :: recovery_point_id
  ar_objects_touched :: "node_id list"
  ar_status :: ActionStatus
  ar_created_at :: u64
  ar_note :: string

datatype UndoScope =
    SingleAction action_id
  | AgentRun u64
  | Session u64
  | Goal node_id
  | Global recovery_point_id

datatype UndoReceipt =
    UndoTargeted "action_id list"
  | UndoNeedsConfirmation "node_id list"
  | NothingToUndo

datatype RedoReceipt =
    RedoTargeted "action_id list"
  | RedoNeedsConfirmation "node_id list"
  | NothingToRedo

type_synonym 'j snapshot = "(node_id \<times> 'j node_record option) list"

record 'j rollback_cause =
  rc_reason :: string
  rc_detail :: 'j

record 'j recorded_rollback =
  rr_recovery_point_id :: recovery_point_id
  rr_subject :: string
  rr_cause :: "'j rollback_cause"
  rr_created_at :: u64

datatype ('ae, 'me) RecoveryError =
    RecoveryUnauthorized
  | NoSuchRecoveryPoint
  | NoSuchAction
  | ActionNotCommitted
  | RecoveryGraph GraphError
  | RecoveryAgent 'ae
  | RecoveryMemory 'me

record ('j, 'm) recovery_service =
  rv_points :: "(recovery_point_id, recovery_point) hashmap"
  rv_snapshots :: "(recovery_point_id, 'j snapshot) hashmap"
  rv_actions :: "action_record list"
  rv_redo_snapshots :: "(action_id, 'j snapshot) hashmap"
  rv_next_point_id :: recovery_point_id
  rv_next_action_id :: action_id
  rv_memory :: "'m option"

text \<open>The JSON values of \<open>serde_json\<close>, by the operations used of them.\<close>

record 'j json_ops =
  js_object :: "(string \<times> 'j) list \<Rightarrow> 'j"
  js_str :: "string \<Rightarrow> 'j"
  js_u64 :: "u64 \<Rightarrow> 'j"
  js_bool :: "bool \<Rightarrow> 'j"
  js_null :: 'j
  js_get :: "'j \<Rightarrow> string \<Rightarrow> 'j option"
  js_as_str :: "'j \<Rightarrow> string option"
  js_as_u64 :: "'j \<Rightarrow> u64 option"

text \<open>What the service calls of the memory engine: a write to the procedural tier, whose failure is
  ignored, and the contents of that tier.\<close>

record ('m, 'j, 'me) memory_ops =
  mo_remember :: "capability_monitor \<Rightarrow> capability_token \<Rightarrow> 'j \<Rightarrow> 'm \<Rightarrow> 'm"
  mo_query :: "capability_monitor \<Rightarrow> capability_token \<Rightarrow> 'm \<Rightarrow> ('me, 'j list) result"

record ('a, 'i, 'ae) agent_ops =
  ag_describe :: "u64 \<Rightarrow> 'a \<Rightarrow> 'i option"
  ag_terminate :: "capability_monitor \<Rightarrow> capability_token \<Rightarrow> u64 \<Rightarrow> string \<Rightarrow> 'a \<Rightarrow> ('ae, unit) result \<times> 'a"
  ag_spawn :: "capability_monitor \<Rightarrow> capability_token \<Rightarrow> 'i \<Rightarrow> 'a \<Rightarrow> ('ae, u64) result \<times> 'a"

definition recovery_new_with_memory :: "'m option \<Rightarrow> ('j, 'm) recovery_service" where
  "recovery_new_with_memory memory =
     \<lparr>rv_points = [], rv_snapshots = [], rv_actions = [], rv_redo_snapshots = [],
      rv_next_point_id = 1, rv_next_action_id = 1, rv_memory = memory\<rparr>"

definition recovery_new :: "('j, 'm) recovery_service" where
  "recovery_new = recovery_new_with_memory None"

definition recovery_require ::
    "capability_monitor \<Rightarrow> capability_token \<Rightarrow> instant \<Rightarrow> u32 \<Rightarrow> (('ae, 'me) RecoveryError, unit) result" where
  "recovery_require monitor token now rights =
     map_err (\<lambda>_. RecoveryUnauthorized) (check_rights_ok_result monitor token rights now)"

section \<open>Recovery points and the journal\<close>

fun snapshot_objects ::
    "capability_monitor \<Rightarrow> capability_token \<Rightarrow> (nat \<Rightarrow> instant) \<Rightarrow> node_id list \<Rightarrow> ('j, 'v) knowledge_graph
     \<Rightarrow> (('ae, 'me) RecoveryError, 'j snapshot) result" where
  "snapshot_objects monitor token nows [] g = Inr []"
| "snapshot_objects monitor token nows (i # is') g =
     (case (case kg_get monitor token (nows 0) i g of
              Inr record \<Rightarrow> Inr (Some record)
            | Inl e \<Rightarrow> if e = GraphNotFound then Inr None else Inl (RecoveryGraph e)) of
        Inl e \<Rightarrow> Inl e
      | Inr existing \<Rightarrow>
          and_then (snapshot_objects monitor token (\<lambda>k. nows (k + 1)) is' g) (\<lambda>rest.
            Inr ((i, existing) # rest)))"

definition recovery_point_create ::
    "capability_monitor \<Rightarrow> capability_token \<Rightarrow> instant \<Rightarrow> (nat \<Rightarrow> instant) \<Rightarrow> Trigger \<Rightarrow> node_id list \<Rightarrow> u64
     \<Rightarrow> ('j, 'v) knowledge_graph \<Rightarrow> ('j, 'm) recovery_service
     \<Rightarrow> (('ae, 'me) RecoveryError, recovery_point_id) result \<times> ('j, 'm) recovery_service" where
  "recovery_point_create monitor token inst nows trigger objects_about_to_touch now g s =
     (case recovery_require monitor token inst WRITE of
        Inl e \<Rightarrow> (Inl e, s)
      | Inr _ \<Rightarrow>
          (case snapshot_objects monitor token nows objects_about_to_touch g of
             Inl e \<Rightarrow> (Inl e, s)
           | Inr snapshot \<Rightarrow>
               (let point_id = rv_next_point_id s
                in (Inr point_id,
                    s\<lparr>rv_next_point_id := point_id + 1,
                      rv_points := hm_insert point_id
                        \<lparr>rp_id = point_id, rp_created_at = now, rp_trigger = trigger, rp_pinned = False\<rparr>
                        (rv_points s),
                      rv_snapshots := hm_insert point_id snapshot (rv_snapshots s)\<rparr>))))"

definition record_action_started_with_scope ::
    "recovery_point_id \<Rightarrow> node_id list \<Rightarrow> u64 option \<Rightarrow> u64 option \<Rightarrow> node_id option \<Rightarrow> string \<Rightarrow> u64
     \<Rightarrow> ('j, 'm) recovery_service \<Rightarrow> action_id \<times> ('j, 'm) recovery_service" where
  "record_action_started_with_scope recovery_point_before objects_touched agent_run_id session_id goal_id
       note' now s =
     (let action_id = rv_next_action_id s
      in (action_id,
          s\<lparr>rv_next_action_id := action_id + 1,
            rv_actions := rv_actions s @
              [\<lparr>ar_action_id = action_id, ar_agent_run_id = agent_run_id, ar_session_id = session_id,
                ar_goal_id = goal_id, ar_recovery_point_before = recovery_point_before,
                ar_objects_touched = objects_touched, ar_status = InFlight, ar_created_at = now,
                ar_note = note'\<rparr>]\<rparr>))"

definition record_action_started ::
    "recovery_point_id \<Rightarrow> node_id list \<Rightarrow> u64 option \<Rightarrow> string \<Rightarrow> u64
     \<Rightarrow> ('j, 'm) recovery_service \<Rightarrow> action_id \<times> ('j, 'm) recovery_service" where
  "record_action_started recovery_point_before objects_touched agent_run_id note' now s =
     record_action_started_with_scope recovery_point_before objects_touched agent_run_id None None note' now s"

text \<open>\<open>iter_mut().find(..)\<close>: the first record with the identifier is changed.\<close>

fun update_first :: "('a \<Rightarrow> bool) \<Rightarrow> ('a \<Rightarrow> 'a) \<Rightarrow> 'a list \<Rightarrow> 'a list" where
  "update_first P f [] = []"
| "update_first P f (x # xs) = (if P x then f x # xs else x # update_first P f xs)"

definition set_status ::
    "action_id \<Rightarrow> ActionStatus \<Rightarrow> ('j, 'm) recovery_service
     \<Rightarrow> (('ae, 'me) RecoveryError, unit) result \<times> ('j, 'm) recovery_service" where
  "set_status i status s =
     (case find (\<lambda>a. ar_action_id a = i) (rv_actions s) of
        None \<Rightarrow> (Inl NoSuchAction, s)
      | Some _ \<Rightarrow>
          (Inr (), s\<lparr>rv_actions := update_first (\<lambda>a. ar_action_id a = i) (ar_status_update (\<lambda>_. status))
                                    (rv_actions s)\<rparr>))"

definition record_action_committed ::
    "action_id \<Rightarrow> ('j, 'm) recovery_service
     \<Rightarrow> (('ae, 'me) RecoveryError, unit) result \<times> ('j, 'm) recovery_service" where
  "record_action_committed i s = set_status i Committed s"

definition record_action_aborted ::
    "action_id \<Rightarrow> ('j, 'm) recovery_service
     \<Rightarrow> (('ae, 'me) RecoveryError, unit) result \<times> ('j, 'm) recovery_service" where
  "record_action_aborted i s = set_status i Aborted s"

definition expire ::
    "action_id \<Rightarrow> ('j, 'm) recovery_service
     \<Rightarrow> (('ae, 'me) RecoveryError, unit) result \<times> ('j, 'm) recovery_service" where
  "expire i s =
     (case find (\<lambda>a. ar_action_id a = i) (rv_actions s) of
        None \<Rightarrow> (Inl NoSuchAction, s)
      | Some a \<Rightarrow>
          if ar_status a \<noteq> Committed then (Inl ActionNotCommitted, s)
          else (Inr (), s\<lparr>rv_actions := update_first (\<lambda>a. ar_action_id a = i)
                 (ar_status_update (\<lambda>_. Expired)) (rv_actions s)\<rparr>))"

section \<open>Restoring\<close>

text \<open>One entry of a snapshot written back: a record by a plain write, an absent one by a deletion.\<close>

definition apply_entry ::
    "('j, 'v) kg_env \<Rightarrow> kg_io \<Rightarrow> capability_monitor \<Rightarrow> capability_token \<Rightarrow> node_id \<Rightarrow> 'j node_record option
     \<Rightarrow> ('j, 'v) knowledge_graph
     \<Rightarrow> ((('ae, 'me) RecoveryError, unit) result \<times> ('j, 'v) knowledge_graph) option" where
  "apply_entry env io monitor token node_id state g =
     (case state of
        Some record \<Rightarrow>
          map_option (\<lambda>(res, g). (case res of Inl e \<Rightarrow> Inl (RecoveryGraph e) | Inr _ \<Rightarrow> Inr (), g))
            (put_node env io monitor token (Some node_id) (nr_object_type record) (nr_embedding record)
               (nr_metadata record) g)
      | None \<Rightarrow>
          map_option (\<lambda>(res, g).
              (case res of
                 Inr _ \<Rightarrow> Inr ()
               | Inl e \<Rightarrow> if e = GraphNotFound then Inr () else Inl (RecoveryGraph e), g))
            (delete_node env io monitor token node_id g))"

fun apply_entries ::
    "('j, 'v) kg_env \<Rightarrow> (nat \<Rightarrow> kg_io) \<Rightarrow> capability_monitor \<Rightarrow> capability_token \<Rightarrow> 'j snapshot
     \<Rightarrow> ('j, 'v) knowledge_graph
     \<Rightarrow> ((('ae, 'me) RecoveryError, unit) result \<times> ('j, 'v) knowledge_graph) option" where
  "apply_entries env ios monitor token [] g = Some (Inr (), g)"
| "apply_entries env ios monitor token ((node_id, state) # rest) g =
     Option.bind (apply_entry env (ios 0) monitor token node_id state g) (\<lambda>(res, g).
       case res of
         Inl e \<Rightarrow> Some (Inl e, g)
       | Inr _ \<Rightarrow> apply_entries env (\<lambda>k. ios (k + 1)) monitor token rest g)"

definition apply_snapshot ::
    "('j, 'v) kg_env \<Rightarrow> (nat \<Rightarrow> kg_io) \<Rightarrow> capability_monitor \<Rightarrow> capability_token \<Rightarrow> 'j snapshot \<Rightarrow> node_id list
     \<Rightarrow> ('j, 'v) knowledge_graph
     \<Rightarrow> ((('ae, 'me) RecoveryError, unit) result \<times> ('j, 'v) knowledge_graph) option" where
  "apply_snapshot env ios monitor token snapshot objects g =
     apply_entries env ios monitor token (filter (\<lambda>(i, _). List.member objects i) snapshot) g"

definition restore_objects ::
    "('j, 'v) kg_env \<Rightarrow> (nat \<Rightarrow> kg_io) \<Rightarrow> capability_monitor \<Rightarrow> capability_token \<Rightarrow> recovery_point_id
     \<Rightarrow> node_id list \<Rightarrow> ('j, 'm) recovery_service \<Rightarrow> ('j, 'v) knowledge_graph
     \<Rightarrow> ((('ae, 'me) RecoveryError, unit) result \<times> ('j, 'v) knowledge_graph) option" where
  "restore_objects env ios monitor token recovery_point_id objects s g =
     (case hm_get (rv_snapshots s) recovery_point_id of
        None \<Rightarrow> Some (Inl NoSuchRecoveryPoint, g)
      | Some snapshot \<Rightarrow> apply_snapshot env ios monitor token snapshot objects g)"

definition restore_to ::
    "('j, 'v) kg_env \<Rightarrow> instant \<Rightarrow> (nat \<Rightarrow> kg_io) \<Rightarrow> capability_monitor \<Rightarrow> capability_token
     \<Rightarrow> recovery_point_id \<Rightarrow> ('j, 'm) recovery_service \<Rightarrow> ('j, 'v) knowledge_graph
     \<Rightarrow> ((('ae, 'me) RecoveryError, unit) result \<times> ('j, 'v) knowledge_graph) option" where
  "restore_to env inst ios monitor token recovery_point_id s g =
     (case recovery_require monitor token inst WRITE of
        Inl e \<Rightarrow> Some (Inl e, g)
      | Inr _ \<Rightarrow>
          (case hm_get (rv_snapshots s) recovery_point_id of
             None \<Rightarrow> Some (Inl NoSuchRecoveryPoint, g)
           | Some snapshot \<Rightarrow>
               restore_objects env ios monitor token recovery_point_id (map fst snapshot) s g))"

definition ROLLBACK_CAUSE_KIND :: string where
  "ROLLBACK_CAUSE_KIND = ''recovery_rollback''"

definition rollback_content ::
    "'j json_ops \<Rightarrow> recovery_point_id \<Rightarrow> string \<Rightarrow> 'j rollback_cause \<Rightarrow> u64 \<Rightarrow> 'j" where
  "rollback_content js recovery_point_id subject cause now =
     js_object js
       [(''kind'', js_str js ROLLBACK_CAUSE_KIND), (''recovery_point_id'', js_u64 js recovery_point_id),
        (''subject'', js_str js subject), (''reason'', js_str js (rc_reason cause)),
        (''detail'', rc_detail cause), (''created_at'', js_u64 js now)]"

definition restore_to_with_cause ::
    "('j, 'v) kg_env \<Rightarrow> 'j json_ops \<Rightarrow> ('m, 'j, 'me) memory_ops \<Rightarrow> instant \<Rightarrow> (nat \<Rightarrow> kg_io)
     \<Rightarrow> capability_monitor \<Rightarrow> capability_token \<Rightarrow> recovery_point_id \<Rightarrow> string \<Rightarrow> 'j rollback_cause \<Rightarrow> u64
     \<Rightarrow> ('j, 'm) recovery_service \<Rightarrow> ('j, 'v) knowledge_graph
     \<Rightarrow> ((('ae, 'me) RecoveryError, unit) result \<times> ('j, 'm) recovery_service \<times> ('j, 'v) knowledge_graph) option" where
  "restore_to_with_cause env js mem inst ios monitor token recovery_point_id subject cause now s g =
     map_option (\<lambda>(res, g).
         case res of
           Inl e \<Rightarrow> (Inl e, s, g)
         | Inr _ \<Rightarrow>
             (Inr (),
              s\<lparr>rv_memory := map_option (mo_remember mem monitor token
                  (rollback_content js recovery_point_id subject cause now)) (rv_memory s)\<rparr>, g))
       (restore_to env inst ios monitor token recovery_point_id s g)"

definition recorded_rollback_of ::
    "'j json_ops \<Rightarrow> string \<Rightarrow> 'j \<Rightarrow> 'j recorded_rollback option" where
  "recorded_rollback_of js subject content =
     do {
       point <- Option.bind (js_get js content ''recovery_point_id'') (js_as_u64 js);
       reason <- Option.bind (js_get js content ''reason'') (js_as_str js);
       let detail = (case js_get js content ''detail'' of Some d \<Rightarrow> d | None \<Rightarrow> js_null js);
       created_at <- Option.bind (js_get js content ''created_at'') (js_as_u64 js);
       Some \<lparr>rr_recovery_point_id = point, rr_subject = subject,
             rr_cause = \<lparr>rc_reason = reason, rc_detail = detail\<rparr>, rr_created_at = created_at\<rparr>
     }"

definition rollback_causes ::
    "'j json_ops \<Rightarrow> ('m, 'j, 'me) memory_ops \<Rightarrow> capability_monitor \<Rightarrow> capability_token \<Rightarrow> string
     \<Rightarrow> ('j, 'm) recovery_service \<Rightarrow> (('ae, 'me) RecoveryError, 'j recorded_rollback list) result" where
  "rollback_causes js mem monitor token subject s =
     (case rv_memory s of
        None \<Rightarrow> Inr []
      | Some memory \<Rightarrow>
          and_then (map_err RecoveryMemory (mo_query mem monitor token memory)) (\<lambda>records.
            Inr (sort_key rr_created_at
              (List.map_filter (recorded_rollback_of js subject)
                (filter (\<lambda>content.
                    Option.bind (js_get js content ''kind'') (js_as_str js) = Some ROLLBACK_CAUSE_KIND
                    \<and> Option.bind (js_get js content ''subject'') (js_as_str js) = Some subject)
                  records)))))"

section \<open>Crash recovery, undo and redo\<close>

definition replan_agent ::
    "('a, 'i, 'ae) agent_ops \<Rightarrow> capability_monitor \<Rightarrow> capability_token \<Rightarrow> u64 option \<Rightarrow> 'a
     \<Rightarrow> (('ae, 'me) RecoveryError, unit) result \<times> 'a" where
  "replan_agent ag monitor token agent_run_id a =
     (case agent_run_id of
        None \<Rightarrow> (Inr (), a)
      | Some run \<Rightarrow>
          (case ag_describe ag run a of
             None \<Rightarrow> (Inr (), a)
           | Some instance' \<Rightarrow>
               (case ag_terminate ag monitor token run ''crash_recovery_replan'' a of
                  (Inl e, a) \<Rightarrow> (Inl (RecoveryAgent e), a)
                | (Inr _, a) \<Rightarrow>
                    (case ag_spawn ag monitor token instance' a of
                       (Inl e, a) \<Rightarrow> (Inl (RecoveryAgent e), a)
                     | (Inr _, a) \<Rightarrow> (Inr (), a)))))"

fun recover_actions ::
    "('j, 'v) kg_env \<Rightarrow> ('a, 'i, 'ae) agent_ops \<Rightarrow> (action_id \<Rightarrow> nat \<Rightarrow> kg_io) \<Rightarrow> capability_monitor
     \<Rightarrow> capability_token \<Rightarrow> action_record list \<Rightarrow> action_id list
     \<Rightarrow> ('j, 'm) recovery_service \<Rightarrow> ('j, 'v) knowledge_graph \<Rightarrow> 'a
     \<Rightarrow> ((('ae, 'me) RecoveryError, action_id list) result
         \<times> ('j, 'm) recovery_service \<times> ('j, 'v) knowledge_graph \<times> 'a) option" where
  "recover_actions env ag ios monitor token [] recovered s g a = Some (Inr recovered, s, g, a)"
| "recover_actions env ag ios monitor token (r # rs) recovered s g a =
     Option.bind (restore_objects env (ios (ar_action_id r)) monitor token (ar_recovery_point_before r)
         (ar_objects_touched r) s g) (\<lambda>(res, g).
       case res of
         Inl e \<Rightarrow> Some (Inl e, s, g, a)
       | Inr _ \<Rightarrow>
           (case replan_agent ag monitor token (ar_agent_run_id r) a of
              (Inl e, a) \<Rightarrow> Some (Inl e, s, g, a)
            | (Inr _, a) \<Rightarrow>
                (case record_action_aborted (ar_action_id r) s of
                   (Inl e, s) \<Rightarrow> Some (Inl e, s, g, a)
                 | (Inr _, s) \<Rightarrow>
                     recover_actions env ag ios monitor token rs (recovered @ [ar_action_id r]) s g a)))"

definition recover_from_crash ::
    "('j, 'v) kg_env \<Rightarrow> ('a, 'i, 'ae) agent_ops \<Rightarrow> (action_id \<Rightarrow> nat \<Rightarrow> kg_io) \<Rightarrow> capability_monitor
     \<Rightarrow> capability_token \<Rightarrow> ('j, 'm) recovery_service \<Rightarrow> ('j, 'v) knowledge_graph \<Rightarrow> 'a
     \<Rightarrow> ((('ae, 'me) RecoveryError, action_id list) result
         \<times> ('j, 'm) recovery_service \<times> ('j, 'v) knowledge_graph \<times> 'a) option" where
  "recover_from_crash env ag ios monitor token s g a =
     recover_actions env ag ios monitor token (filter (\<lambda>r. ar_status r = InFlight) (rv_actions s)) [] s g a"

fun in_scope :: "action_record \<Rightarrow> UndoScope \<Rightarrow> bool" where
  "in_scope r (SingleAction i) = (ar_action_id r = i)"
| "in_scope r (AgentRun run_id) = (ar_agent_run_id r = Some run_id)"
| "in_scope r (Session session_id) = (ar_session_id r = Some session_id)"
| "in_scope r (Goal goal_id) = (ar_goal_id r = Some goal_id)"
| "in_scope r (Global point_id) = (ar_recovery_point_before r = point_id)"

text \<open>The objects of the scope that other live actions touched since the scope's first one.\<close>

definition conflicts ::
    "(ActionStatus \<Rightarrow> bool) \<Rightarrow> action_record list \<Rightarrow> action_record list \<Rightarrow> node_id list" where
  "conflicts live scope all =
     (let scope_ids = map ar_action_id scope;
          touched = concat (map ar_objects_touched scope);
          earliest = min_list (map ar_created_at scope)
      in filter (\<lambda>i. List.member touched i)
           (concat (map ar_objects_touched
             (filter (\<lambda>a. \<not> List.member scope_ids (ar_action_id a) \<and> live (ar_status a)
                          \<and> earliest \<le> ar_created_at a) all))))"

fun capture_effects ::
    "capability_monitor \<Rightarrow> capability_token \<Rightarrow> (action_id \<Rightarrow> nat \<Rightarrow> instant) \<Rightarrow> action_record list
     \<Rightarrow> ('j, 'v) knowledge_graph \<Rightarrow> (action_id, 'j snapshot) hashmap
     \<Rightarrow> (('ae, 'me) RecoveryError, unit) result \<times> (action_id, 'j snapshot) hashmap" where
  "capture_effects monitor token nows [] g redo = (Inr (), redo)"
| "capture_effects monitor token nows (r # rs) g redo =
     (case snapshot_objects monitor token (nows (ar_action_id r)) (ar_objects_touched r) g of
        Inl e \<Rightarrow> (Inl e, redo)
      | Inr post_action_state \<Rightarrow>
          capture_effects monitor token nows rs g (hm_insert (ar_action_id r) post_action_state redo))"

fun restore_all ::
    "('j, 'v) kg_env \<Rightarrow> (action_id \<Rightarrow> nat \<Rightarrow> kg_io) \<Rightarrow> capability_monitor \<Rightarrow> capability_token
     \<Rightarrow> action_record list \<Rightarrow> ('j, 'm) recovery_service \<Rightarrow> ('j, 'v) knowledge_graph
     \<Rightarrow> ((('ae, 'me) RecoveryError, unit) result \<times> ('j, 'v) knowledge_graph) option" where
  "restore_all env ios monitor token [] s g = Some (Inr (), g)"
| "restore_all env ios monitor token (r # rs) s g =
     Option.bind (restore_objects env (ios (ar_action_id r)) monitor token (ar_recovery_point_before r)
         (ar_objects_touched r) s g) (\<lambda>(res, g).
       case res of Inl e \<Rightarrow> Some (Inl e, g) | Inr _ \<Rightarrow> restore_all env ios monitor token rs s g)"

definition mark :: "action_id list \<Rightarrow> ActionStatus \<Rightarrow> action_record list \<Rightarrow> action_record list" where
  "mark scope_ids status =
     map (\<lambda>a. if List.member scope_ids (ar_action_id a) then a\<lparr>ar_status := status\<rparr> else a)"

text \<open>Newest first: a stable sort by the reversed time of creation.\<close>

definition newest_first :: "action_record list \<Rightarrow> action_record list" where
  "newest_first = sort_key (\<lambda>a. - uint (ar_created_at a))"

definition undo ::
    "('j, 'v) kg_env \<Rightarrow> instant \<Rightarrow> (action_id \<Rightarrow> nat \<Rightarrow> instant) \<Rightarrow> (action_id \<Rightarrow> nat \<Rightarrow> kg_io) \<Rightarrow> capability_monitor
     \<Rightarrow> capability_token \<Rightarrow> UndoScope \<Rightarrow> ('j, 'm) recovery_service \<Rightarrow> ('j, 'v) knowledge_graph
     \<Rightarrow> ((('ae, 'me) RecoveryError, UndoReceipt) result
         \<times> ('j, 'm) recovery_service \<times> ('j, 'v) knowledge_graph) option" where
  "undo env inst nows ios monitor token scope s g =
     (case recovery_require monitor token inst WRITE of
        Inl e \<Rightarrow> Some (Inl e, s, g)
      | Inr _ \<Rightarrow>
          (let all_actions = rv_actions s;
               scoped = newest_first (filter (\<lambda>a. ar_status a = Committed \<and> in_scope a scope) all_actions);
               conflicting = conflicts (\<lambda>st. st \<noteq> Aborted \<and> st \<noteq> Undone) scoped all_actions
           in if scoped = [] then Some (Inr NothingToUndo, s, g)
              else if conflicting \<noteq> [] then Some (Inr (UndoNeedsConfirmation conflicting), s, g)
              else
                case capture_effects monitor token nows scoped g (rv_redo_snapshots s) of
                  (Inl e, redo) \<Rightarrow> Some (Inl e, s\<lparr>rv_redo_snapshots := redo\<rparr>, g)
                | (Inr _, redo) \<Rightarrow>
                    (let s = s\<lparr>rv_redo_snapshots := redo\<rparr>
                     in map_option (\<lambda>(res, g).
                          case res of
                            Inl e \<Rightarrow> (Inl e, s, g)
                          | Inr _ \<Rightarrow>
                              (Inr (UndoTargeted (map ar_action_id scoped)),
                               s\<lparr>rv_actions := mark (map ar_action_id scoped) Undone (rv_actions s)\<rparr>, g))
                          (restore_all env ios monitor token scoped s g))))"

fun reapply_all ::
    "('j, 'v) kg_env \<Rightarrow> (action_id \<Rightarrow> nat \<Rightarrow> kg_io) \<Rightarrow> capability_monitor \<Rightarrow> capability_token
     \<Rightarrow> action_record list \<Rightarrow> ('j, 'm) recovery_service \<Rightarrow> ('j, 'v) knowledge_graph
     \<Rightarrow> ((('ae, 'me) RecoveryError, unit) result \<times> ('j, 'v) knowledge_graph) option" where
  "reapply_all env ios monitor token [] s g = Some (Inr (), g)"
| "reapply_all env ios monitor token (r # rs) s g =
     (case hm_get (rv_redo_snapshots s) (ar_action_id r) of
        None \<Rightarrow> Some (Inl NoSuchAction, g)
      | Some snapshot \<Rightarrow>
          Option.bind (apply_snapshot env (ios (ar_action_id r)) monitor token snapshot
              (ar_objects_touched r) g) (\<lambda>(res, g).
            case res of Inl e \<Rightarrow> Some (Inl e, g) | Inr _ \<Rightarrow> reapply_all env ios monitor token rs s g))"

definition redo ::
    "('j, 'v) kg_env \<Rightarrow> instant \<Rightarrow> (action_id \<Rightarrow> nat \<Rightarrow> kg_io) \<Rightarrow> capability_monitor
     \<Rightarrow> capability_token \<Rightarrow> UndoScope \<Rightarrow> ('j, 'm) recovery_service \<Rightarrow> ('j, 'v) knowledge_graph
     \<Rightarrow> ((('ae, 'me) RecoveryError, RedoReceipt) result
         \<times> ('j, 'm) recovery_service \<times> ('j, 'v) knowledge_graph) option" where
  "redo env inst ios monitor token scope s g =
     (case recovery_require monitor token inst WRITE of
        Inl e \<Rightarrow> Some (Inl e, s, g)
      | Inr _ \<Rightarrow>
          (let all_actions = rv_actions s;
               scoped = sort_key ar_created_at (filter (\<lambda>a. ar_status a = Undone \<and> in_scope a scope) all_actions);
               conflicting = conflicts (\<lambda>st. st = Committed) scoped all_actions
           in if scoped = [] then Some (Inr NothingToRedo, s, g)
              else if conflicting \<noteq> [] then Some (Inr (RedoNeedsConfirmation conflicting), s, g)
              else map_option (\<lambda>(res, g).
                     case res of
                       Inl e \<Rightarrow> (Inl e, s, g)
                     | Inr _ \<Rightarrow>
                         (Inr (RedoTargeted (map ar_action_id scoped)),
                          s\<lparr>rv_actions := mark (map ar_action_id scoped) Committed (rv_actions s)\<rparr>, g))
                     (reapply_all env ios monitor token scoped s g)))"

section \<open>Pinning and retention\<close>

definition pin ::
    "capability_monitor \<Rightarrow> capability_token \<Rightarrow> instant \<Rightarrow> recovery_point_id \<Rightarrow> ('j, 'm) recovery_service
     \<Rightarrow> (('ae, 'me) RecoveryError, unit) result \<times> ('j, 'm) recovery_service" where
  "pin monitor token inst i s =
     (case recovery_require monitor token inst WRITE of
        Inl e \<Rightarrow> (Inl e, s)
      | Inr _ \<Rightarrow>
          if hm_contains_key (rv_points s) i
          then (Inr (), s\<lparr>rv_points := hm_modify i (rp_pinned_update (\<lambda>_. True)) (rv_points s)\<rparr>)
          else (Inl NoSuchRecoveryPoint, s))"

definition unpin ::
    "capability_monitor \<Rightarrow> capability_token \<Rightarrow> instant \<Rightarrow> recovery_point_id \<Rightarrow> ('j, 'm) recovery_service
     \<Rightarrow> (('ae, 'me) RecoveryError, unit) result \<times> ('j, 'm) recovery_service" where
  "unpin monitor token inst i s =
     (case recovery_require monitor token inst WRITE of
        Inl e \<Rightarrow> (Inl e, s)
      | Inr _ \<Rightarrow>
          if hm_contains_key (rv_points s) i
          then (Inr (), s\<lparr>rv_points := hm_modify i (rp_pinned_update (\<lambda>_. False)) (rv_points s)\<rparr>)
          else (Inl NoSuchRecoveryPoint, s))"

definition recovery_compact ::
    "u64 \<Rightarrow> u64 \<Rightarrow> ('j, 'm) recovery_service \<Rightarrow> nat \<times> ('j, 'm) recovery_service" where
  "recovery_compact now retention_secs s =
     (let still_needed = map ar_recovery_point_before
            (filter (\<lambda>a. ar_status a = InFlight \<or> ar_status a = Committed) (rv_actions s));
          to_evict = map rp_id (filter (\<lambda>p. \<not> rp_pinned p
                        \<and> retention_secs \<le> saturating_sub now (rp_created_at p)
                        \<and> \<not> List.member still_needed (rp_id p)) (hm_values (rv_points s)))
      in (length to_evict,
          s\<lparr>rv_points := fold hm_remove to_evict (rv_points s),
            rv_snapshots := fold hm_remove to_evict (rv_snapshots s)\<rparr>))"

end
