(* ===== verification/Recovery_Safety.thy ===== *)
theory Recovery_Safety
  imports Recovery
begin

text \<open>
  What the operations of theory Recovery guarantee: the journal's invariant over every run of the
  service, what undo, redo, crash recovery and the retention sweep do to the graph and the journal.
\<close>

section \<open>What restoring does to a node\<close>

lemma neq_Inr_unit: "r \<noteq> Inr () \<longleftrightarrow> (\<exists>e. r = Inl e)"
  by (cases r) auto

lemma all_neq_Inl: "(\<forall>e. r \<noteq> Inl e) \<longleftrightarrow> (\<exists>y. r = Inr y)"
  by (cases r) auto

lemma case_sum_Some_Inr [simp]:
  "(case r of Inl e \<Rightarrow> Some (Inl (h e), g) | Inr y \<Rightarrow> f y) = Some (Inr x, g') \<longleftrightarrow>
     (\<exists>y. r = Inr y \<and> f y = Some (Inr x, g'))"
  by (cases r) auto

lemma case_sum_Inr [simp]:
  "(case r of Inl e \<Rightarrow> Inl (h e) | Inr y \<Rightarrow> f y) = Inr x \<longleftrightarrow> (\<exists>y. r = Inr y \<and> f y = Inr x)"
  by (cases r) auto

lemma case_sum_not_found_Inr [simp]:
  "(case r of Inl e \<Rightarrow> if e = k then Inr () else Inl (h e) | Inr y \<Rightarrow> Inr ()) = Inr x \<longleftrightarrow>
     (\<exists>y. r = Inr y) \<or> r = Inl k"
  by (cases r) auto

text \<open>The part of a node that a snapshot carries over, and what a boundary is shown of a node.\<close>

definition content :: "'j node_record \<Rightarrow> string \<times> real list option \<times> 'j" where
  "content n = (nr_object_type n, nr_embedding n, nr_metadata n)"

definition shown :: "u64 \<Rightarrow> ('j, 'v) knowledge_graph \<Rightarrow> node_id \<Rightarrow> (string \<times> real list option \<times> 'j) option" where
  "shown b g i =
     (case hm_get (gi_nodes (kg_index g)) i of
        None \<Rightarrow> None
      | Some n \<Rightarrow> if \<not> nr_tombstone n \<and> nr_owner n = b then Some (content n) else None)"

definition buried :: "('j, 'v) knowledge_graph \<Rightarrow> node_id \<Rightarrow> bool" where
  "buried g i = (case hm_get (gi_nodes (kg_index g)) i of None \<Rightarrow> False | Some n \<Rightarrow> nr_tombstone n)"

lemma buried_unseen: "buried g i \<Longrightarrow> shown b g i = None"
  by (auto simp: shown_def buried_def split: option.splits)

lemma shown_kg_get:
  assumes "require m t now READ = Inr ()"
  shows "shown (ct_origin t) g i = (case kg_get m t now i g of Inl _ \<Rightarrow> None | Inr n \<Rightarrow> Some (content n))"
  using assms by (auto simp: shown_def kg_get_def split: option.splits)

lemma kg_get_shown: "kg_get m t now i g = Inr n \<Longrightarrow> shown (ct_origin t) g i = Some (content n)"
  by (auto simp: shown_def kg_get_def and_then_Inr_iff split: option.splits if_splits)

lemma kg_get_NotFound:
  "kg_get m t now i g = Inl GraphNotFound \<Longrightarrow> shown (ct_origin t) g i = None"
  by (auto simp: shown_def kg_get_def and_then_def require_def map_err_def split: option.splits if_splits sum.splits)

text \<open>
  The effect of one entry of a snapshot on one node: a record is shown again unless the node is
  buried, and an absent one is not shown, and buried if it was.
\<close>

fun restore_step ::
    "'j node_record option \<Rightarrow> (string \<times> real list option \<times> 'j) option \<times> bool
     \<Rightarrow> (string \<times> real list option \<times> 'j) option \<times> bool" where
  "restore_step (Some n) (v, b) = (if b then None else Some (content n), b)"
| "restore_step None (v, b) = (None, b \<or> v \<noteq> None)"

abbreviation view ::
    "u64 \<Rightarrow> ('j, 'v) knowledge_graph \<Rightarrow> node_id \<Rightarrow> (string \<times> real list option \<times> 'j) option \<times> bool" where
  "view b g i \<equiv> (shown b g i, buried g i)"

definition states_of :: "node_id \<Rightarrow> 'j snapshot \<Rightarrow> 'j node_record option list" where
  "states_of i snap = map snd (filter (\<lambda>(j, _). j = i) snap)"

lemma put_node_Inr:
  assumes "put_node env io m t (Some i) ty emb md g = Some (Inr r, g')"
  obtains n where "kg_index g' = index_apply i (Node n) (kg_index g)" "content n = (ty, emb, md)"
    "nr_owner n = ct_origin t" "nr_tombstone n = buried g i"
    "nr_device_origin n = 0" "nr_origin n = IngestedExternal" "nr_tenant_id n = 0"
proof -
  let ?old = "hm_get (gi_nodes (kg_index g)) i"
  define n where "n = \<lparr>nr_object_type = ty, nr_embedding = emb, nr_metadata = md,
        nr_owner = (case ?old of None \<Rightarrow> ct_origin t | Some n \<Rightarrow> nr_owner n),
        nr_device_origin = 0, nr_origin = IngestedExternal,
        nr_corroboration_count = (case ?old of None \<Rightarrow> 0 | Some n \<Rightarrow> nr_corroboration_count n),
        nr_tenant_id = 0,
        nr_created_at = (case ?old of None \<Rightarrow> io_wall_created io | Some n \<Rightarrow> nr_created_at n),
        nr_updated_at = io_wall_updated io,
        nr_tombstone = (case ?old of None \<Rightarrow> False | Some n \<Rightarrow> nr_tombstone n)\<rparr>"
  let ?foreign = "case ?old of None \<Rightarrow> False | Some n \<Rightarrow> nr_owner n \<noteq> ct_origin t"
  have put: "put_node env io m t (Some i) ty emb md g =
      (case require m t (io_now_require io) WRITE of
         Inl e \<Rightarrow> Some (Inl e, g)
       | Inr _ \<Rightarrow> if ?foreign then Some (Inl GraphNotFound, g)
           else store_record env io m t (Some i) (current_version (fst (kg_storage g)) i) (Node n)
                  (ct_origin t) [] (\<lambda>i. i) g)"
    unfolding put_node_def put_node_with_device_origin_def put_node_with_provenance_def Let_def n_def
    by (cases "require m t (io_now_require io) WRITE") simp_all
  have owner: "\<not> ?foreign" using assms unfolding put
    by (cases ?foreign; cases "require m t (io_now_require io) WRITE") simp_all
  then have st: "store_record env io m t (Some i) (current_version (fst (kg_storage g)) i) (Node n)
      (ct_origin t) [] (\<lambda>i. i) g = Some (Inr r, g')"
    using assms unfolding put by (cases "require m t (io_now_require io) WRITE") simp_all
  from st have "kg_index g' = index_apply i (Node n) (kg_index g)"
    by (rule store_record_Inr) (simp add: put_target_def)
  then show ?thesis
    by (rule that) (use owner in \<open>simp_all add: n_def content_def buried_def split: option.splits\<close>)
qed

lemma apply_entry_view:
  assumes "apply_entry env io m t i st g = Some (Inr x, g')"
  shows "view (ct_origin t) g' j =
    (if j = i then restore_step st (view (ct_origin t) g i) else view (ct_origin t) g j)"
proof (cases st)
  case (Some n)
  with assms obtain r where "put_node env io m t (Some i) (nr_object_type n) (nr_embedding n) (nr_metadata n) g
      = Some (Inr r, g')" by (auto simp: apply_entry_def)
  then obtain k where "kg_index g' = index_apply i (Node k) (kg_index g)" "content k = content n"
    "nr_owner k = ct_origin t" "nr_tombstone k = buried g i"
    by (rule put_node_Inr) (simp add: content_def)
  with Some show ?thesis by (auto simp: shown_def buried_def index_apply_simps)
next
  case None
  with assms obtain res where res: "delete_node env io m t i g = Some (res, g')" "res = Inr () \<or> res = Inl GraphNotFound"
    by (auto simp: apply_entry_def)
  consider (gone) "kg_index g' = kg_index g" "shown (ct_origin t) g i = None"
    | (deleted) n where "hm_get (gi_nodes (kg_index g)) i = Some n" "nr_owner n = ct_origin t" "\<not> nr_tombstone n"
        "store_record env io m t (Some i) (current_version (fst (kg_storage g)) i)
           (Node (n\<lparr>nr_tombstone := True, nr_updated_at := io_wall_updated io\<rparr>)) (ct_origin t) [] (\<lambda>_. ()) g
         = Some (res, g')"
    using res by (auto simp: delete_node_def shown_def require_def map_err_def split: sum.splits option.splits if_splits)
  then show ?thesis
  proof cases
    case gone
    then show ?thesis using None by (simp add: shown_def buried_def)
  next
    case deleted
    show ?thesis
    proof (cases res)
      case (Inl e)
      with deleted(4) have "e \<noteq> GraphNotFound"
        by (auto simp: store_record_def split: sum.splits prod.splits option.splits)
      with Inl res(2) show ?thesis by simp
    next
      case (Inr y)
      from deleted(4) [unfolded Inr] have "kg_index g' = index_apply i
          (Node (n\<lparr>nr_tombstone := True, nr_updated_at := io_wall_updated io\<rparr>)) (kg_index g)"
        by (rule store_record_Inr) (simp add: put_target_def)
      with None deleted show ?thesis by (auto simp: shown_def buried_def index_apply_simps)
    qed
  qed
qed

lemma apply_entries_view:
  assumes "apply_entries env ios m t es g = Some (Inr x :: (('ae, 'me) RecoveryError, unit) result, g')"
  shows "view (ct_origin t) g' i = fold restore_step (states_of i es) (view (ct_origin t) g i)"
  using assms
proof (induction es arbitrary: ios g)
  case Nil
  then show ?case by (simp add: states_of_def)
next
  case (Cons e es)
  obtain j st where e: "e = (j, st)" by (cases e)
  with Cons.prems obtain y g1 where 1: "apply_entry env (ios 0) m t j st g = Some (Inr y :: (('ae, 'me) RecoveryError, unit) result, g1)"
    "apply_entries env (\<lambda>k. ios (k + 1)) m t es g1 = Some (Inr x :: (('ae, 'me) RecoveryError, unit) result, g')"
    by (auto simp: bind_eq_Some_conv)
  from Cons.IH [OF 1(2)] apply_entry_view [OF 1(1), of i] show ?case
    by (auto simp: e states_of_def)
qed

lemma states_of_filter:
  "states_of i (filter (\<lambda>(j, _). List.member objects j) snap)
    = (if i \<in> set objects then states_of i snap else [])"
  by (induction snap) (auto simp: states_of_def)

lemma apply_snapshot_view:
  assumes "apply_snapshot env ios m t snap objects g = Some (Inr x, g')"
  shows "view (ct_origin t) g' i =
    fold restore_step (if i \<in> set objects then states_of i snap else []) (view (ct_origin t) g i)"
  using apply_entries_view [OF assms [unfolded apply_snapshot_def], of i] unfolding states_of_filter .

text \<open>The states an undo writes to a node, in the order in which it writes them.\<close>

definition undo_states :: "(recovery_point_id, 'j snapshot) hashmap \<Rightarrow> action_record list \<Rightarrow> node_id \<Rightarrow> 'j node_record option list" where
  "undo_states snaps rs i = concat (map (\<lambda>r.
     if i \<in> set (ar_objects_touched r)
     then (case hm_get snaps (ar_recovery_point_before r) of
             None \<Rightarrow> [] | Some snap \<Rightarrow> states_of i snap)
     else []) rs)"

lemma restore_all_view:
  assumes "restore_all env ios m t rs s g = Some (Inr x :: (('ae, 'me) RecoveryError, unit) result, g')"
  shows "view (ct_origin t) g' i = fold restore_step (undo_states (rv_snapshots s) rs i) (view (ct_origin t) g i)"
  using assms
proof (induction rs arbitrary: g)
  case Nil
  then show ?case by (simp add: undo_states_def)
next
  case (Cons r rs)
  then obtain y g1 snap where 1: "hm_get (rv_snapshots s) (ar_recovery_point_before r) = Some snap"
    "apply_snapshot env (ios (ar_action_id r)) m t snap (ar_objects_touched r) g = Some (Inr y :: (('ae, 'me) RecoveryError, unit) result, g1)"
    "restore_all env ios m t rs s g1 = Some (Inr x :: (('ae, 'me) RecoveryError, unit) result, g')"
    by (auto simp: bind_eq_Some_conv restore_objects_def split: option.splits)
  from Cons.IH [OF 1(3)] apply_snapshot_view [OF 1(2), of i] 1(1) show ?case
    by (simp add: undo_states_def)
qed

lemma fold_restore_last:
  "sts \<noteq> [] \<Longrightarrow> last sts = None \<Longrightarrow> fst (fold restore_step sts v) = None"
  "None \<notin> set sts \<Longrightarrow> \<not> snd v \<Longrightarrow> \<not> snd (fold restore_step sts v)"
  "sts \<noteq> [] \<Longrightarrow> None \<notin> set sts \<Longrightarrow> \<not> snd v \<Longrightarrow>
     fst (fold restore_step sts v) = map_option content (last sts)"
proof -
  have *: "None \<notin> set sts \<Longrightarrow> \<not> snd v \<Longrightarrow> \<not> snd (fold restore_step sts v)" for sts v
  proof (induction sts arbitrary: v)
    case (Cons st sts)
    then show ?case by (cases v; cases st) auto
  qed simp
  then show "None \<notin> set sts \<Longrightarrow> \<not> snd v \<Longrightarrow> \<not> snd (fold restore_step sts v)" .
  show "sts \<noteq> [] \<Longrightarrow> last sts = None \<Longrightarrow> fst (fold restore_step sts v) = None"
    by (cases sts rule: rev_cases; cases "fold restore_step (butlast sts) v") auto
  show "sts \<noteq> [] \<Longrightarrow> None \<notin> set sts \<Longrightarrow> \<not> snd v \<Longrightarrow>
      fst (fold restore_step sts v) = map_option content (last sts)"
  proof (cases sts rule: rev_cases)
    case (snoc sts' st)
    assume "None \<notin> set sts" "\<not> snd v"
    with * [of sts' v] snoc show ?thesis by (cases "fold restore_step sts' v"; cases st) auto
  qed simp
qed

text \<open>A node ends in the last state written to it, unless it had been deleted or was in between.\<close>

lemma fold_restore_outcome:
  assumes "sts \<noteq> []" "last sts = before" "snd v \<Longrightarrow> fst v = None"
  shows "fst (fold restore_step sts v) = (if snd v then None else map_option content before)
    \<or> fst (fold restore_step sts v) = None \<and> None \<in> set (butlast sts)"
proof (cases sts rule: rev_cases)
  case (snoc sts' st)
  have keep: "snd w \<Longrightarrow> snd (restore_step x w)" for x w by (cases w; cases x) simp_all
  have dead: "snd (fold restore_step zs v)" if "snd v" for zs
    using that by (induction zs rule: rev_induct) (simp_all add: keep)
  have alive: "\<not> snd (fold restore_step sts' v)" if "None \<notin> set sts'" "\<not> snd v"
    using fold_restore_last(2) that by blast
  show ?thesis
  proof (cases st)
    case None
    with snoc assms show ?thesis by (cases "fold restore_step sts' v") auto
  next
    case (Some n)
    with snoc assms dead [of sts'] alive show ?thesis
      by (cases "fold restore_step sts' v"; cases "snd (fold restore_step sts' v)") auto
  qed
qed (use assms in simp)

section \<open>The journal\<close>

text \<open>
  One call of the service, with the graph and the agents it runs on; the label is the action that is
  recorded as committed, if the call is that.  In between anyone may change the graph and the agents,
  and the counter of the actions has not come round.
\<close>

inductive recovery_step ::
    "('j, 'v) kg_env \<Rightarrow> 'j json_ops \<Rightarrow> ('m, 'j, 'me) memory_ops \<Rightarrow> ('a, 'i, 'ae) agent_ops \<Rightarrow> action_id option
     \<Rightarrow> ('j, 'm) recovery_service \<Rightarrow> ('j, 'v) knowledge_graph \<Rightarrow> 'a
     \<Rightarrow> ('j, 'm) recovery_service \<Rightarrow> ('j, 'v) knowledge_graph \<Rightarrow> 'a \<Rightarrow> bool"
  for env :: "('j, 'v) kg_env" and js :: "'j json_ops" and mem :: "('m, 'j, 'me) memory_ops"
    and ag :: "('a, 'i, 'ae) agent_ops" where
  step_elsewhere: "recovery_step env js mem ag None s g a s g' a'"
| step_create: "recovery_point_create m t inst nows trigger objects now g s
        = (res :: (('ae, 'me) RecoveryError, recovery_point_id) result, s')
    \<Longrightarrow> recovery_step env js mem ag None s g a s' g a"
| step_started: "rv_next_action_id s \<noteq> - 1
    \<Longrightarrow> record_action_started_with_scope p objects run_id session_id goal_id note' now s = (i, s')
    \<Longrightarrow> recovery_step env js mem ag None s g a s' g a"
| step_committed: "record_action_committed i s = (res :: (('ae, 'me) RecoveryError, unit) result, s')
    \<Longrightarrow> recovery_step env js mem ag (Some i) s g a s' g a"
| step_aborted: "record_action_aborted i s = (res :: (('ae, 'me) RecoveryError, unit) result, s')
    \<Longrightarrow> recovery_step env js mem ag None s g a s' g a"
| step_expire: "expire i s = (res :: (('ae, 'me) RecoveryError, unit) result, s')
    \<Longrightarrow> recovery_step env js mem ag None s g a s' g a"
| step_restore: "restore_to_with_cause env js mem inst nios m t p subject cause now s g
        = Some (res :: (('ae, 'me) RecoveryError, unit) result, s', g')
    \<Longrightarrow> recovery_step env js mem ag None s g a s' g' a"
| step_recover: "recover_from_crash env ag ios m t s g a
        = Some (res :: (('ae, 'me) RecoveryError, action_id list) result, s', g', a')
    \<Longrightarrow> recovery_step env js mem ag None s g a s' g' a'"
| step_undo: "undo env inst nows2 ios m t scope s g
        = Some (res2 :: (('ae, 'me) RecoveryError, UndoReceipt) result, s', g')
    \<Longrightarrow> recovery_step env js mem ag None s g a s' g' a"
| step_redo: "redo env inst ios m t scope s g
        = Some (res3 :: (('ae, 'me) RecoveryError, RedoReceipt) result, s', g')
    \<Longrightarrow> recovery_step env js mem ag None s g a s' g' a"
| step_pin: "pin m t inst p s = (res :: (('ae, 'me) RecoveryError, unit) result, s')
    \<Longrightarrow> recovery_step env js mem ag None s g a s' g a"
| step_unpin: "unpin m t inst p s = (res :: (('ae, 'me) RecoveryError, unit) result, s')
    \<Longrightarrow> recovery_step env js mem ag None s g a s' g a"
| step_compact: "recovery_compact now retention s = (k, s')
    \<Longrightarrow> recovery_step env js mem ag None s g a s' g a"

text \<open>The states the service reaches, and those it reaches from a state without recording any of the
  given actions as committed.\<close>

inductive recovery_run ::
    "('j, 'v) kg_env \<Rightarrow> 'j json_ops \<Rightarrow> ('m, 'j, 'me) memory_ops \<Rightarrow> ('a, 'i, 'ae) agent_ops
     \<Rightarrow> ('j, 'm) recovery_service \<Rightarrow> ('j, 'v) knowledge_graph \<Rightarrow> 'a \<Rightarrow> bool"
  for env js mem ag where
  run_new: "recovery_run env js mem ag (recovery_new_with_memory memory) g a"
| run_step: "recovery_run env js mem ag s g a \<Longrightarrow> recovery_step env js mem ag l s g a s' g' a'
    \<Longrightarrow> recovery_run env js mem ag s' g' a'"

inductive recovery_later ::
    "('j, 'v) kg_env \<Rightarrow> 'j json_ops \<Rightarrow> ('m, 'j, 'me) memory_ops \<Rightarrow> ('a, 'i, 'ae) agent_ops \<Rightarrow> action_id set
     \<Rightarrow> ('j, 'm) recovery_service \<Rightarrow> ('j, 'v) knowledge_graph \<Rightarrow> 'a
     \<Rightarrow> ('j, 'm) recovery_service \<Rightarrow> ('j, 'v) knowledge_graph \<Rightarrow> 'a \<Rightarrow> bool"
  for env js mem ag K s0 g0 a0 where
  later_start: "recovery_later env js mem ag K s0 g0 a0 s0 g0 a0"
| later_step: "recovery_later env js mem ag K s0 g0 a0 s g a \<Longrightarrow> recovery_step env js mem ag l s g a s' g' a'
    \<Longrightarrow> l \<notin> Some ` K \<Longrightarrow> recovery_later env js mem ag K s0 g0 a0 s' g' a'"

text \<open>A snapshot holds one state per node; points are kept under their own identifiers, with a
  snapshot each; actions have identifiers of their own.\<close>

definition consistent :: "'j snapshot \<Rightarrow> bool" where
  "consistent snap \<longleftrightarrow> (\<forall>i x y. (i, x) \<in> set snap \<longrightarrow> (i, y) \<in> set snap \<longrightarrow> x = y)"

definition journal_ok :: "('j, 'm) recovery_service \<Rightarrow> bool" where
  "journal_ok s \<longleftrightarrow>
     (\<forall>p snap. hm_get (rv_snapshots s) p = Some snap \<longrightarrow> consistent snap)
     \<and> (\<forall>i snap. hm_get (rv_redo_snapshots s) i = Some snap \<longrightarrow> consistent snap)
     \<and> (\<forall>p. hm_contains_key (rv_points s) p \<longrightarrow> rp_id (the (hm_get (rv_points s) p)) = p)
     \<and> hm_wf (rv_points s)
     \<and> fst ` set (rv_points s) = fst ` set (rv_snapshots s)
     \<and> distinct (map ar_action_id (rv_actions s))
     \<and> (\<forall>i \<in> set (map ar_action_id (rv_actions s)). i < rv_next_action_id s)"

lemma snapshot_objects_Inr:
  assumes "snapshot_objects m t nows is' g = (Inr snap :: (('ae, 'me) RecoveryError, 'j snapshot) result)"
  shows "map fst snap = is'"
    "(i, x) \<in> set snap \<Longrightarrow> map_option content x = shown (ct_origin t) g i"
    "(i, x) \<in> set snap \<Longrightarrow> \<exists>now. require m t now READ = Inr ()
       \<and> x = (case kg_get m t now i g of Inl _ \<Rightarrow> None | Inr n \<Rightarrow> Some n)"
proof -
  have "map fst snap = is' \<and> (\<forall>(i, x) \<in> set snap. map_option content x = shown (ct_origin t) g i
      \<and> (\<exists>now. require m t now READ = Inr ()
          \<and> x = (case kg_get m t now i g of Inl _ \<Rightarrow> None | Inr n \<Rightarrow> Some n)))"
    using assms
  proof (induction is' arbitrary: nows snap)
    case Nil
    then show ?case by simp
  next
    case (Cons j is')
    from Cons.prems obtain st rest where
      st: "(\<exists>n. kg_get m t (nows 0) j g = Inr n \<and> st = Some n) \<or> kg_get m t (nows 0) j g = Inl GraphNotFound \<and> st = None"
      and rest: "snapshot_objects m t (\<lambda>k. nows (k + 1)) is' g = (Inr rest :: (('ae, 'me) RecoveryError, 'j snapshot) result)" and snap: "snap = (j, st) # rest"
      by (auto simp: and_then_Inr_iff split: sum.splits if_splits)
    from st have "require m t (nows 0) READ = Inr ()"
      by (auto simp: kg_get_def and_then_def require_def map_err_def split: sum.splits)
    moreover from st have "map_option content st = shown (ct_origin t) g j"
      by (auto dest: kg_get_shown kg_get_NotFound)
    moreover from st have "st = (case kg_get m t (nows 0) j g of Inl _ \<Rightarrow> None | Inr n \<Rightarrow> Some n)" by auto
    ultimately show ?case using Cons.IH [OF rest] snap by auto
  qed
  then show "map fst snap = is'"
    "(i, x) \<in> set snap \<Longrightarrow> map_option content x = shown (ct_origin t) g i"
    "(i, x) \<in> set snap \<Longrightarrow> \<exists>now. require m t now READ = Inr ()
       \<and> x = (case kg_get m t now i g of Inl _ \<Rightarrow> None | Inr n \<Rightarrow> Some n)" by auto
qed

lemma kg_get_now:
  "require m t now READ = Inr () \<Longrightarrow> require m t now' READ = Inr () \<Longrightarrow> kg_get m t now i g = kg_get m t now' i g"
  by (simp add: kg_get_def)

lemma snapshot_objects_consistent:
  assumes "snapshot_objects m t nows is' g = Inr snap"
  shows "consistent snap"
  unfolding consistent_def
proof (intro allI impI)
  fix i x y
  assume "(i, x) \<in> set snap" "(i, y) \<in> set snap"
  from this [THEN snapshot_objects_Inr(3) [OF assms]] obtain n1 n2 where
    "require m t n1 READ = Inr ()" "x = (case kg_get m t n1 i g of Inl _ \<Rightarrow> None | Inr n \<Rightarrow> Some n)"
    "require m t n2 READ = Inr ()" "y = (case kg_get m t n2 i g of Inl _ \<Rightarrow> None | Inr n \<Rightarrow> Some n)"
    by blast
  then show "x = y" using kg_get_now by metis
qed

lemma update_first_ids: "map ar_action_id (update_first P (ar_status_update f) rs) = map ar_action_id rs"
  by (induction rs) auto

lemma mark_ids: "map ar_action_id (mark is' st rs) = map ar_action_id rs"
  by (simp add: mark_def comp_def)

text \<open>The parts of the state the invariant speaks about.\<close>

definition journal_shape where
  "journal_shape s = (rv_points s, rv_snapshots s, map ar_action_id (rv_actions s), rv_next_action_id s)"

lemma journal_ok_shape:
  assumes "journal_shape s' = journal_shape s"
    "\<And>i snap. hm_get (rv_redo_snapshots s') i = Some snap \<Longrightarrow>
       hm_get (rv_redo_snapshots s) i = Some snap \<or> consistent snap"
  shows "journal_ok s \<Longrightarrow> journal_ok s'"
proof -
  assume ok: "journal_ok s"
  from assms(1) have same: "rv_points s' = rv_points s" "rv_snapshots s' = rv_snapshots s"
    "map ar_action_id (rv_actions s') = map ar_action_id (rv_actions s)" "rv_next_action_id s' = rv_next_action_id s"
    by (simp_all add: journal_shape_def)
  note conjs = ok [unfolded journal_ok_def]
  have "consistent snap" if "hm_get (rv_redo_snapshots s') i = Some snap" for i snap
    using assms(2) [OF that] conjs [THEN conjunct2, THEN conjunct1, rule_format, of i snap] by (elim disjE)
  then have "\<forall>i snap. hm_get (rv_redo_snapshots s') i = Some snap \<longrightarrow> consistent snap" by (intro allI impI)
  with conjs show ?thesis unfolding journal_ok_def same by (elim conjE, intro conjI)
qed

lemma journal_ok_keeps:
  "journal_shape s' = journal_shape s \<and> rv_redo_snapshots s' = rv_redo_snapshots s \<Longrightarrow>
     journal_ok s \<Longrightarrow> journal_ok s'"
  by (rule journal_ok_shape) auto

lemma set_status_shape:
  "set_status i st s = (res, s') \<Longrightarrow>
     journal_shape s' = journal_shape s \<and> rv_redo_snapshots s' = rv_redo_snapshots s"
  by (auto simp: set_status_def journal_shape_def update_first_ids split: option.splits)

lemma expire_shape:
  "expire i s = (res, s') \<Longrightarrow>
     journal_shape s' = journal_shape s \<and> rv_redo_snapshots s' = rv_redo_snapshots s"
  by (auto simp: expire_def journal_shape_def update_first_ids split: option.splits if_splits)

lemma recover_actions_shape:
  assumes "recover_actions env ag ios m t rs recovered s g a
      = Some (res :: (('ae, 'me) RecoveryError, action_id list) result, s', g', a')"
  shows "journal_shape s' = journal_shape s \<and> rv_redo_snapshots s' = rv_redo_snapshots s"
  using assms
proof (induction rs arbitrary: recovered s g a)
  case Nil
  then show ?case by simp
next
  case (Cons r rs)
  obtain r1 g1 where 1: "restore_objects env (ios (ar_action_id r)) m t (ar_recovery_point_before r)
      (ar_objects_touched r) s g = Some (r1 :: (('ae, 'me) RecoveryError, unit) result, g1)"
    using Cons.prems by (auto simp: bind_eq_Some_conv)
  obtain r2 a2 where 2: "replan_agent ag m t (ar_agent_run_id r) a = (r2 :: (('ae, 'me) RecoveryError, unit) result, a2)"
    by (meson surj_pair)
  obtain r3 s3 where 3: "record_action_aborted (ar_action_id r) s = (r3 :: (('ae, 'me) RecoveryError, unit) result, s3)"
    by (meson surj_pair)
  have s3: "journal_shape s3 = journal_shape s" "rv_redo_snapshots s3 = rv_redo_snapshots s"
    using set_status_shape [OF 3 [unfolded record_action_aborted_def]] by simp_all
  from Cons.prems 1 2 3 consider "s' = s" | "s' = s3"
    | "recover_actions env ag ios m t rs (recovered @ [ar_action_id r]) s3 g1 a2 = Some (res, s', g', a')"
    by (auto split: sum.splits)
  then show ?case by cases (use s3 Cons.IH in auto)
qed

lemma capture_effects_redo:
  assumes "capture_effects m t nows rs g rd = (res :: (('ae, 'me) RecoveryError, unit) result, rd')"
    "hm_get rd' i = Some snap"
  shows "hm_get rd i = Some snap
    \<or> (\<exists>r \<in> set rs. ar_action_id r = i \<and>
        snapshot_objects m t (nows (ar_action_id r)) (ar_objects_touched r) g
          = (Inr snap :: (('ae, 'me) RecoveryError, 'j snapshot) result))"
  using assms
proof (induction rs arbitrary: rd)
  case Nil
  then show ?case by simp
next
  case (Cons r rs)
  show ?case
  proof (cases "snapshot_objects m t (nows (ar_action_id r)) (ar_objects_touched r) g
      :: (('ae, 'me) RecoveryError, 'j snapshot) result")
    case (Inl e)
    with Cons.prems show ?thesis by simp
  next
    case (Inr post)
    with Cons.prems Cons.IH [of "hm_insert (ar_action_id r) post rd"] show ?thesis
      by (auto split: if_splits)
  qed
qed

lemma undo_shape:
  assumes "undo env inst nows ios m t scope s g
      = Some (res :: (('ae, 'me) RecoveryError, UndoReceipt) result, s', g')"
  shows "journal_shape s' = journal_shape s"
    "hm_get (rv_redo_snapshots s') i = Some snap \<Longrightarrow>
       hm_get (rv_redo_snapshots s) i = Some snap \<or> consistent snap"
proof -
  let ?scoped = "newest_first (filter (\<lambda>a. ar_status a = Committed \<and> in_scope a scope) (rv_actions s))"
  obtain r1 rd where cap: "capture_effects m t nows ?scoped g (rv_redo_snapshots s)
      = (r1 :: (('ae, 'me) RecoveryError, unit) result, rd)" by (meson surj_pair)
  have s': "s' = s \<or> s' = s\<lparr>rv_redo_snapshots := rd\<rparr>
      \<or> s' = s\<lparr>rv_redo_snapshots := rd, rv_actions := mark (map ar_action_id ?scoped) Undone (rv_actions s)\<rparr>"
    using assms cap by (auto simp: undo_def Let_def neq_Inr_unit split: sum.splits if_splits)
  then show "journal_shape s' = journal_shape s" by (auto simp: journal_shape_def mark_ids)
  assume "hm_get (rv_redo_snapshots s') i = Some snap"
  with s' have "hm_get (rv_redo_snapshots s) i = Some snap \<or> hm_get rd i = Some snap" by auto
  with capture_effects_redo [OF cap, of i snap] snapshot_objects_consistent
  show "hm_get (rv_redo_snapshots s) i = Some snap \<or> consistent snap" by blast
qed

lemma redo_shape:
  assumes "redo env inst ios m t scope s g = Some (res, s', g')"
  shows "journal_shape s' = journal_shape s \<and> rv_redo_snapshots s' = rv_redo_snapshots s"
  using assms by (auto simp: redo_def Let_def journal_shape_def mark_ids neq_Inr_unit split: sum.splits if_splits)

lemma fold_hm_remove_get:
  "hm_get (fold hm_remove ks m) k = (if k \<in> set ks then None else hm_get m k)"
  by (induction ks arbitrary: m) auto

lemma fold_hm_remove_keys: "fst ` set (fold hm_remove ks m) = fst ` set m - set ks"
proof (induction ks arbitrary: m)
  case (Cons k ks)
  have "fst ` set (hm_remove k m) = fst ` set m - {k}"
    using arg_cong [OF delete_keys [of k m], of set] by simp
  with Cons show ?case by auto
qed simp

lemma fold_hm_remove_wf: "hm_wf m \<Longrightarrow> hm_wf (fold hm_remove ks m)"
  by (induction ks arbitrary: m) auto

lemma journal_ok_pinned:
  assumes "journal_ok s"
  shows "journal_ok (s\<lparr>rv_points := hm_modify p (rp_pinned_update f) (rv_points s)\<rparr>)"
proof -
  have "rp_id (the (hm_get (hm_modify p (rp_pinned_update f) (rv_points s)) q)) = q"
    if "hm_contains_key (hm_modify p (rp_pinned_update f) (rv_points s)) q" for q
    using assms that by (auto simp: journal_ok_def split: if_splits)
  with assms show ?thesis by (simp add: journal_ok_def hm_modify_keys)
qed

lemma journal_ok_create:
  assumes "journal_ok s" "recovery_point_create m t inst nows trigger objects now g s = (res, s')"
  shows "journal_ok s'"
proof -
  let ?id = "rv_next_point_id s"
  let ?p = "\<lparr>rp_id = ?id, rp_created_at = now, rp_trigger = trigger, rp_pinned = False\<rparr>"
  consider "s' = s" | snap where "consistent snap"
    "s' = s\<lparr>rv_next_point_id := ?id + 1, rv_points := hm_insert ?id ?p (rv_points s),
            rv_snapshots := hm_insert ?id snap (rv_snapshots s)\<rparr>"
    using assms(2) by (auto simp: recovery_point_create_def Let_def dest: snapshot_objects_consistent split: sum.splits)
  then show ?thesis using assms(1) by cases (simp_all add: journal_ok_def dom_update)
qed

lemma journal_ok_started:
  assumes ok: "journal_ok s" and "rv_next_action_id s \<noteq> - 1"
    and "record_action_started_with_scope p objects run_id session_id goal_id note' now s = (i, s')"
  shows "journal_ok s'"
proof -
  have next': "rv_next_action_id s < rv_next_action_id s + 1" using assms(2) by (rule word_less_add_one)
  have below: "x < rv_next_action_id s" if "x \<in> ar_action_id ` set (rv_actions s)" for x
    using ok that by (auto simp: journal_ok_def)
  have "rv_next_action_id s \<notin> ar_action_id ` set (rv_actions s)" using below by blast
  moreover have "x < rv_next_action_id s + 1" if "x \<in> ar_action_id ` set (rv_actions s)" for x
    by (rule order_less_trans [OF below [OF that] next'])
  moreover have "s' = snd (record_action_started_with_scope p objects run_id session_id goal_id note' now s)"
    using assms(3) by simp
  ultimately show ?thesis using ok next'
    by (simp add: record_action_started_with_scope_def Let_def journal_ok_def)
qed

lemma journal_ok_compact:
  assumes "journal_ok s" "recovery_compact now retention s = (k, s')"
  shows "journal_ok s'"
proof -
  obtain ids where "s' = s\<lparr>rv_points := fold hm_remove ids (rv_points s),
      rv_snapshots := fold hm_remove ids (rv_snapshots s)\<rparr>"
    using assms(2) by (auto simp: recovery_compact_def Let_def)
  with assms(1) show ?thesis
    by (simp add: journal_ok_def fold_hm_remove_get fold_hm_remove_wf fold_hm_remove_keys)
qed

lemma restore_to_with_cause_journal:
  assumes "restore_to_with_cause env js mem inst nios m t p subject cause now s g = Some (res, s', g')"
  shows "journal_shape s' = journal_shape s \<and> rv_redo_snapshots s' = rv_redo_snapshots s"
proof -
  from assms obtain x where "s' = s \<or> s' = s\<lparr>rv_memory := x\<rparr>"
    by (auto simp: restore_to_with_cause_def neq_Inr_unit split: sum.splits)
  then show ?thesis by (auto simp: journal_shape_def)
qed

text \<open>The journal is sound in every state the service reaches.\<close>

lemma recovery_step_ok: "recovery_step env js mem ag l s g a s' g' a' \<Longrightarrow> journal_ok s \<Longrightarrow> journal_ok s'"
proof (induction rule: recovery_step.induct)
  case (step_create m t inst nows trigger objects now g s res s' a)
  from step_create(2,1) show ?case by (rule journal_ok_create)
next
  case (step_started s p objects run_id session_id goal_id note' now i s' g a)
  from step_started(3,1,2) show ?case by (rule journal_ok_started)
next
  case (step_committed i s res s' g a)
  from set_status_shape [OF step_committed(1) [unfolded record_action_committed_def]] step_committed(2)
  show ?case by (rule journal_ok_keeps)
next
  case (step_aborted i s res s' g a)
  from set_status_shape [OF step_aborted(1) [unfolded record_action_aborted_def]] step_aborted(2)
  show ?case by (rule journal_ok_keeps)
next
  case (step_expire i s res s' g a)
  from expire_shape [OF step_expire(1)] step_expire(2) show ?case by (rule journal_ok_keeps)
next
  case (step_restore inst nios m t p subject cause now s g res s' g' a)
  from restore_to_with_cause_journal [OF step_restore(1)] step_restore(2) show ?case by (rule journal_ok_keeps)
next
  case (step_recover ios m t s g a res s' g' a')
  from recover_actions_shape [OF step_recover(1) [unfolded recover_from_crash_def]] step_recover(2)
  show ?case by (rule journal_ok_keeps)
next
  case (step_undo inst nows2 ios m t scope s g res2 s' g' a)
  show ?case by (rule journal_ok_shape [OF undo_shape [OF step_undo(1)] step_undo(2)])
next
  case (step_redo inst ios m t scope s g res3 s' g' a)
  from redo_shape [OF step_redo(1)] step_redo(2) show ?case by (rule journal_ok_keeps)
next
  case (step_pin m t inst p s res s' g a)
  from step_pin(1) have "s' = s \<or> s' = s\<lparr>rv_points := hm_modify p (rp_pinned_update (\<lambda>_. True)) (rv_points s)\<rparr>"
    by (auto simp: pin_def split: sum.splits if_splits)
  with journal_ok_pinned [OF step_pin(2), of p "\<lambda>_. True"] step_pin(2) show ?case by (elim disjE) simp_all
next
  case (step_unpin m t inst p s res s' g a)
  from step_unpin(1) have "s' = s \<or> s' = s\<lparr>rv_points := hm_modify p (rp_pinned_update (\<lambda>_. False)) (rv_points s)\<rparr>"
    by (auto simp: unpin_def split: sum.splits if_splits)
  with journal_ok_pinned [OF step_unpin(2), of p "\<lambda>_. False"] step_unpin(2) show ?case by (elim disjE) simp_all
next
  case (step_compact now retention s k s' g a)
  from step_compact(2,1) show ?case by (rule journal_ok_compact)
qed

lemma recovery_run_ok: "recovery_run env js mem ag s g a \<Longrightarrow> journal_ok s"
proof (induction rule: recovery_run.induct)
  case (run_new memory g a)
  show ?case by (simp add: journal_ok_def recovery_new_with_memory_def)
next
  case (run_step s g a l s' g' a')
  from run_step.hyps(2) run_step.IH show ?case by (rule recovery_step_ok)
qed

text \<open>Actions that are over: expired or aborted.  Only a commit recorded for one of them changes that.\<close>

definition over :: "action_id set \<Rightarrow> ('j, 'm) recovery_service \<Rightarrow> bool" where
  "over K s \<longleftrightarrow>
     (\<forall>r \<in> set (rv_actions s). ar_action_id r \<in> K \<longrightarrow> ar_status r = Expired \<or> ar_status r = Aborted)
     \<and> (\<forall>i \<in> K. i < rv_next_action_id s)"

lemma over_update:
  assumes "over K s" "i \<in> K \<Longrightarrow> st = Expired \<or> st = Aborted"
  shows "over K (s\<lparr>rv_actions := update_first (\<lambda>a. ar_action_id a = i) (ar_status_update (\<lambda>_. st)) (rv_actions s)\<rparr>)"
proof -
  have "r \<in> set xs \<or> ar_action_id r = i \<and> ar_status r = st"
    if "r \<in> set (update_first (\<lambda>a. ar_action_id a = i) (ar_status_update (\<lambda>_. st)) xs)" for r xs
    using that by (induction xs) (auto split: if_splits)
  with assms show ?thesis unfolding over_def by fastforce
qed

lemma over_set_status:
  assumes "set_status i st s = (res, s')" "over K s" "i \<in> K \<Longrightarrow> st = Expired \<or> st = Aborted"
  shows "over K s'"
  using assms(1) over_update [OF assms(2,3)] assms(2) by (auto simp: set_status_def split: option.splits)

lemma over_expire: "expire i s = (res, s') \<Longrightarrow> over K s \<Longrightarrow> over K s'"
  using over_update [of K s i Expired] by (auto simp: expire_def split: option.splits if_splits)

lemma over_mark:
  assumes "over K s" "\<forall>r \<in> set rs. r \<in> set (rv_actions s) \<and> ar_status r \<noteq> Expired \<and> ar_status r \<noteq> Aborted"
  shows "over K (s\<lparr>rv_actions := mark (map ar_action_id rs) st (rv_actions s)\<rparr>)"
  using assms by (fastforce simp: over_def mark_def)

lemma over_cong:
  "rv_actions s' = rv_actions s \<Longrightarrow> rv_next_action_id s' = rv_next_action_id s \<Longrightarrow> over K s' = over K s"
  by (simp add: over_def)

lemma over_pinned: "over K s \<Longrightarrow> over K (s\<lparr>rv_points := p\<rparr>)"
  by (simp add: over_def)

lemma over_recover:
  assumes "recover_actions env ag ios m t rs recovered s g a
      = Some (res :: (('ae, 'me) RecoveryError, action_id list) result, s', g', a')" "over K s"
  shows "over K s'"
  using assms
proof (induction rs arbitrary: recovered s g a)
  case Nil
  then show ?case by simp
next
  case (Cons r rs)
  obtain r1 g1 where 1: "restore_objects env (ios (ar_action_id r)) m t (ar_recovery_point_before r)
      (ar_objects_touched r) s g = Some (r1 :: (('ae, 'me) RecoveryError, unit) result, g1)"
    using Cons.prems(1) by (auto simp: bind_eq_Some_conv)
  obtain r2 a2 where 2: "replan_agent ag m t (ar_agent_run_id r) a = (r2 :: (('ae, 'me) RecoveryError, unit) result, a2)"
    by (meson surj_pair)
  obtain r3 s3 where 3: "record_action_aborted (ar_action_id r) s = (r3 :: (('ae, 'me) RecoveryError, unit) result, s3)"
    by (meson surj_pair)
  have s3: "over K s3"
    using over_set_status [OF 3 [unfolded record_action_aborted_def] Cons.prems(2)] by simp
  from Cons.prems 1 2 3 consider "s' = s" | "s' = s3"
    | "recover_actions env ag ios m t rs (recovered @ [ar_action_id r]) s3 g1 a2 = Some (res, s', g', a')"
    by (auto split: sum.splits)
  then show ?case by cases (use s3 Cons in auto)
qed

lemma over_undo:
  assumes "undo env inst nows ios m t scope s g
      = Some (res :: (('ae, 'me) RecoveryError, UndoReceipt) result, s', g')" "over K s"
  shows "over K s'"
proof -
  let ?scoped = "newest_first (filter (\<lambda>a. ar_status a = Committed \<and> in_scope a scope) (rv_actions s))"
  obtain r1 rd where cap: "capture_effects m t nows ?scoped g (rv_redo_snapshots s)
      = (r1 :: (('ae, 'me) RecoveryError, unit) result, rd)" by (meson surj_pair)
  let ?s = "s\<lparr>rv_redo_snapshots := rd\<rparr>"
  have "s' = s \<or> s' = ?s \<or> s' = ?s\<lparr>rv_actions := mark (map ar_action_id ?scoped) Undone (rv_actions ?s)\<rparr>"
    using assms(1) cap by (auto simp: undo_def Let_def neq_Inr_unit split: sum.splits if_splits)
  moreover have "over K ?s" using assms(2) over_cong [of ?s s] by simp
  moreover have "over K (?s\<lparr>rv_actions := mark (map ar_action_id ?scoped) Undone (rv_actions ?s)\<rparr>)"
    by (rule over_mark [OF \<open>over K ?s\<close>]) (simp add: newest_first_def)
  ultimately show ?thesis using assms(2) by (elim disjE) simp_all
qed

lemma over_redo:
  assumes "redo env inst ios m t scope s g
      = Some (res :: (('ae, 'me) RecoveryError, RedoReceipt) result, s', g')" "over K s"
  shows "over K s'"
proof -
  let ?scoped = "sort_key ar_created_at (filter (\<lambda>a. ar_status a = Undone \<and> in_scope a scope) (rv_actions s))"
  have "s' = s \<or> s' = s\<lparr>rv_actions := mark (map ar_action_id ?scoped) Committed (rv_actions s)\<rparr>"
    using assms(1) by (auto simp: redo_def Let_def neq_Inr_unit split: sum.splits if_splits)
  moreover have "over K (s\<lparr>rv_actions := mark (map ar_action_id ?scoped) Committed (rv_actions s)\<rparr>)"
    by (rule over_mark [OF assms(2)]) simp
  ultimately show ?thesis using assms(2) by (elim disjE) simp_all
qed

lemma over_started:
  assumes "record_action_started_with_scope p objects run_id session_id goal_id note' now s = (i, s')"
    "rv_next_action_id s \<noteq> - 1" "over K s"
  shows "over K s'"
proof -
  have s': "set (rv_actions s') \<subseteq> insert (last (rv_actions s')) (set (rv_actions s))"
    "ar_action_id (last (rv_actions s')) = rv_next_action_id s" "rv_next_action_id s' = rv_next_action_id s + 1"
    using assms(1) by (auto simp: record_action_started_with_scope_def Let_def)
  have "x < rv_next_action_id s + 1" if "x < rv_next_action_id s" for x
    by (rule order_less_trans [OF that word_less_add_one [OF assms(2)]])
  with assms(3) s'(3) have "\<forall>i \<in> K. i < rv_next_action_id s'" by (simp add: over_def)
  moreover have "rv_next_action_id s \<notin> K" using assms(3) by (auto simp: over_def)
  with s'(1,2) have "r \<in> set (rv_actions s)" if "r \<in> set (rv_actions s')" "ar_action_id r \<in> K" for r
    using that by auto
  with assms(3) have "\<forall>r \<in> set (rv_actions s'). ar_action_id r \<in> K \<longrightarrow> ar_status r = Expired \<or> ar_status r = Aborted"
    unfolding over_def by (intro ballI impI) blast
  ultimately show ?thesis by (simp add: over_def)
qed

lemma over_step:
  "recovery_step env js mem ag l s g a s' g' a' \<Longrightarrow> over K s \<Longrightarrow> l \<notin> Some ` K \<Longrightarrow> over K s'"
proof (induction rule: recovery_step.induct)
  case (step_create m t inst nows trigger objects now g s res s' a)
  then show ?case
    by (auto simp: recovery_point_create_def Let_def over_def split: sum.splits)
next
  case (step_restore inst nios m t p subject cause now s g res s' g' a)
  then obtain x where "s' = s \<or> s' = s\<lparr>rv_memory := x\<rparr>"
    by (auto simp: restore_to_with_cause_def neq_Inr_unit split: sum.splits)
  with step_restore(2) show ?case by (auto simp: over_def)
next
  case (step_compact now retention s k s' g a)
  then show ?case by (auto simp: recovery_compact_def Let_def over_def)
next
  case (step_recover ios m t s g a res s' g' a')
  then show ?case by (auto simp: recover_from_crash_def intro: over_recover)
next
  case (step_pin m t inst p s res s' g a)
  then show ?case by (auto simp: pin_def over_pinned split: sum.splits if_splits)
next
  case (step_unpin m t inst p s res s' g a)
  then show ?case by (auto simp: unpin_def over_pinned split: sum.splits if_splits)
qed (auto simp: record_action_committed_def record_action_aborted_def
    intro: over_set_status over_expire over_undo over_redo over_started)

lemma over_later: "recovery_later env js mem ag K s g a s' g' a' \<Longrightarrow> over K s \<Longrightarrow> over K s'"
  by (induction rule: recovery_later.induct) (auto intro: over_step)

section \<open>Undo\<close>

lemma mem_newest_first: "set (newest_first rs) = set rs"
  by (simp add: newest_first_def)

text \<open>An undo goes from the newest action to the oldest.\<close>

lemma newest_first_older:
  assumes "newest_first rs = xs @ r # ys" "r' \<in> set xs"
  shows "ar_created_at r \<le> ar_created_at r'"
proof -
  have "sorted (map (\<lambda>a. - uint (ar_created_at a)) (newest_first rs))" by (simp add: newest_first_def)
  with assms show ?thesis by (auto simp: sorted_append word_le_def)
qed

lemma undo_states_append: "undo_states snaps (xs @ ys) i = undo_states snaps xs i @ undo_states snaps ys i"
  by (simp add: undo_states_def)

lemma undo_states_untouched: "(\<And>r. r \<in> set rs \<Longrightarrow> i \<notin> set (ar_objects_touched r)) \<Longrightarrow> undo_states snaps rs i = []"
  by (induction rs) (auto simp: undo_states_def)

lemma states_of_consistent:
  assumes "consistent snap" "hm_get snap i = Some x"
  shows "set (states_of i snap) = {x}"
proof -
  have "(i, x) \<in> set snap" using assms(2) by (rule map_of_SomeD)
  with assms(1) have "\<And>y. (i, y) \<in> set snap \<longleftrightarrow> y = x" unfolding consistent_def by blast
  then show ?thesis by (force simp: states_of_def)
qed

lemma undo_Targeted:
  assumes "undo env inst nows ios m t scope s g
      = Some (Inr (UndoTargeted ids) :: (('ae, 'me) RecoveryError, UndoReceipt) result, s', g')"
  obtains scoped rd where
    "scoped = newest_first (filter (\<lambda>a. ar_status a = Committed \<and> in_scope a scope) (rv_actions s))"
    "scoped \<noteq> []" "ids = map ar_action_id scoped"
    "conflicts (\<lambda>st. st \<noteq> Aborted \<and> st \<noteq> Undone) scoped (rv_actions s) = []"
    "capture_effects m t nows scoped g (rv_redo_snapshots s)
       = (Inr () :: (('ae, 'me) RecoveryError, unit) result, rd)"
    "restore_all env ios m t scoped (s\<lparr>rv_redo_snapshots := rd\<rparr>) g
       = Some (Inr () :: (('ae, 'me) RecoveryError, unit) result, g')"
    "s' = s\<lparr>rv_redo_snapshots := rd, rv_actions := mark ids Undone (rv_actions s)\<rparr>"
proof -
  let ?scoped = "newest_first (filter (\<lambda>a. ar_status a = Committed \<and> in_scope a scope) (rv_actions s))"
  obtain r1 rd where cap: "capture_effects m t nows ?scoped g (rv_redo_snapshots s)
      = (r1 :: (('ae, 'me) RecoveryError, unit) result, rd)" by (meson surj_pair)
  have guards: "?scoped \<noteq> []" "conflicts (\<lambda>st. st \<noteq> Aborted \<and> st \<noteq> Undone) ?scoped (rv_actions s) = []"
    "r1 = Inr ()"
    using assms cap by (auto simp: undo_def Let_def neq_Inr_unit split: sum.splits if_splits)
  let ?s = "s\<lparr>rv_redo_snapshots := rd\<rparr>"
  have auth: "recovery_require m t inst WRITE = (Inr () :: (('ae, 'me) RecoveryError, unit) result)"
    using assms by (cases "recovery_require m t inst WRITE :: (('ae, 'me) RecoveryError, unit) result")
      (simp_all add: undo_def)
  from assms have eq: "map_option (\<lambda>(res :: (('ae, 'me) RecoveryError, unit) result, g).
      case res of
        Inl e \<Rightarrow> (Inl e, ?s, g)
      | Inr _ \<Rightarrow> (Inr (UndoTargeted (map ar_action_id ?scoped)),
          ?s\<lparr>rv_actions := mark (map ar_action_id ?scoped) Undone (rv_actions ?s)\<rparr>, g))
      (restore_all env ios m t ?scoped ?s g) = Some (Inr (UndoTargeted ids), s', g')"
    unfolding undo_def auth Let_def using guards(1,2) cap guards(3) by simp
  then obtain r2 g2 where 2: "restore_all env ios m t ?scoped ?s g
      = Some (r2 :: (('ae, 'me) RecoveryError, unit) result, g2)" by auto
  with eq have r2: "r2 = Inr ()" "g2 = g'" "ids = map ar_action_id ?scoped"
    "s' = s\<lparr>rv_redo_snapshots := rd, rv_actions := mark ids Undone (rv_actions s)\<rparr>"
    by (cases r2; simp)+
  show ?thesis by (rule that [OF refl guards(1) r2(3) guards(2) cap [unfolded guards(3)] 2 [unfolded r2(1,2)] r2(4)])
qed

lemma undo_view:
  assumes "undo env inst nows ios m t scope s g
      = Some (Inr (UndoTargeted ids) :: (('ae, 'me) RecoveryError, UndoReceipt) result, s', g')"
  shows "view (ct_origin t) g' i = fold restore_step
    (undo_states (rv_snapshots s) (newest_first (filter (\<lambda>a. ar_status a = Committed \<and> in_scope a scope) (rv_actions s))) i)
    (view (ct_origin t) g i)"
proof -
  from assms obtain scoped rd where
    "scoped = newest_first (filter (\<lambda>a. ar_status a = Committed \<and> in_scope a scope) (rv_actions s))"
    and "restore_all env ios m t scoped (s\<lparr>rv_redo_snapshots := rd\<rparr>) g
       = Some (Inr () :: (('ae, 'me) RecoveryError, unit) result, g')" by (rule undo_Targeted)
  from restore_all_view [OF this(2), of i] this(1) show ?thesis by simp
qed

lemma undo_states_last:
  assumes "i \<in> set (ar_objects_touched r)" "\<forall>y \<in> set ys. i \<notin> set (ar_objects_touched y)"
    and "hm_get snaps (ar_recovery_point_before r) = Some snap" "hm_get snap i = Some before" "consistent snap"
  shows "undo_states snaps (xs @ r # ys) i \<noteq> [] \<and> last (undo_states snaps (xs @ r # ys) i) = before
    \<and> (None \<in> set (butlast (undo_states snaps (xs @ r # ys) i)) \<longrightarrow> before = None \<or> None \<in> set (undo_states snaps xs i))"
proof -
  have st: "set (states_of i snap) = {before}" by (rule states_of_consistent [OF assms(5,4)])
  then have ne: "states_of i snap \<noteq> []" by auto
  have eq: "undo_states snaps (xs @ r # ys) i = undo_states snaps xs i @ states_of i snap"
    using undo_states_untouched [of ys i snaps] assms(1-3) by (simp add: undo_states_append) (simp add: undo_states_def)
  have "before = None" if "None \<in> set (butlast (states_of i snap))"
    using in_set_butlastD [OF that] st by simp
  with ne st last_in_set [OF ne] show ?thesis by (auto simp: eq butlast_append split: if_splits)
qed

text \<open>
  Claim C31: undo puts a node back to where it was before the scope first touched it.  Take any
  reachable journal, an undo that reports success, and of the scope's committed actions on a node the
  one the undo comes to last.  No action of the scope on that node is older than that one (among
  actions created at the same time it is the last in the journal).  The node's type,
  embedding and metadata are afterwards shown as that action's recovery point holds them, or the node
  is not shown if it did not exist then; with two exceptions.  A node that is deleted at the time of
  the undo stays unseen; and a node that a newer action of the scope found missing may be unseen,
  since the undo deletes it on the way.  A node that no action of the scope touched is shown as before.
  Exactly the scope's committed actions change their status, to undone.
\<close>

theorem undo_restores:
  assumes "recovery_run env js mem ag s g a"
    and "undo env inst nows ios m t scope s g
      = Some (Inr (UndoTargeted ids) :: (('ae, 'me) RecoveryError, UndoReceipt) result, s', g')"
    and scoped: "scoped = filter (\<lambda>a. ar_status a = Committed \<and> in_scope a scope) (rv_actions s)"
    and r: "newest_first scoped = newer @ r # rest" "i \<in> set (ar_objects_touched r)"
      "\<forall>r' \<in> set rest. i \<notin> set (ar_objects_touched r')"
    and snap: "hm_get (rv_snapshots s) (ar_recovery_point_before r) = Some snap" "hm_get snap i = Some before"
  shows "(\<forall>r' \<in> set scoped. i \<in> set (ar_objects_touched r') \<longrightarrow> ar_created_at r \<le> ar_created_at r')
    \<and> (shown (ct_origin t) g' i = (if buried g i then None else map_option content before)
        \<or> shown (ct_origin t) g' i = None \<and> None \<in> set (undo_states (rv_snapshots s) newer i))
    \<and> (\<forall>j. (\<forall>r \<in> set scoped. j \<notin> set (ar_objects_touched r)) \<longrightarrow> shown (ct_origin t) g' j = shown (ct_origin t) g j)
    \<and> rv_actions s' = map (\<lambda>a. if a \<in> set scoped then a\<lparr>ar_status := Undone\<rparr> else a) (rv_actions s)"
proof -
  have ok: "journal_ok s" by (rule recovery_run_ok [OF assms(1)])
  have shown: "shown (ct_origin t) g' j = fst (fold restore_step (undo_states (rv_snapshots s) (newest_first scoped) j)
      (view (ct_origin t) g j))" for j
    using arg_cong [OF undo_view [OF assms(2), of j], of fst] by (simp add: scoped)
  have "ar_created_at r \<le> ar_created_at r'" if "r' \<in> set scoped" "i \<in> set (ar_objects_touched r')" for r'
  proof -
    from that(1) have "r' \<in> set (newest_first scoped)" by (simp add: mem_newest_first)
    with that(2) r(1,3) have "r' = r \<or> r' \<in> set newer" by auto
    then show ?thesis using newest_first_older [OF r(1)] by blast
  qed
  moreover have "shown (ct_origin t) g' i = (if buried g i then None else map_option content before)
        \<or> shown (ct_origin t) g' i = None \<and> None \<in> set (undo_states (rv_snapshots s) newer i)"
  proof -
    have "consistent snap" using ok snap(1) by (simp add: journal_ok_def)
    note last = undo_states_last [OF r(2,3) snap this, of newer]
    have "snd (view (ct_origin t) g i) \<Longrightarrow> fst (view (ct_origin t) g i) = None" by (simp add: buried_unseen)
    from fold_restore_outcome [OF last [THEN conjunct1] last [THEN conjunct2, THEN conjunct1] this]
    show ?thesis using shown [of i] last by (auto simp: r(1))
  qed
  moreover have "shown (ct_origin t) g' j = shown (ct_origin t) g j" if "\<forall>r \<in> set scoped. j \<notin> set (ar_objects_touched r)" for j
  proof -
    have "undo_states (rv_snapshots s) (newest_first scoped) j = []"
      by (rule undo_states_untouched) (use that in \<open>simp add: mem_newest_first\<close>)
    with shown [of j] show ?thesis by simp
  qed
  moreover have "rv_actions s' = map (\<lambda>a. if a \<in> set scoped then a\<lparr>ar_status := Undone\<rparr> else a) (rv_actions s)"
  proof -
    from assms(2) have "rv_actions s' = mark (map ar_action_id (newest_first scoped)) Undone (rv_actions s)"
      by (rule undo_Targeted) (simp add: scoped)
    moreover have "ar_action_id a \<in> ar_action_id ` set scoped \<longleftrightarrow> a \<in> set scoped" if "a \<in> set (rv_actions s)" for a
    proof
      assume "ar_action_id a \<in> ar_action_id ` set scoped"
      then obtain b where "b \<in> set scoped" "ar_action_id a = ar_action_id b" by blast
      moreover have "inj_on ar_action_id (set (rv_actions s))" using ok by (simp add: journal_ok_def distinct_map)
      ultimately have "a = b" using that by (simp add: scoped inj_onD)
      with \<open>b \<in> set scoped\<close> show "a \<in> set scoped" by simp
    qed simp
    ultimately show ?thesis by (simp add: mark_def mem_newest_first)
  qed
  ultimately show ?thesis by blast
qed

section \<open>Redo\<close>

text \<open>The states a redo writes to a node.\<close>

definition redo_states :: "(action_id, 'j snapshot) hashmap \<Rightarrow> action_record list \<Rightarrow> node_id \<Rightarrow> 'j node_record option list" where
  "redo_states snaps rs i = concat (map (\<lambda>r.
     if i \<in> set (ar_objects_touched r)
     then (case hm_get snaps (ar_action_id r) of None \<Rightarrow> [] | Some snap \<Rightarrow> states_of i snap)
     else []) rs)"

lemma reapply_all_view:
  assumes "reapply_all env ios m t rs s g = Some (Inr x :: (('ae, 'me) RecoveryError, unit) result, g')"
  shows "view (ct_origin t) g' i = fold restore_step (redo_states (rv_redo_snapshots s) rs i) (view (ct_origin t) g i)"
  using assms
proof (induction rs arbitrary: g)
  case Nil
  then show ?case by (simp add: redo_states_def)
next
  case (Cons r rs)
  then obtain snap where snap: "hm_get (rv_redo_snapshots s) (ar_action_id r) = Some snap" by (auto split: option.splits)
  with Cons.prems obtain y g1 where 1:
    "apply_snapshot env (ios (ar_action_id r)) m t snap (ar_objects_touched r) g
      = Some (Inr y :: (('ae, 'me) RecoveryError, unit) result, g1)"
    "reapply_all env ios m t rs s g1 = Some (Inr x :: (('ae, 'me) RecoveryError, unit) result, g')"
    by (auto simp: bind_eq_Some_conv)
  from Cons.IH [OF 1(2)] apply_snapshot_view [OF 1(1), of i] snap show ?case
    by (simp add: redo_states_def)
qed

text \<open>An undo keeps, for each of its actions, what it found of the nodes the action touched.\<close>

lemma capture_effects_captured:
  assumes "capture_effects m t nows rs g rd = (Inr () :: (('ae, 'me) RecoveryError, unit) result, rd')"
    "r \<in> set rs" "distinct (map ar_action_id rs)"
  shows "\<exists>snap. hm_get rd' (ar_action_id r) = Some snap
    \<and> snapshot_objects m t (nows (ar_action_id r)) (ar_objects_touched r) g
      = (Inr snap :: (('ae, 'me) RecoveryError, 'j snapshot) result)"
  using assms
proof (induction rs arbitrary: rd)
  case Nil
  then show ?case by simp
next
  case (Cons q rs)
  obtain post where post: "snapshot_objects m t (nows (ar_action_id q)) (ar_objects_touched q) g
      = (Inr post :: (('ae, 'me) RecoveryError, 'j snapshot) result)"
    using Cons.prems(1) by (cases "snapshot_objects m t (nows (ar_action_id q)) (ar_objects_touched q) g
      :: (('ae, 'me) RecoveryError, 'j snapshot) result") simp_all
  with Cons.prems(1) have rest: "capture_effects m t nows rs g (hm_insert (ar_action_id q) post rd)
      = (Inr () :: (('ae, 'me) RecoveryError, unit) result, rd')" by simp
  show ?case
  proof (cases "r \<in> set rs")
    case True
    with Cons.IH [OF rest] Cons.prems(3) show ?thesis by simp
  next
    case False
    with Cons.prems(2) have "r = q" by simp
    have keep: "hm_get rd' k = hm_get rd0 k"
      if "capture_effects m t nows qs g rd0 = (Inr () :: (('ae, 'me) RecoveryError, unit) result, rd')"
        "k \<notin> ar_action_id ` set qs" for qs rd0 k
      using that
    proof (induction qs arbitrary: rd0)
      case (Cons q' qs)
      then show ?case
        by (cases "snapshot_objects m t (nows (ar_action_id q')) (ar_objects_touched q') g
            :: (('ae, 'me) RecoveryError, 'j snapshot) result") auto
    qed simp
    from keep [OF rest, of "ar_action_id q"] Cons.prems(3) post \<open>r = q\<close> show ?thesis by simp
  qed
qed

lemma redo_Inr:
  assumes "redo env inst ios m t scope s g
      = Some (Inr receipt :: (('ae, 'me) RecoveryError, RedoReceipt) result, s', g')"
    and scoped: "scoped = sort_key ar_created_at (filter (\<lambda>a. ar_status a = Undone \<and> in_scope a scope) (rv_actions s))"
    and "scoped \<noteq> []" "conflicts (\<lambda>st. st = Committed) scoped (rv_actions s) = []"
  shows "receipt = RedoTargeted (map ar_action_id scoped)"
    "s' = s\<lparr>rv_actions := mark (map ar_action_id scoped) Committed (rv_actions s)\<rparr>"
    "reapply_all env ios m t scoped s g = Some (Inr () :: (('ae, 'me) RecoveryError, unit) result, g')"
proof -
  have auth: "recovery_require m t inst WRITE = (Inr () :: (('ae, 'me) RecoveryError, unit) result)"
    using assms(1) by (cases "recovery_require m t inst WRITE :: (('ae, 'me) RecoveryError, unit) result")
      (simp_all add: redo_def)
  from assms(1) have eq: "map_option (\<lambda>(res :: (('ae, 'me) RecoveryError, unit) result, g).
      case res of
        Inl e \<Rightarrow> (Inl e, s, g)
      | Inr _ \<Rightarrow> (Inr (RedoTargeted (map ar_action_id scoped)),
          s\<lparr>rv_actions := mark (map ar_action_id scoped) Committed (rv_actions s)\<rparr>, g))
      (reapply_all env ios m t scoped s g) = Some (Inr receipt, s', g')"
    unfolding redo_def auth Let_def scoped [symmetric] using assms(3,4) by simp
  then obtain r2 g2 where 2: "reapply_all env ios m t scoped s g
      = Some (r2 :: (('ae, 'me) RecoveryError, unit) result, g2)" by auto
  with eq show "receipt = RedoTargeted (map ar_action_id scoped)"
    "s' = s\<lparr>rv_actions := mark (map ar_action_id scoped) Committed (rv_actions s)\<rparr>"
    "reapply_all env ios m t scoped s g = Some (Inr () :: (('ae, 'me) RecoveryError, unit) result, g')"
    by (cases r2; simp)+
qed

lemma conflicts_Nil:
  assumes "scope \<noteq> []"
  shows "conflicts live scope all = [] \<longleftrightarrow>
    (\<forall>a \<in> set all. ar_action_id a \<notin> ar_action_id ` set scope \<longrightarrow> live (ar_status a)
       \<longrightarrow> Min (ar_created_at ` set scope) \<le> ar_created_at a
       \<longrightarrow> (\<forall>i \<in> set (ar_objects_touched a). \<forall>r \<in> set scope. i \<notin> set (ar_objects_touched r)))"
proof -
  have "min_list (map ar_created_at scope) = Min (ar_created_at ` set scope)"
    using assms by (simp add: min_list_Min)
  then show ?thesis by (simp add: conflicts_def Let_def filter_empty_conv) blast
qed

lemma in_scope_status [simp]: "in_scope (r\<lparr>ar_status := st\<rparr>) scope = in_scope r scope"
  by (cases scope) simp_all

text \<open>The journal after an undo of the actions in scope.\<close>

lemma marked_undone:
  assumes ok: "journal_ok s" and none: "\<forall>r \<in> set (rv_actions s). in_scope r scope \<longrightarrow> ar_status r \<noteq> Undone"
    and scoped: "scoped = filter (\<lambda>a. ar_status a = Committed \<and> in_scope a scope) (rv_actions s)"
    and ids: "set ids = ar_action_id ` set scoped"
  shows "filter (\<lambda>a. ar_status a = Undone \<and> in_scope a scope) (mark ids Undone (rv_actions s))
      = map (ar_status_update (\<lambda>_. Undone)) scoped"
    "mark ids Committed (mark ids Undone (rv_actions s)) = rv_actions s"
    "b \<in> set (mark ids Undone (rv_actions s)) \<Longrightarrow> ar_action_id b \<notin> set ids \<Longrightarrow> b \<in> set (rv_actions s)"
proof -
  have iff: "ar_action_id a \<in> set ids \<longleftrightarrow> ar_status a = Committed \<and> in_scope a scope" if "a \<in> set (rv_actions s)" for a
  proof
    assume "ar_action_id a \<in> set ids"
    then obtain b where "b \<in> set scoped" "ar_action_id a = ar_action_id b" using ids by auto
    moreover have "inj_on ar_action_id (set (rv_actions s))" using ok by (simp add: journal_ok_def distinct_map)
    ultimately have "a = b" using that by (simp add: scoped inj_onD)
    with \<open>b \<in> set scoped\<close> show "ar_status a = Committed \<and> in_scope a scope" by (simp add: scoped)
  qed (use that ids scoped in auto)
  have "filter (\<lambda>a. ar_status a = Undone \<and> in_scope a scope) (mark ids Undone xs)
      = map (ar_status_update (\<lambda>_. Undone)) (filter (\<lambda>a. ar_status a = Committed \<and> in_scope a scope) xs)"
    if "set xs \<subseteq> set (rv_actions s)" for xs
    using that iff none by (induction xs) (auto simp: mark_def)
  then show "filter (\<lambda>a. ar_status a = Undone \<and> in_scope a scope) (mark ids Undone (rv_actions s))
      = map (ar_status_update (\<lambda>_. Undone)) scoped" by (simp add: scoped)
  show "mark ids Committed (mark ids Undone (rv_actions s)) = rv_actions s"
    unfolding mark_def map_map by (rule map_idI) (use iff in auto)
  show "b \<in> set (mark ids Undone (rv_actions s)) \<Longrightarrow> ar_action_id b \<notin> set ids \<Longrightarrow> b \<in> set (rv_actions s)"
    by (auto simp: mark_def split: if_splits)
qed

lemma redo_states_captured:
  assumes "\<And>r. r \<in> set rs \<Longrightarrow> i \<in> set (ar_objects_touched r) \<Longrightarrow>
      \<exists>snap. hm_get snaps (ar_action_id r) = Some snap \<and> map fst snap = ar_objects_touched r
        \<and> (\<forall>x. (i, x) \<in> set snap \<longrightarrow> map_option content x = v)"
  shows "x \<in> set (redo_states snaps rs i) \<Longrightarrow> map_option content x = v"
    "r \<in> set rs \<Longrightarrow> i \<in> set (ar_objects_touched r) \<Longrightarrow> redo_states snaps rs i \<noteq> []"
proof -
  show "map_option content x = v" if "x \<in> set (redo_states snaps rs i)"
  proof -
    from that obtain r where r: "r \<in> set rs" "i \<in> set (ar_objects_touched r)"
      "x \<in> set (case hm_get snaps (ar_action_id r) of None \<Rightarrow> [] | Some snap \<Rightarrow> states_of i snap)"
      by (auto simp: redo_states_def split: if_splits)
    then obtain snap where "hm_get snaps (ar_action_id r) = Some snap" "(i, x) \<in> set snap"
      by (cases "hm_get snaps (ar_action_id r)") (auto simp: states_of_def)
    with assms [OF r(1,2)] show ?thesis by auto
  qed
  show "redo_states snaps rs i \<noteq> []" if r: "r \<in> set rs" "i \<in> set (ar_objects_touched r)"
  proof -
    from assms [OF r] obtain snap where snap: "hm_get snaps (ar_action_id r) = Some snap"
      "map fst snap = ar_objects_touched r" by blast
    with r(2) have "i \<in> fst ` set snap" by (metis list.set_map)
    then have "states_of i snap \<noteq> []" by (auto simp: states_of_def filter_empty_conv)
    moreover obtain as bs where "rs = as @ r # bs" using split_list [OF r(1)] by blast
    ultimately show ?thesis using r snap by (simp add: redo_states_def)
  qed
qed

text \<open>
  Claim C32: redo takes an undo back.  Undo, with success, a scope none of whose actions was undone
  already, and let redo of the same scope, by any token of the same boundary and with nothing else
  happening in between, return without an error.  Then it never asks for confirmation: it reports the
  same actions, and the journal has every status it had before the undo.  Every node's type, embedding
  and metadata are shown to the boundary as before the undo, except for a node that the undo deleted,
  which redo cannot bring back.  (Had an action of the scope been undone earlier, the redo would commit
  that one too.)
\<close>

theorem undo_redo_roundtrip:
  assumes "recovery_run env js mem ag s g a"
    and u: "undo env inst nows ios m t scope s g
      = Some (Inr (UndoTargeted ids) :: (('ae, 'me) RecoveryError, UndoReceipt) result, s1, g1)"
    and none: "\<forall>r \<in> set (rv_actions s). in_scope r scope \<longrightarrow> ar_status r \<noteq> Undone"
    and r: "redo env inst' ios' m' t' scope s1 g1
      = Some (Inr receipt :: (('ae, 'me) RecoveryError, RedoReceipt) result, s2, g2)"
    and "ct_origin t' = ct_origin t"
  shows "(\<exists>ids'. receipt = RedoTargeted ids' \<and> set ids' = set ids) \<and> rv_actions s2 = rv_actions s
    \<and> (shown (ct_origin t) g1 i \<noteq> None \<or> shown (ct_origin t) g i = None
        \<longrightarrow> shown (ct_origin t) g2 i = shown (ct_origin t) g i)"
proof -
  have ok: "journal_ok s" by (rule recovery_run_ok [OF assms(1)])
  define scoped where "scoped = filter (\<lambda>a. ar_status a = Committed \<and> in_scope a scope) (rv_actions s)"
  obtain rd where ne: "newest_first scoped \<noteq> []" and ids: "ids = map ar_action_id (newest_first scoped)"
    and quiet: "conflicts (\<lambda>st. st \<noteq> Aborted \<and> st \<noteq> Undone) (newest_first scoped) (rv_actions s) = []"
    and cap: "capture_effects m t nows (newest_first scoped) g (rv_redo_snapshots s)
       = (Inr () :: (('ae, 'me) RecoveryError, unit) result, rd)"
    and s1: "s1 = s\<lparr>rv_redo_snapshots := rd, rv_actions := mark ids Undone (rv_actions s)\<rparr>"
    using u unfolding scoped_def by (rule undo_Targeted) blast
  have set_ids: "set ids = ar_action_id ` set scoped" by (simp add: ids mem_newest_first)
  note marked = marked_undone [OF ok none scoped_def set_ids]
  let ?scoped = "sort_key ar_created_at (map (ar_status_update (\<lambda>_. Undone)) scoped)"
  have scoped1: "?scoped = sort_key ar_created_at (filter (\<lambda>a. ar_status a = Undone \<and> in_scope a scope) (rv_actions s1))"
    by (simp add: s1 marked(1))
  have mem: "set ?scoped = ar_status_update (\<lambda>_. Undone) ` set scoped" by simp
  have "scoped \<noteq> []" using ne by (auto simp: newest_first_def)
  then have ne1: "?scoped \<noteq> []" by (metis mem image_is_empty set_empty)
  have same: "ar_action_id ` set ?scoped = set ids" "ar_created_at ` set ?scoped = ar_created_at ` set scoped"
    by (simp_all add: mem set_ids image_image)
  have "conflicts (\<lambda>st. st = Committed) ?scoped (rv_actions s1) = []"
    unfolding conflicts_Nil [OF ne1] same
  proof (intro ballI impI)
    fix b j q
    assume b: "b \<in> set (rv_actions s1)" "ar_action_id b \<notin> set ids" "ar_status b = Committed"
      "Min (ar_created_at ` set scoped) \<le> ar_created_at b" "j \<in> set (ar_objects_touched b)" "q \<in> set ?scoped"
    then have "b \<in> set (rv_actions s)" using marked(3) by (simp add: s1)
    with b quiet [unfolded conflicts_Nil [OF ne] mem_newest_first set_ids [symmetric]]
    show "j \<notin> set (ar_objects_touched q)" by auto
  qed
  note redone = redo_Inr [OF r scoped1 ne1 this]
  have dist: "distinct (map ar_action_id (newest_first scoped))"
  proof -
    have "distinct (map ar_action_id scoped)" using ok by (simp add: journal_ok_def scoped_def distinct_map_filter)
    then show ?thesis by (simp add: distinct_map newest_first_def)
  qed
  have captured: "\<exists>snap. hm_get rd (ar_action_id q) = Some snap \<and> map fst snap = ar_objects_touched q
      \<and> (\<forall>x. (j, x) \<in> set snap \<longrightarrow> map_option content x = shown (ct_origin t) g j)" if "q \<in> set ?scoped" for q j
  proof -
    from that obtain p where p: "p \<in> set (newest_first scoped)" "ar_action_id q = ar_action_id p"
      "ar_objects_touched q = ar_objects_touched p" by (auto simp: mem_newest_first)
    from capture_effects_captured [OF cap p(1) dist] p(2,3) snapshot_objects_Inr(1,2) show ?thesis by fastforce
  qed
  have "shown (ct_origin t) g2 i = shown (ct_origin t) g i"
    if keep: "shown (ct_origin t) g1 i \<noteq> None \<or> shown (ct_origin t) g i = None"
  proof -
    let ?sts = "redo_states rd ?scoped i"
    have g2: "shown (ct_origin t) g2 i = fst (fold restore_step ?sts (view (ct_origin t) g1 i))"
      using arg_cong [OF reapply_all_view [OF redone(3), of i], of fst] assms(5) s1 by simp
    have sts: "map_option content x = shown (ct_origin t) g i" if "x \<in> set ?sts" for x
      by (rule redo_states_captured(1) [OF captured that])
    show ?thesis
    proof (cases "\<exists>q \<in> set ?scoped. i \<in> set (ar_objects_touched q)")
      case True
      then obtain q where "q \<in> set ?scoped" "i \<in> set (ar_objects_touched q)" by blast
      from redo_states_captured(2) [OF captured this] have ne: "?sts \<noteq> []" .
      show ?thesis
      proof (cases "shown (ct_origin t) g i")
        case None
        with sts [OF last_in_set [OF ne]] have "last ?sts = None" by simp
        with None g2 fold_restore_last(1) [OF ne] show ?thesis by simp
      next
        case (Some c)
        then have "None \<notin> set ?sts" using sts by force
        moreover have "\<not> buried g1 i" using keep Some by (auto simp: shown_def buried_def split: option.splits if_splits)
        ultimately show ?thesis
          using g2 fold_restore_last(3) [OF ne] sts [OF last_in_set [OF ne]] by simp
      qed
    next
      case False
      then have "?sts = []" by (auto simp: redo_states_def)
      moreover have "undo_states (rv_snapshots s) (newest_first scoped) i = []"
        by (rule undo_states_untouched) (use False in \<open>auto simp: mem_newest_first\<close>)
      ultimately show ?thesis using g2 arg_cong [OF undo_view [OF u, of i], of fst] by (simp add: scoped_def)
    qed
  qed
  moreover have "receipt = RedoTargeted (map ar_action_id ?scoped)" by (rule redone(1))
  moreover have "set (map ar_action_id ?scoped) = set ids" by (simp add: set_ids image_image)
  moreover have "rv_actions s2 = rv_actions s"
  proof -
    have "mark (map ar_action_id ?scoped) st rs = mark ids st rs" for st rs
      using same(1) by (simp add: mark_def)
    then show ?thesis using redone(2) marked(2) by (simp add: s1)
  qed
  ultimately show ?thesis by blast
qed

section \<open>Crash recovery\<close>

lemma update_first_mark:
  "distinct (map ar_action_id rs) \<Longrightarrow>
     update_first (\<lambda>a. ar_action_id a = i) (ar_status_update (\<lambda>_. st)) rs = mark [i] st rs"
proof (induction rs)
  case (Cons r rs)
  have "mark [i] st rs = rs" if "i \<notin> ar_action_id ` set rs"
    unfolding mark_def by (rule map_idI) (use that in auto)
  with Cons show ?case by (auto simp: mark_def)
qed (simp add: mark_def)

lemma mark_Cons: "mark (i # is') st rs = mark is' st (mark [i] st rs)"
  by (simp add: mark_def)

lemma record_action_aborted_eq:
  assumes "distinct (map ar_action_id (rv_actions s))" "i \<in> ar_action_id ` set (rv_actions s)"
  shows "record_action_aborted i s = (Inr (), s\<lparr>rv_actions := mark [i] Aborted (rv_actions s)\<rparr>)"
proof -
  from assms(2) have "find (\<lambda>a. ar_action_id a = i) (rv_actions s) \<noteq> None" by (auto simp: find_None_iff)
  with assms(1) show ?thesis
    by (auto simp: record_action_aborted_def set_status_def update_first_mark)
qed

lemma recover_actions_Inr:
  assumes "recover_actions env ag ios m t rs recovered s g a
      = Some (Inr ids :: (('ae, 'me) RecoveryError, action_id list) result, s', g', a')"
    "distinct (map ar_action_id (rv_actions s))" "ar_action_id ` set rs \<subseteq> ar_action_id ` set (rv_actions s)"
  shows "ids = recovered @ map ar_action_id rs
    \<and> s' = s\<lparr>rv_actions := mark (map ar_action_id rs) Aborted (rv_actions s)\<rparr>
    \<and> view (ct_origin t) g' i = fold restore_step (undo_states (rv_snapshots s) rs i) (view (ct_origin t) g i)"
  using assms
proof (induction rs arbitrary: recovered s g a)
  case Nil
  then show ?case by (simp add: undo_states_def mark_def)
next
  case (Cons r rs)
  let ?s = "s\<lparr>rv_actions := mark [ar_action_id r] Aborted (rv_actions s)\<rparr>"
  obtain r1 g1 where 1: "restore_objects env (ios (ar_action_id r)) m t (ar_recovery_point_before r)
      (ar_objects_touched r) s g = Some (r1 :: (('ae, 'me) RecoveryError, unit) result, g1)"
    using Cons.prems(1) by (auto simp: bind_eq_Some_conv)
  obtain r2 a2 where 2: "replan_agent ag m t (ar_agent_run_id r) a = (r2 :: (('ae, 'me) RecoveryError, unit) result, a2)"
    by (meson surj_pair)
  have abort: "record_action_aborted (ar_action_id r) s = (Inr () :: (('ae, 'me) RecoveryError, unit) result, ?s)"
    using Cons.prems(2,3) by (intro record_action_aborted_eq) auto
  from Cons.prems(1) 1 2 abort have r12: "r1 = Inr ()" "r2 = Inr ()"
    and rest: "recover_actions env ag ios m t rs (recovered @ [ar_action_id r]) ?s g1 a2
      = Some (Inr ids :: (('ae, 'me) RecoveryError, action_id list) result, s', g', a')"
    by (cases r1; cases r2; simp)+
  obtain snap where snap: "hm_get (rv_snapshots s) (ar_recovery_point_before r) = Some snap"
    "apply_snapshot env (ios (ar_action_id r)) m t snap (ar_objects_touched r) g
      = Some (Inr () :: (('ae, 'me) RecoveryError, unit) result, g1)"
    using 1 r12 by (auto simp: restore_objects_def split: option.splits)
  have ids: "ar_action_id ` set (rv_actions ?s) = ar_action_id ` set (rv_actions s)"
    using arg_cong [OF mark_ids [of "[ar_action_id r]" Aborted "rv_actions s"], of set] by simp
  have dist: "distinct (map ar_action_id (rv_actions ?s))" using Cons.prems(2) by (simp add: mark_ids)
  have "ar_action_id ` set rs \<subseteq> ar_action_id ` set (rv_actions ?s)" using Cons.prems(3) ids by simp
  note ih = Cons.IH [OF rest dist this]
  have "undo_states (rv_snapshots s) (r # rs) i
      = (if i \<in> set (ar_objects_touched r) then states_of i snap else []) @ undo_states (rv_snapshots s) rs i"
    using snap(1) by (simp add: undo_states_def)
  with ih apply_snapshot_view [OF snap(2), of i] show ?case
    by (simp add: mark_Cons [of "ar_action_id r" "map ar_action_id rs"])
qed

text \<open>
  Claim C33: recovery from a crash closes every open action.  When it returns without an error, it
  reports the actions that were in flight, in the order of the journal, they are aborted and no
  other action has changed.  Take the last action in flight, in the order of the journal, that touched
  a node: the node's type, embedding and metadata are shown as that action's recovery point holds
  them, or the node is not shown if it did not exist then; with two exceptions.  A node that is
  deleted at the time stays unseen; and a node that an earlier action in flight found missing may be
  unseen, since the recovery of that action deletes it.
\<close>

theorem recover_from_crash_closes:
  assumes "recovery_run env js mem ag s g a"
    and "recover_from_crash env ag ios m t s g a
      = Some (Inr ids :: (('ae, 'me) RecoveryError, action_id list) result, s', g', a')"
    and "filter (\<lambda>r. ar_status r = InFlight) (rv_actions s) = earlier @ r # rest"
    and "i \<in> set (ar_objects_touched r)" "\<forall>y \<in> set rest. i \<notin> set (ar_objects_touched y)"
    and "hm_get (rv_snapshots s) (ar_recovery_point_before r) = Some snap" "hm_get snap i = Some before"
  shows "ids = map ar_action_id (filter (\<lambda>r. ar_status r = InFlight) (rv_actions s))
    \<and> rv_actions s' = map (\<lambda>r. if ar_status r = InFlight then r\<lparr>ar_status := Aborted\<rparr> else r) (rv_actions s)
    \<and> (shown (ct_origin t) g' i = (if buried g i then None else map_option content before)
        \<or> shown (ct_origin t) g' i = None \<and> None \<in> set (undo_states (rv_snapshots s) earlier i))"
proof -
  have ok: "journal_ok s" by (rule recovery_run_ok [OF assms(1)])
  then have dist: "distinct (map ar_action_id (rv_actions s))" by (simp add: journal_ok_def)
  let ?rs = "filter (\<lambda>r. ar_status r = InFlight) (rv_actions s)"
  note done' = recover_actions_Inr [OF assms(2) [unfolded recover_from_crash_def] dist, of i]
  have "ar_action_id ` set ?rs \<subseteq> ar_action_id ` set (rv_actions s)" by auto
  note d = done' [OF this]
  have "mark (map ar_action_id ?rs) Aborted (rv_actions s)
      = map (\<lambda>r. if ar_status r = InFlight then r\<lparr>ar_status := Aborted\<rparr> else r) (rv_actions s)"
  proof -
    have "ar_action_id b \<in> ar_action_id ` set ?rs \<longleftrightarrow> ar_status b = InFlight" if "b \<in> set (rv_actions s)" for b
    proof
      assume "ar_action_id b \<in> ar_action_id ` set ?rs"
      then obtain c where c: "c \<in> set ?rs" "ar_action_id b = ar_action_id c" by blast
      moreover have "inj_on ar_action_id (set (rv_actions s))" using dist by (simp add: distinct_map)
      ultimately have "b = c" using that by (simp add: inj_onD)
      with c(1) show "ar_status b = InFlight" by simp
    qed (use that in auto)
    then show ?thesis by (simp add: mark_def)
  qed
  moreover have "shown (ct_origin t) g' i = (if buried g i then None else map_option content before)
        \<or> shown (ct_origin t) g' i = None \<and> None \<in> set (undo_states (rv_snapshots s) earlier i)"
  proof -
    have "consistent snap" using ok assms(6) by (simp add: journal_ok_def)
    note last = undo_states_last [OF assms(4-7) this, of earlier]
    have shown: "shown (ct_origin t) g' i = fst (fold restore_step (undo_states (rv_snapshots s) ?rs i) (view (ct_origin t) g i))"
      using arg_cong [OF d [THEN conjunct2, THEN conjunct2], of fst] by simp
    have "snd (view (ct_origin t) g i) \<Longrightarrow> fst (view (ct_origin t) g i) = None" by (simp add: buried_unseen)
    from fold_restore_outcome [OF last [THEN conjunct1] last [THEN conjunct2, THEN conjunct1] this]
    show ?thesis using shown last by (auto simp: assms(3))
  qed
  ultimately show ?thesis using d by simp
qed

section \<open>Retention\<close>

text \<open>
  Claim C34: the retention sweep evicts exactly the points it may.  In every reachable journal a
  point and its snapshot are gone afterwards if and only if the point is not pinned, has reached the
  age, and no action in flight or committed needs it; every other point and snapshot is unchanged,
  so is the journal, and the count returned is the number of points evicted.
\<close>

theorem compact_evicts_exactly:
  assumes "recovery_run env js mem ag s g a" "recovery_compact now retention s = (k, s')"
    and evictable: "evictable = (\<lambda>p. \<exists>x. hm_get (rv_points s) p = Some x \<and> \<not> rp_pinned x
      \<and> retention \<le> saturating_sub now (rp_created_at x)
      \<and> \<not> (\<exists>r \<in> set (rv_actions s). (ar_status r = InFlight \<or> ar_status r = Committed)
              \<and> ar_recovery_point_before r = p))"
  shows "hm_get (rv_points s') p = (if evictable p then None else hm_get (rv_points s) p)
    \<and> hm_get (rv_snapshots s') p = (if evictable p then None else hm_get (rv_snapshots s) p)
    \<and> rv_actions s' = rv_actions s \<and> k = card {p. evictable p}"
proof -
  have ok: "journal_ok s" by (rule recovery_run_ok [OF assms(1)])
  define needed where "needed = map ar_recovery_point_before
    (filter (\<lambda>a. ar_status a = InFlight \<or> ar_status a = Committed) (rv_actions s))"
  define ids where "ids = map rp_id (filter (\<lambda>p. \<not> rp_pinned p
    \<and> retention \<le> saturating_sub now (rp_created_at p) \<and> rp_id p \<notin> set needed) (hm_values (rv_points s)))"
  have s': "s' = s\<lparr>rv_points := fold hm_remove ids (rv_points s),
      rv_snapshots := fold hm_remove ids (rv_snapshots s)\<rparr>" "k = length ids"
    using assms(2) by (auto simp: recovery_compact_def Let_def ids_def needed_def)
  have wf: "hm_wf (rv_points s)" using ok by (simp add: journal_ok_def)
  have ids': "rp_id x = p" if "hm_get (rv_points s) p = Some x" for p x
  proof -
    have "hm_contains_key (rv_points s) p \<longrightarrow> rp_id (the (hm_get (rv_points s) p)) = p"
      using ok unfolding journal_ok_def by blast
    with that show ?thesis by simp
  qed
  have mem: "p \<in> set ids \<longleftrightarrow> evictable p" for p
  proof -
    have "p \<in> set ids \<longleftrightarrow> (\<exists>q x. hm_get (rv_points s) q = Some x \<and> rp_id x = p \<and> \<not> rp_pinned x
        \<and> retention \<le> saturating_sub now (rp_created_at x) \<and> p \<notin> set needed)"
      by (auto simp: ids_def set_hm_values [OF wf] image_iff)
    also have "\<dots> \<longleftrightarrow> evictable p" unfolding evictable needed_def using ids' by auto
    finally show ?thesis .
  qed
  have "map rp_id (hm_values (rv_points s)) = map fst (rv_points s)"
    using ids' hm_mem_get [OF wf] by (auto simp: hm_values_def)
  with wf have "distinct (map rp_id (hm_values (rv_points s)))" by simp
  then have "distinct ids" unfolding ids_def by (rule distinct_map_filter)
  moreover have "set ids = {p. evictable p}" using mem by blast
  ultimately have "k = card {p. evictable p}" using s'(2) distinct_card [of ids] by simp
  then show ?thesis using s'(1) mem by (simp add: fold_hm_remove_get)
qed

section \<open>A small journal, for the witnesses\<close>

definition demo_any_env :: "(nat, nat Record) kg_env" where
  "demo_any_env = demo_env\<lparr>env_wal := (env_wal demo_env)\<lparr>json_encode := (\<lambda>_. Some [49])\<rparr>\<rparr>"

definition demo_journal :: "(nat, unit) recovery_service" where
  "demo_journal = \<lparr>rv_points = [(1, \<lparr>rp_id = 1, rp_created_at = 10, rp_trigger = UserRequested, rp_pinned = False\<rparr>)],
     rv_snapshots = [(1, [(0, Some (demo_node False))])],
     rv_actions = [\<lparr>ar_action_id = 1, ar_agent_run_id = None, ar_session_id = None, ar_goal_id = None,
       ar_recovery_point_before = 1, ar_objects_touched = [0], ar_status = Committed, ar_created_at = 10, ar_note = ''edit''\<rparr>],
     rv_redo_snapshots = [], rv_next_point_id = 2, rv_next_action_id = 2, rv_memory = None\<rparr>"

definition demo_changed :: "(nat, nat Record) knowledge_graph" where
  "demo_changed = snd (the (put_node demo_any_env demo_kg_io demo_monitor demo_root (Some 0) ''doc'' None 9 (demo_graph 1)))"

lemma demo_authorized: "check_rights_ok_result demo_monitor demo_root WRITE 0 = Inr ()"
  by (simp add: WRITE_def contains_def)

lemma demo_snapshot:
  "snapshot_objects demo_monitor demo_root (\<lambda>_. 0) [0] (demo_graph (Suc 0)) = Inr [(0, Some (demo_node False))]"
  by (simp add: kg_get_def demo_kg_defs)

definition demo_with_status :: "ActionStatus \<Rightarrow> (nat, unit) recovery_service" where
  "demo_with_status st = demo_journal\<lparr>rv_actions := map (ar_status_update (\<lambda>_. st)) (rv_actions demo_journal)\<rparr>"

lemma demo_open_run:
  fixes env :: "(nat, nat Record) kg_env"
  shows "recovery_run env js mem (ag :: ('a, 'i, 'ae) agent_ops) (demo_with_status InFlight) g a"
proof -
  obtain s1 where s1: "recovery_point_create demo_monitor demo_root 0 (\<lambda>_. 0) UserRequested [0] 10 (demo_graph 1)
      (recovery_new_with_memory None) = (Inr 1 :: (('ae, 'b) RecoveryError, recovery_point_id) result, s1)"
    "s1 = demo_journal\<lparr>rv_actions := [], rv_next_action_id := 1\<rparr>"
    by (simp add: recovery_point_create_def recovery_require_def demo_snapshot recovery_new_with_memory_def
        demo_journal_def demo_authorized del: snapshot_objects.simps)
  have r1: "recovery_run env js mem ag s1 (demo_graph 1) a" by (rule run_step [OF run_new step_create [OF s1(1)]])
  have "record_action_started_with_scope 1 [0] None None None ''edit'' 10 s1 = (1, demo_with_status InFlight)"
    by (simp add: record_action_started_with_scope_def s1(2) demo_journal_def demo_with_status_def)
  from run_step [OF run_step [OF r1 step_started [OF _ this]] step_elsewhere] show ?thesis by (simp add: s1(2))
qed

lemma demo_journal_run:
  fixes env :: "(nat, nat Record) kg_env"
  shows "recovery_run env js mem (ag :: ('a, 'i, 'ae) agent_ops) demo_journal g a"
proof -
  have "record_action_committed 1 (demo_with_status InFlight) = (Inr () :: (('ae, 'b) RecoveryError, unit) result, demo_journal)"
    by (simp add: record_action_committed_def set_status_def demo_with_status_def demo_journal_def)
  from run_step [OF demo_open_run step_committed [OF this]] show ?thesis .
qed

lemma demo_aborted_run:
  fixes env :: "(nat, nat Record) kg_env"
  shows "recovery_run env js mem (ag :: ('a, 'i, 'ae) agent_ops) (demo_with_status Aborted) g a"
proof -
  have "record_action_aborted 1 (demo_with_status InFlight)
      = (Inr () :: (('ae, 'b) RecoveryError, unit) result, demo_with_status Aborted)"
    by (simp add: record_action_aborted_def set_status_def demo_with_status_def demo_journal_def)
  from run_step [OF demo_open_run step_aborted [OF this]] show ?thesis .
qed

lemmas demo_recovery_defs = undo_def recovery_require_def newest_first_def conflicts_def
  restore_objects_def apply_snapshot_def apply_entry_def put_node_def put_node_with_device_origin_def
  put_node_with_provenance_def demo_any_env_def demo_kg_defs kg_get_def

lemma demo_undo:
  "\<exists>s' g'. undo demo_any_env 0 (\<lambda>_ _. 0) (\<lambda>_ _. demo_kg_io) demo_monitor demo_root (SingleAction 1)
     demo_journal demo_changed
     = Some (Inr (UndoTargeted [1]) :: ((unit, unit) RecoveryError, UndoReceipt) result, s', g')"
  by (simp add: demo_journal_def demo_changed_def demo_recovery_defs Let_def)

lemma demo_changed_shown: "shown 7 demo_changed 0 = Some (''doc'', None, 9)" "\<not> buried demo_changed 0"
  by (simp_all add: demo_changed_def shown_def buried_def content_def demo_recovery_defs Let_def)

theorem undo_restores_witness:
  "\<exists>s' g'. undo demo_any_env 0 (\<lambda>_ _. 0) (\<lambda>_ _. demo_kg_io) demo_monitor demo_root (SingleAction 1)
     demo_journal demo_changed
     = Some (Inr (UndoTargeted [1]) :: ((unit, unit) RecoveryError, UndoReceipt) result, s', g')
   \<and> shown 7 demo_changed 0 = Some (''doc'', None, 9) \<and> shown 7 g' 0 = Some (''doc'', None, 3)"
proof -
  obtain s' g' where u: "undo demo_any_env 0 (\<lambda>_ _. 0) (\<lambda>_ _. demo_kg_io) demo_monitor demo_root (SingleAction 1)
     demo_journal demo_changed
     = Some (Inr (UndoTargeted [1]) :: ((unit, unit) RecoveryError, UndoReceipt) result, s', g')"
    using demo_undo by blast
  let ?r = "hd (rv_actions demo_journal)"
  have "shown (ct_origin demo_root) g' 0 = map_option content (Some (demo_node False))"
    using undo_restores [OF demo_journal_run u refl, of "[]" ?r "[]" 0 "[(0, Some (demo_node False))]" "Some (demo_node False)"]
      demo_changed_shown(2) by (simp add: demo_journal_def undo_states_def states_of_def newest_first_def)
  with u demo_changed_shown show ?thesis by (simp add: demo_origin_7 content_def demo_node_def)
qed


lemma demo_undo_redo:
  "\<exists>s1 g1 s2 g2. undo demo_any_env 0 (\<lambda>_ _. 0) (\<lambda>_ _. demo_kg_io) demo_monitor demo_root (SingleAction 1)
     demo_journal demo_changed
     = Some (Inr (UndoTargeted [1]) :: ((unit, unit) RecoveryError, UndoReceipt) result, s1, g1)
   \<and> redo demo_any_env 0 (\<lambda>_ _. demo_kg_io) demo_monitor demo_root (SingleAction 1) s1 g1
     = Some (Inr (RedoTargeted [1]) :: ((unit, unit) RecoveryError, RedoReceipt) result, s2, g2)
   \<and> shown 7 g1 0 \<noteq> None"
  by (simp add: demo_journal_def demo_changed_def demo_recovery_defs Let_def redo_def mark_def shown_def content_def)

theorem undo_redo_roundtrip_witness:
  "\<exists>s1 g1 s2 g2. undo demo_any_env 0 (\<lambda>_ _. 0) (\<lambda>_ _. demo_kg_io) demo_monitor demo_root (SingleAction 1)
     demo_journal demo_changed
     = Some (Inr (UndoTargeted [1]) :: ((unit, unit) RecoveryError, UndoReceipt) result, s1, g1)
   \<and> redo demo_any_env 0 (\<lambda>_ _. demo_kg_io) demo_monitor demo_root (SingleAction 1) s1 g1
     = Some (Inr (RedoTargeted [1]) :: ((unit, unit) RecoveryError, RedoReceipt) result, s2, g2)
   \<and> rv_actions s2 = rv_actions demo_journal \<and> shown 7 g2 0 = Some (''doc'', None, 9)"
proof -
  obtain s1 g1 s2 g2 where
    u: "undo demo_any_env 0 (\<lambda>_ _. 0) (\<lambda>_ _. demo_kg_io) demo_monitor demo_root (SingleAction 1)
      demo_journal demo_changed
      = Some (Inr (UndoTargeted [1]) :: ((unit, unit) RecoveryError, UndoReceipt) result, s1, g1)"
    and r: "redo demo_any_env 0 (\<lambda>_ _. demo_kg_io) demo_monitor demo_root (SingleAction 1) s1 g1
      = Some (Inr (RedoTargeted [1]) :: ((unit, unit) RecoveryError, RedoReceipt) result, s2, g2)"
    and "shown 7 g1 0 \<noteq> None"
    using demo_undo_redo by blast
  with undo_redo_roundtrip [OF demo_journal_run u _ r refl, of 0] demo_changed_shown
  show ?thesis by (auto simp: demo_origin_7 demo_journal_def)
qed

lemma demo_recover:
  "\<exists>s' g'. recover_from_crash demo_any_env (ag :: (unit, unit, unit) agent_ops) (\<lambda>_ _. demo_kg_io) demo_monitor demo_root
     (demo_with_status InFlight) demo_changed ()
     = Some (Inr [1] :: ((unit, unit) RecoveryError, action_id list) result, s', g', ())"
  by (simp add: recover_from_crash_def demo_with_status_def demo_journal_def demo_changed_def demo_recovery_defs Let_def
      replan_agent_def record_action_aborted_def set_status_def)

definition demo_agents :: "(unit, unit, unit) agent_ops" where
  "demo_agents = \<lparr>ag_describe = (\<lambda>_ _. None), ag_terminate = (\<lambda>_ _ _ _ a. (Inr (), a)), ag_spawn = (\<lambda>_ _ _ a. (Inr 0, a))\<rparr>"

theorem recover_from_crash_closes_witness:
  "\<exists>s' g'. recover_from_crash demo_any_env demo_agents
       (\<lambda>_ _. demo_kg_io) demo_monitor demo_root (demo_with_status InFlight) demo_changed ()
     = Some (Inr [1] :: ((unit, unit) RecoveryError, action_id list) result, s', g', ())
   \<and> rv_actions s' = rv_actions (demo_with_status Aborted) \<and> shown 7 g' 0 = Some (''doc'', None, 3)"
proof -
  obtain s' g' where r: "recover_from_crash demo_any_env demo_agents (\<lambda>_ _. demo_kg_io) demo_monitor demo_root
     (demo_with_status InFlight) demo_changed ()
     = Some (Inr [1] :: ((unit, unit) RecoveryError, action_id list) result, s', g', ())"
    using demo_recover by blast
  let ?r = "hd (rv_actions (demo_with_status InFlight))"
  have "rv_actions s' = map (\<lambda>r. if ar_status r = InFlight then r\<lparr>ar_status := Aborted\<rparr> else r)
      (rv_actions (demo_with_status InFlight))
    \<and> shown (ct_origin demo_root) g' 0 = map_option content (Some (demo_node False))"
    using recover_from_crash_closes [OF demo_open_run r, of "[]" ?r "[]" 0 "[(0, Some (demo_node False))]"
        "Some (demo_node False)"] demo_changed_shown(2)
    by (simp add: demo_with_status_def demo_journal_def undo_states_def)
  then have "rv_actions s' = rv_actions (demo_with_status Aborted)" "shown 7 g' 0 = Some (''doc'', None, 3)"
    by (simp_all add: demo_origin_7 content_def demo_node_def demo_with_status_def demo_journal_def)
  with r show ?thesis by blast
qed

theorem compact_evicts_exactly_witness:
  "\<exists>k s'. recovery_compact 100 50 (demo_with_status Aborted) = (k, s')
   \<and> hm_contains_key (rv_snapshots (demo_with_status Aborted)) 1 \<and> hm_get (rv_snapshots s') 1 = None"
proof -
  obtain k s' where c: "recovery_compact 100 50 (demo_with_status Aborted) = (k, s')" by (meson surj_pair)
  have "hm_get (rv_snapshots s') 1 = None"
    using compact_evicts_exactly [OF demo_aborted_run c refl, of 1]
    by (simp add: demo_with_status_def demo_journal_def saturating_sub_def)
  with c show ?thesis by (simp add: demo_with_status_def demo_journal_def)
qed

section \<open>Where the code departs from its documentation\<close>

text \<open>A node written back from a snapshot loses the tenant, the origin and the device it had: the
  snapshot holds them, but the write sets them anew.\<close>

lemma restored_node_loses_provenance:
  assumes "apply_entry env io m t i (Some n) g = Some (Inr x, g')"
  shows "\<exists>n'. hm_get (gi_nodes (kg_index g')) i = Some n' \<and> content n' = content n
    \<and> nr_tenant_id n' = 0 \<and> nr_origin n' = IngestedExternal \<and> nr_device_origin n' = 0"
proof -
  from assms obtain r where "put_node env io m t (Some i) (nr_object_type n) (nr_embedding n) (nr_metadata n) g
      = Some (Inr r, g')" by (auto simp: apply_entry_def)
  then show ?thesis by (rule put_node_Inr) (auto simp: index_apply_simps content_def)
qed

text \<open>Two actions with the same time of creation are undone in the order in which they ran, so that
  the node they both touched is left in the state between them.\<close>

lemma undo_ties_leave_the_state_between:
  assumes "undo env inst nows ios m t scope s g
      = Some (Inr (UndoTargeted ids) :: (('ae, 'me) RecoveryError, UndoReceipt) result, s', g')"
    and "rv_actions s = [r1, r2]" "ar_created_at r1 = ar_created_at r2"
    and "\<forall>r \<in> {r1, r2}. ar_status r = Committed \<and> in_scope r scope \<and> i \<in> set (ar_objects_touched r)"
    and "hm_get (rv_snapshots s) (ar_recovery_point_before r1) = Some [(i, Some before)]"
    and "hm_get (rv_snapshots s) (ar_recovery_point_before r2) = Some [(i, Some between)]"
    and "\<not> buried g i"
  shows "shown (ct_origin t) g' i = Some (content between)"
proof -
  have "view (ct_origin t) g' i = fold restore_step [Some before, Some between] (view (ct_origin t) g i)"
    using undo_view [OF assms(1), of i] assms(2-6) by (simp add: newest_first_def undo_states_def states_of_def)
  with assms(7) show ?thesis by simp
qed

text \<open>The retention sweep takes the point of an undone action for one that nothing reads again; after
  a redo the action is committed, and undoing it once more finds no recovery point.\<close>

definition demo_undone :: "(nat, unit) recovery_service" where
  "demo_undone = (demo_with_status Undone)\<lparr>rv_redo_snapshots := [(1, [(0, Some (demo_node False))])]\<rparr>"

lemma redo_after_compact_cannot_be_undone:
  "\<exists>k s1 s2 g2. recovery_compact 100 50 demo_undone = (k, s1)
   \<and> redo demo_any_env 0 (\<lambda>_ _. demo_kg_io) demo_monitor demo_root (SingleAction 1) s1 (demo_graph 1)
     = Some (Inr (RedoTargeted [1]) :: ((unit, unit) RecoveryError, RedoReceipt) result, s2, g2)
   \<and> (\<exists>s3. undo demo_any_env 0 (\<lambda>_ _. 0) (\<lambda>_ _. demo_kg_io) demo_monitor demo_root (SingleAction 1) s2 g2
     = Some (Inl NoSuchRecoveryPoint :: ((unit, unit) RecoveryError, UndoReceipt) result, s3, g2))"
  by (simp add: demo_undone_def demo_with_status_def demo_journal_def demo_recovery_defs Let_def redo_def mark_def
      recovery_compact_def hm_values_def saturating_sub_def)

end
