(* ===== verification/Encoding.thy ===== *)
theory Encoding
  imports Wire_Token
begin

text \<open>
  Byte encodings that the signatures of several parts are computed over: strings as their UTF-8
  bytes, fields with their length in front, and the interface of an encoding that can be read back
  from the front of a longer text.
\<close>

definition as_bytes :: "string \<Rightarrow> u8 list" where
  "as_bytes s = map of_char s"

definition push_bytes :: "u8 list \<Rightarrow> u8 list" where
  "push_bytes value = to_le_bytes 8 (of_nat (length value) :: u64) @ value"

definition push_str :: "string \<Rightarrow> u8 list" where
  "push_str value = push_bytes (as_bytes value)"

text \<open>A list: the number of its elements as a field, then each element.\<close>

definition push_list :: "('a \<Rightarrow> u8 list) \<Rightarrow> 'a list \<Rightarrow> u8 list" where
  "push_list push xs = push_bytes (to_le_bytes 8 (of_nat (length xs) :: u64)) @ concat (map push xs)"

section \<open>Encodings that can be read back\<close>

text \<open>
  What an encoding shows is its \<open>view\<close>: two values of the domain followed by anything agree exactly
  when their views and the rests agree.
\<close>

locale prefix_code =
  fixes enc :: "'a \<Rightarrow> u8 list" and view :: "'a \<Rightarrow> 'b" and admissible :: "'a \<Rightarrow> bool"
  assumes code: "admissible x \<Longrightarrow> admissible y \<Longrightarrow> enc x @ r = enc y @ s \<longleftrightarrow> view x = view y \<and> r = s"
begin

lemma code_end: "admissible x \<Longrightarrow> admissible y \<Longrightarrow> enc x = enc y \<longleftrightarrow> view x = view y"
  using code [of x y "[]" "[]"] by simp

lemma concat_code:
  assumes "list_all admissible xs" "list_all admissible ys" "length xs = length ys"
  shows "concat (map enc xs) @ r = concat (map enc ys) @ s \<longleftrightarrow> map view xs = map view ys \<and> r = s"
  using assms(3,1,2) by (induction xs ys rule: list_induct2) (auto simp: code)

end

lemma to_le_bytes_code [simp]:
  "to_le_bytes 8 (a :: u64) @ r = to_le_bytes 8 b @ s \<longleftrightarrow> a = b \<and> r = s"
  "to_le_bytes 4 (c :: u32) @ r = to_le_bytes 4 d @ s \<longleftrightarrow> c = d \<and> r = s"
  by (auto simp: append_eq_append_conv dest: to_le_bytes_inj)

lemma of_nat_u64_eq: "m < 2 ^ 64 \<Longrightarrow> n < 2 ^ 64 \<Longrightarrow> (of_nat m :: u64) = of_nat n \<longleftrightarrow> m = n"
  by (auto simp: word_unat_eq_iff unat_of_nat take_bit_nat_eq_self)

lemma push_bytes_code:
  "length v < 2 ^ 64 \<Longrightarrow> length w < 2 ^ 64 \<Longrightarrow> push_bytes v @ r = push_bytes w @ s \<longleftrightarrow> v = w \<and> r = s"
  by (auto simp: push_bytes_def of_nat_u64_eq append_eq_append_conv)

lemma length_as_bytes [simp]: "length (as_bytes s) = length s"
  by (simp add: as_bytes_def)

lemma of_char_u8_inj: "(of_char c :: u8) = of_char d \<longleftrightarrow> c = d"
proof
  assume eq: "(of_char c :: u8) = of_char d"
  let ?bits = "\<lambda>c. [digit0 c, digit1 c, digit2 c, digit3 c, digit4 c, digit5 c, digit6 c, digit7 c]"
  have "bit (of_char e :: u8) n \<longleftrightarrow> ?bits e ! n" if "n < 8" for e n
    unfolding of_char_def bit_horner_sum_bit_iff using that by simp
  with eq have "?bits c ! n = ?bits d ! n" if "n < 8" for n using that by metis
  from this [of 0] this [of 1] this [of 2] this [of 3] this [of 4] this [of 5] this [of 6] this [of 7]
  show "c = d" by (cases c; cases d) simp
qed simp

lemma as_bytes_inj: "as_bytes s = as_bytes t \<longleftrightarrow> s = t"
  by (auto simp: as_bytes_def of_char_u8_inj list_eq_iff_nth_eq)

definition short :: "'a list \<Rightarrow> bool" where
  "short xs \<longleftrightarrow> length xs < 2 ^ 64"

interpretation str: prefix_code push_str "\<lambda>s. s" short
  by unfold_locales (simp add: push_str_def push_bytes_code as_bytes_inj short_def length_as_bytes)

context prefix_code
begin

lemma push_list_code:
  assumes "list_all admissible xs" "list_all admissible ys" "short xs" "short ys"
  shows "push_list enc xs @ r = push_list enc ys @ s \<longleftrightarrow> map view xs = map view ys \<and> r = s"
proof -
  have "push_list enc xs @ r = push_list enc ys @ s \<longleftrightarrow>
      length xs = length ys \<and> concat (map enc xs) @ r = concat (map enc ys) @ s"
    using assms(3,4) to_le_bytes_inj [of 8 "of_nat (length xs) :: u64" "of_nat (length ys)"]
    by (auto simp: push_list_def push_bytes_code short_def of_nat_u64_eq)
  also have "\<dots> \<longleftrightarrow> map view xs = map view ys \<and> r = s"
    using concat_code [OF assms(1,2)] by (auto dest: map_eq_imp_length_eq)
  finally show ?thesis .
qed

end

end
