(* ===== verification/Consent.thy ===== *)
theory Consent
  imports Encoding
begin

text \<open>
  Consent and privacy routing, \<open>crates/hyperion-privacy/src\<close>, files \<open>types.rs\<close>, \<open>consent.rs\<close> and
  \<open>routing.rs\<close>: privacy tiers and residency tags, the ledger of signed consent grants, the gate that
  decides where a call may run, and the filter that assembles a context for a recipient.  The
  signature scheme is the parameters \<open>sign\<close> and \<open>verify\<close>; a string is the list of its UTF-8 bytes.
\<close>

section \<open>Tiers, tags and grants\<close>

datatype PrivacyTier = FullyLocal | LocalPreferredWithConsent | CloudAssisted

datatype SensitivityClass = Public | Personal | Sensitive | Restricted

record privacy_profile =
  pp_tier :: PrivacyTier
  pp_domain_overrides :: "(string, PrivacyTier) hashmap"
  pp_updated_at :: u64
  pp_version :: u32

definition tier_for :: "privacy_profile \<Rightarrow> string \<Rightarrow> PrivacyTier" where
  "tier_for profile domain =
     (case hm_get (pp_domain_overrides profile) domain of Some tier \<Rightarrow> tier | None \<Rightarrow> pp_tier profile)"

record residency_tag =
  rt_object_id :: u64
  rt_sensitivity :: SensitivityClass
  rt_allowed_tiers :: "PrivacyTier set"

definition residency_tag_new :: "u64 \<Rightarrow> SensitivityClass \<Rightarrow> PrivacyTier set \<Rightarrow> residency_tag" where
  "residency_tag_new object_id sensitivity allowed_tiers =
     \<lparr>rt_object_id = object_id, rt_sensitivity = sensitivity,
      rt_allowed_tiers = (if sensitivity = Restricted then allowed_tiers - {CloudAssisted} else allowed_tiers)\<rparr>"

definition forbids :: "residency_tag \<Rightarrow> PrivacyTier \<Rightarrow> bool" where
  "forbids tag tier = (tier \<notin> rt_allowed_tiers tag)"

datatype DataScope = ScopeDomain string | ScopeObject u64 | ScopeCapability string

record 'sig consent_grant =
  cg_id :: u64
  cg_subject :: u64
  cg_scope :: DataScope
  cg_purpose :: string
  cg_expiry :: "u64 option"
  cg_granted_at :: u64
  cg_proof :: 'sig

definition grant_is_live :: "'sig consent_grant \<Rightarrow> u64 \<Rightarrow> bool" where
  "grant_is_live grant now = (case cg_expiry grant of None \<Rightarrow> True | Some e \<Rightarrow> now \<le> e)"

datatype DegradeReason = NoLocalImplementation | ResidencyForbidsCloud | NoStandingConsent

datatype RoutingDecision = DispatchLocal | DispatchCloud u64 | Degraded DegradeReason

datatype ('g, 'r) PrivacyError =
    PrivacyUnauthorized
  | PrivacyGraph 'g
  | PrivacyRecovery 'r
  | PrivacySignatureInvalid

section \<open>The ledger\<close>

definition consent_canonical_bytes ::
    "u64 \<Rightarrow> u64 \<Rightarrow> DataScope \<Rightarrow> string \<Rightarrow> u64 option \<Rightarrow> u64 \<Rightarrow> u8 list" where
  "consent_canonical_bytes grant_id subject scope purpose expiry granted_at =
     to_le_bytes 8 grant_id @ to_le_bytes 8 subject
     @ (case scope of
          ScopeDomain name \<Rightarrow> 0 # as_bytes name
        | ScopeObject node_id \<Rightarrow> 1 # to_le_bytes 8 node_id
        | ScopeCapability name \<Rightarrow> 2 # as_bytes name)
     @ as_bytes purpose
     @ (case expiry of Some expiry \<Rightarrow> 1 # to_le_bytes 8 expiry | None \<Rightarrow> [0])
     @ to_le_bytes 8 granted_at"

definition grant_canonical_bytes :: "'sig consent_grant \<Rightarrow> u8 list" where
  "grant_canonical_bytes grant =
     consent_canonical_bytes (cg_id grant) (cg_subject grant) (cg_scope grant) (cg_purpose grant)
       (cg_expiry grant) (cg_granted_at grant)"

definition verify_grant :: "(u8 list \<Rightarrow> 'sig \<Rightarrow> 'key \<Rightarrow> bool) \<Rightarrow> 'sig consent_grant \<Rightarrow> 'key \<Rightarrow> bool" where
  "verify_grant verify grant verifying_key = verify (grant_canonical_bytes grant) (cg_proof grant) verifying_key"

record 'sig consent_ledger =
  cl_grants :: "(u64, 'sig consent_grant) hashmap"
  cl_next_id :: u64

definition consent_new :: "'sig consent_ledger" where
  "consent_new = \<lparr>cl_grants = [], cl_next_id = 1\<rparr>"

definition privacy_require ::
    "capability_monitor \<Rightarrow> capability_token \<Rightarrow> instant \<Rightarrow> u32 \<Rightarrow> (('g, 'r) PrivacyError, unit) result" where
  "privacy_require monitor token now rights =
     map_err (\<lambda>_. PrivacyUnauthorized) (check_rights_ok_result monitor token rights now)"

definition consent_request ::
    "(u8 list \<Rightarrow> 'sig) \<Rightarrow> capability_monitor \<Rightarrow> capability_token \<Rightarrow> instant \<Rightarrow> u64 \<Rightarrow> DataScope \<Rightarrow> string
     \<Rightarrow> u64 option \<Rightarrow> u64 \<Rightarrow> 'sig consent_ledger
     \<Rightarrow> (('g, 'r) PrivacyError, 'sig consent_grant) result \<times> 'sig consent_ledger" where
  "consent_request sign monitor token inst subject scope purpose expiry now l =
     (case privacy_require monitor token inst WRITE of
        Inl e \<Rightarrow> (Inl e, l)
      | Inr _ \<Rightarrow>
          (let grant_id = cl_next_id l;
               proof' = sign (consent_canonical_bytes grant_id subject scope purpose expiry now);
               grant = \<lparr>cg_id = grant_id, cg_subject = subject, cg_scope = scope, cg_purpose = purpose,
                        cg_expiry = expiry, cg_granted_at = now, cg_proof = proof'\<rparr>
           in (Inr grant, l\<lparr>cl_next_id := grant_id + 1, cl_grants := hm_insert grant_id grant (cl_grants l)\<rparr>)))"

definition consent_import ::
    "(u8 list \<Rightarrow> 'sig \<Rightarrow> 'key \<Rightarrow> bool) \<Rightarrow> capability_monitor \<Rightarrow> capability_token \<Rightarrow> instant
     \<Rightarrow> 'sig consent_grant \<Rightarrow> 'key \<Rightarrow> 'sig consent_ledger
     \<Rightarrow> (('g, 'r) PrivacyError, unit) result \<times> 'sig consent_ledger" where
  "consent_import verify monitor token inst grant verifying_key l =
     (case privacy_require monitor token inst WRITE of
        Inl e \<Rightarrow> (Inl e, l)
      | Inr _ \<Rightarrow>
          if \<not> verify_grant verify grant verifying_key then (Inl PrivacySignatureInvalid, l)
          else (Inr (), l\<lparr>cl_grants := hm_insert (cg_id grant) grant (cl_grants l)\<rparr>))"

definition consent_revoke ::
    "capability_monitor \<Rightarrow> capability_token \<Rightarrow> instant \<Rightarrow> u64 \<Rightarrow> 'sig consent_ledger
     \<Rightarrow> (('g, 'r) PrivacyError, unit) result \<times> 'sig consent_ledger" where
  "consent_revoke monitor token inst grant_id l =
     (case privacy_require monitor token inst WRITE of
        Inl e \<Rightarrow> (Inl e, l)
      | Inr _ \<Rightarrow> (Inr (), l\<lparr>cl_grants := hm_remove grant_id (cl_grants l)\<rparr>))"

definition standing_grant :: "u64 \<Rightarrow> DataScope \<Rightarrow> u64 \<Rightarrow> 'sig consent_ledger \<Rightarrow> 'sig consent_grant option" where
  "standing_grant subject scope now l =
     find (\<lambda>g. cg_subject g = subject \<and> cg_scope g = scope \<and> grant_is_live g now) (hm_values (cl_grants l))"

definition consent_list :: "u64 option \<Rightarrow> 'sig consent_ledger \<Rightarrow> 'sig consent_grant list" where
  "consent_list subject l =
     filter (\<lambda>g. case subject of None \<Rightarrow> True | Some s \<Rightarrow> cg_subject g = s) (hm_values (cl_grants l))"

section \<open>Routing\<close>

definition route_capability_call ::
    "privacy_profile \<Rightarrow> string \<Rightarrow> DataScope \<Rightarrow> residency_tag option \<Rightarrow> bool \<Rightarrow> 'sig consent_ledger \<Rightarrow> u64 \<Rightarrow> u64
     \<Rightarrow> RoutingDecision" where
  "route_capability_call profile domain scope residency has_local_impl ledger subject now =
     (case tier_for profile domain of
        FullyLocal \<Rightarrow> if has_local_impl then DispatchLocal else Degraded NoLocalImplementation
      | LocalPreferredWithConsent \<Rightarrow>
          if has_local_impl then DispatchLocal
          else if (case residency of None \<Rightarrow> False | Some tag \<Rightarrow> forbids tag CloudAssisted)
          then Degraded ResidencyForbidsCloud
          else (case standing_grant subject scope now ledger of
                  Some grant \<Rightarrow> DispatchCloud (cg_id grant)
                | None \<Rightarrow> Degraded NoStandingConsent)
      | CloudAssisted \<Rightarrow>
          if (case residency of None \<Rightarrow> False | Some tag \<Rightarrow> forbids tag CloudAssisted)
          then Degraded ResidencyForbidsCloud
          else (case standing_grant subject scope now ledger of
                  Some grant \<Rightarrow> DispatchCloud (cg_id grant)
                | None \<Rightarrow> if has_local_impl then DispatchLocal else Degraded NoStandingConsent))"

definition tier_name :: "PrivacyTier \<Rightarrow> string" where
  "tier_name tier =
     (case tier of
        FullyLocal \<Rightarrow> ''FullyLocal''
      | LocalPreferredWithConsent \<Rightarrow> ''LocalPreferredWithConsent''
      | CloudAssisted \<Rightarrow> ''CloudAssisted'')"

fun filter_for_recipient ::
    "residency_tag list \<Rightarrow> u64 set \<Rightarrow> PrivacyTier \<Rightarrow> u64 list \<times> (u64 \<times> string) list" where
  "filter_for_recipient [] recipient_declared_need recipient_tier = ([], [])"
| "filter_for_recipient (tag # tags) recipient_declared_need recipient_tier =
     (let (included, withheld) = filter_for_recipient tags recipient_declared_need recipient_tier
      in if rt_object_id tag \<notin> recipient_declared_need
         then (included, (rt_object_id tag, ''not declared needed by recipient's sub-intent'') # withheld)
         else if forbids tag recipient_tier
         then (included, (rt_object_id tag, ''object's residency forbids tier '' @ tier_name recipient_tier) # withheld)
         else (rt_object_id tag # included, withheld))"

section \<open>No cloud without consent\<close>

text \<open>
  The ledgers a device reaches, with the grants it has accepted on the way: those it issued itself
  and those whose signature it verified.
\<close>

inductive consent_run ::
    "(u8 list \<Rightarrow> 'sig) \<Rightarrow> (u8 list \<Rightarrow> 'sig \<Rightarrow> 'key \<Rightarrow> bool) \<Rightarrow> 'sig consent_grant set \<Rightarrow> 'sig consent_ledger \<Rightarrow> bool"
  for sign :: "u8 list \<Rightarrow> 'sig" and verify :: "u8 list \<Rightarrow> 'sig \<Rightarrow> 'key \<Rightarrow> bool" where
  consent_start: "consent_run sign verify {} consent_new"
| consent_requested: "consent_run sign verify G l
    \<Longrightarrow> consent_request sign m t inst subject scope purpose expiry now l
        = (Inr grant :: ((unit, unit) PrivacyError, 'sig consent_grant) result, l')
    \<Longrightarrow> consent_run sign verify (insert grant G) l'"
| consent_imported: "consent_run sign verify G l
    \<Longrightarrow> consent_import verify m t inst grant key l = (Inr () :: ((unit, unit) PrivacyError, unit) result, l')
    \<Longrightarrow> consent_run sign verify (insert grant G) l'"
| consent_revoked: "consent_run sign verify G l
    \<Longrightarrow> consent_revoke m t inst i l = (Inr () :: ((unit, unit) PrivacyError, unit) result, l')
    \<Longrightarrow> consent_run sign verify {g \<in> G. cg_id g \<noteq> i} l'"

lemma consent_run_grants:
  "consent_run sign verify G l \<Longrightarrow>
     hm_wf (cl_grants l) \<and> (\<forall>i g. hm_get (cl_grants l) i = Some g \<longrightarrow> g \<in> G \<and> cg_id g = i)"
proof (induction rule: consent_run.induct)
  case consent_start
  show ?case by (simp add: consent_new_def)
next
  case (consent_requested G l m t inst subject scope purpose expiry now grant l')
  then have "cg_id grant = cl_next_id l" "l' = l\<lparr>cl_next_id := cl_next_id l + 1, cl_grants := hm_insert (cl_next_id l) grant (cl_grants l)\<rparr>"
    by (auto simp: consent_request_def Let_def split: sum.splits)
  with consent_requested.IH show ?case by auto
next
  case (consent_imported G l m t inst grant key l')
  then have "l' = l\<lparr>cl_grants := hm_insert (cg_id grant) grant (cl_grants l)\<rparr>"
    by (auto simp: consent_import_def split: sum.splits if_splits)
  with consent_imported.IH show ?case by auto
next
  case (consent_revoked G l m t inst i l')
  then have "l' = l\<lparr>cl_grants := hm_remove i (cl_grants l)\<rparr>"
    by (auto simp: consent_revoke_def split: sum.splits)
  with consent_revoked.IH show ?case by (auto split: if_splits)
qed

lemma standing_grant_Some:
  assumes "consent_run sign verify G l" "standing_grant subject scope now l = Some g"
  shows "g \<in> G \<and> hm_get (cl_grants l) (cg_id g) = Some g \<and> cg_subject g = subject \<and> cg_scope g = scope \<and> grant_is_live g now"
proof -
  note run = consent_run_grants [OF assms(1)]
  from assms(2) have "g \<in> set (hm_values (cl_grants l))"
    and g: "cg_subject g = subject" "cg_scope g = scope" "grant_is_live g now"
    by (auto simp: standing_grant_def find_Some_iff)
  then obtain i where "hm_get (cl_grants l) i = Some g" using set_hm_values [of "cl_grants l"] run by auto
  with run g show ?thesis by blast
qed

lemma standing_grant_None:
  assumes "consent_run sign verify G l"
  shows "standing_grant subject scope now l = None \<longleftrightarrow>
    \<not> (\<exists>i g. hm_get (cl_grants l) i = Some g \<and> cg_subject g = subject \<and> cg_scope g = scope \<and> grant_is_live g now)"
  using set_hm_values [of "cl_grants l"] consent_run_grants [OF assms]
  by (auto simp: standing_grant_def find_None_iff)

text \<open>
  Claim C35: nothing leaves the device without consent.  Whatever sequence of requests, imports and
  revocations built the ledger, a call is dispatched to the cloud exactly when the tier of its
  domain is not fully local, prefers no local implementation that exists, the object's residency
  permits it, and a live grant for the subject and the scope is in the ledger.  The grant named
  is such a grant, and it was issued on this device or imported with a valid signature, and not
  revoked since.
\<close>

theorem cloud_exactly_with_consent:
  assumes run: "consent_run sign verify G l"
    and route: "route = route_capability_call profile domain scope residency has_local l subject now"
    and permits: "permits \<longleftrightarrow> (\<forall>tag. residency = Some tag \<longrightarrow> CloudAssisted \<in> rt_allowed_tiers tag)"
  shows "((\<exists>i. route = DispatchCloud i) \<longleftrightarrow>
      tier_for profile domain \<noteq> FullyLocal \<and> (tier_for profile domain = LocalPreferredWithConsent \<longrightarrow> \<not> has_local)
      \<and> permits \<and> (\<exists>i g. hm_get (cl_grants l) i = Some g \<and> cg_subject g = subject \<and> cg_scope g = scope \<and> grant_is_live g now))
    \<and> (\<forall>i. route = DispatchCloud i \<longrightarrow>
        (\<exists>g \<in> G. cg_id g = i \<and> cg_subject g = subject \<and> cg_scope g = scope \<and> grant_is_live g now))"
proof -
  have forbid: "(case residency of None \<Rightarrow> False | Some tag \<Rightarrow> forbids tag CloudAssisted) \<longleftrightarrow> \<not> permits"
    by (auto simp: permits forbids_def split: option.splits)
  show ?thesis
  proof (cases "standing_grant subject scope now l")
    case None
    then have none: "\<not> (\<exists>i g. hm_get (cl_grants l) i = Some g \<and> cg_subject g = subject \<and> cg_scope g = scope \<and> grant_is_live g now)"
      using standing_grant_None [OF run] by blast
    have "route \<noteq> DispatchCloud i" for i
      using None by (auto simp: route route_capability_call_def split: PrivacyTier.splits)
    with none show ?thesis by simp
  next
    case (Some g)
    note g = standing_grant_Some [OF run Some]
    have "route = DispatchCloud i \<longleftrightarrow> i = cg_id g \<and> tier_for profile domain \<noteq> FullyLocal
        \<and> (tier_for profile domain = LocalPreferredWithConsent \<longrightarrow> \<not> has_local) \<and> permits" for i
      using Some by (auto simp: route route_capability_call_def forbid split: PrivacyTier.splits)
    moreover have "\<exists>i g. hm_get (cl_grants l) i = Some g \<and> cg_subject g = subject \<and> cg_scope g = scope \<and> grant_is_live g now"
      using g by blast
    ultimately show ?thesis using g by auto
  qed
qed

section \<open>Restricted data stays\<close>

lemma filter_for_recipient_eq:
  "fst (filter_for_recipient tags need tier) =
     map rt_object_id (filter (\<lambda>t. rt_object_id t \<in> need \<and> tier \<in> rt_allowed_tiers t) tags)"
  "map fst (snd (filter_for_recipient tags need tier)) =
     map rt_object_id (filter (\<lambda>t. \<not> (rt_object_id t \<in> need \<and> tier \<in> rt_allowed_tiers t)) tags)"
  by (induction tags) (auto simp: forbids_def split: prod.splits)

text \<open>
  Claim C36: a tag of class restricted cannot carry the cloud tier, by construction, so its object is
  neither sent to a recipient in the cloud nor does a call on it go there.  The filter splits the
  objects it is given: those included, in order, are the needed and permitted ones, and every other
  one is withheld with a reason.
\<close>

theorem restricted_stays_local:
  assumes "tag = residency_tag_new object_id sensitivity tiers"
    and "filter_for_recipient tags need tier = (included, withheld)"
  shows "(sensitivity = Restricted \<longrightarrow> forbids tag CloudAssisted
      \<and> (\<forall>i. route_capability_call profile domain scope (Some tag) has_local l subject now \<noteq> DispatchCloud i))
    \<and> included = map rt_object_id (filter (\<lambda>t. rt_object_id t \<in> need \<and> \<not> forbids t tier) tags)
    \<and> map fst withheld = map rt_object_id (filter (\<lambda>t. rt_object_id t \<notin> need \<or> forbids t tier) tags)"
proof -
  have "forbids tag CloudAssisted \<and> (\<forall>i. route_capability_call profile domain scope (Some tag) has_local l subject now \<noteq> DispatchCloud i)"
    if "sensitivity = Restricted"
    using that assms(1) by (auto simp: residency_tag_new_def forbids_def route_capability_call_def split: PrivacyTier.splits)
  with filter_for_recipient_eq [of tags need tier] assms(2) show ?thesis by (simp add: forbids_def)
qed


section \<open>Witnesses\<close>

definition demo_profile :: privacy_profile where
  "demo_profile = \<lparr>pp_tier = FullyLocal, pp_domain_overrides = [(''mail'', CloudAssisted)], pp_updated_at = 0, pp_version = 1\<rparr>"

definition demo_grant :: "u8 list consent_grant" where
  "demo_grant = \<lparr>cg_id = 1, cg_subject = 3, cg_scope = ScopeDomain ''mail'', cg_purpose = ''reply'', cg_expiry = Some 100,
     cg_granted_at = 7,
     cg_proof = consent_canonical_bytes 1 3 (ScopeDomain ''mail'') ''reply'' (Some 100) 7\<rparr>"

definition demo_ledger :: "u8 list consent_ledger" where
  "demo_ledger = \<lparr>cl_grants = [(1, demo_grant)], cl_next_id = 2\<rparr>"

lemma demo_consent_run: "consent_run (\<lambda>bytes. bytes) (\<lambda>bytes sg (_ :: unit). sg = bytes) {demo_grant} demo_ledger"
proof -
  have "consent_request (\<lambda>bytes. bytes) demo_monitor demo_root 0 3 (ScopeDomain ''mail'') ''reply'' (Some 100) 7 consent_new
      = (Inr demo_grant :: ((unit, unit) PrivacyError, u8 list consent_grant) result, demo_ledger)"
    by (simp add: consent_request_def privacy_require_def Let_def consent_new_def demo_ledger_def demo_grant_def)
  then show ?thesis
    by (rule consent_requested [OF consent_start, where verify = "\<lambda>bytes sg (_ :: unit). sg = bytes", simplified])
qed

theorem cloud_exactly_with_consent_witness:
  "route_capability_call demo_profile ''mail'' (ScopeDomain ''mail'') None True demo_ledger 3 50 = DispatchCloud 1
   \<and> \<not> (\<exists>i. route_capability_call demo_profile ''mail'' (ScopeDomain ''mail'') None True demo_ledger 3 101 = DispatchCloud i)"
proof -
  have tier: "tier_for demo_profile ''mail'' = CloudAssisted" by (simp add: tier_for_def demo_profile_def)
  have ledger: "hm_get (cl_grants demo_ledger) i = Some g \<longleftrightarrow> i = 1 \<and> g = demo_grant" for i g
    by (auto simp: demo_ledger_def)
  have fields: "cg_subject demo_grant = 3" "cg_scope demo_grant = ScopeDomain ''mail''" "cg_id demo_grant = 1"
    "grant_is_live demo_grant 50" "\<not> grant_is_live demo_grant 101"
    by (simp_all add: demo_grant_def grant_is_live_def)
  have "\<exists>i. route_capability_call demo_profile ''mail'' (ScopeDomain ''mail'') None True demo_ledger 3 50 = DispatchCloud i"
    using cloud_exactly_with_consent [OF demo_consent_run refl refl, of demo_profile "''mail''" "ScopeDomain ''mail''" None True 3 50]
      tier ledger fields by simp
  moreover have "i = 1" if "route_capability_call demo_profile ''mail'' (ScopeDomain ''mail'') None True demo_ledger 3 50 = DispatchCloud i" for i
    using cloud_exactly_with_consent [OF demo_consent_run refl refl, of demo_profile "''mail''" "ScopeDomain ''mail''" None True 3 50]
      that fields by simp
  moreover have "\<not> (\<exists>i. route_capability_call demo_profile ''mail'' (ScopeDomain ''mail'') None True demo_ledger 3 101 = DispatchCloud i)"
    using cloud_exactly_with_consent [OF demo_consent_run refl refl, of demo_profile "''mail''" "ScopeDomain ''mail''" None True 3 101]
      ledger fields by simp
  ultimately show ?thesis by blast
qed

theorem restricted_stays_local_witness:
  "filter_for_recipient [residency_tag_new 5 Restricted UNIV, residency_tag_new 6 Public UNIV] {5, 6} CloudAssisted
     = ([6], [(5, ''object's residency forbids tier CloudAssisted'')])
   \<and> forbids (residency_tag_new 5 Restricted UNIV) CloudAssisted"
proof -
  have f: "filter_for_recipient [residency_tag_new 5 Restricted UNIV, residency_tag_new 6 Public UNIV] {5, 6} CloudAssisted
     = ([6], [(5, ''object's residency forbids tier CloudAssisted'')])"
    by (simp add: residency_tag_new_def forbids_def tier_name_def)
  from restricted_stays_local [where sensitivity = Restricted and object_id = 5 and tiers = UNIV, OF refl f]
  have "forbids (residency_tag_new 5 Restricted UNIV) CloudAssisted" by blast
  with f show ?thesis by blast
qed

section \<open>What the signature does not cover\<close>

text \<open>
  The signed bytes hold the scope's name, the purpose and the expiry one after the other with no
  lengths between them.  So a signature also covers a grant whose scope is a prefix of the name, and,
  when the bytes of the expiry are those of a text, one that never expires.
\<close>

lemma consent_scope_forgeable:
  assumes "verify_grant verify g key" "cg_scope g = ScopeDomain (name @ rest)"
  shows "verify_grant verify (g\<lparr>cg_scope := ScopeDomain name, cg_purpose := rest @ cg_purpose g\<rparr>) key"
  using assms by (simp add: verify_grant_def grant_canonical_bytes_def consent_canonical_bytes_def as_bytes_def)

lemma consent_expiry_forgeable:
  assumes "verify_grant verify g key" "cg_expiry g = Some e" "to_le_bytes 8 e = as_bytes txt @ [0]"
  shows "verify_grant verify (g\<lparr>cg_expiry := None, cg_purpose := cg_purpose g @ CHR 0x01 # txt\<rparr>) key
    \<and> grant_is_live (g\<lparr>cg_expiry := None, cg_purpose := cg_purpose g @ CHR 0x01 # txt\<rparr>) now"
  using assms by (simp add: verify_grant_def grant_canonical_bytes_def consent_canonical_bytes_def as_bytes_def grant_is_live_def)

lemma expiry_of_text: "to_le_bytes 8 (0x65646362617A79 :: u64) = as_bytes ''yzabcde'' @ [0]"
  by code_simp

text \<open>Every ledger numbers its grants from one, and an import replaces the grant that has the number;
  a grant that was revoked can be imported again.\<close>

lemma import_replaces_and_revives:
  assumes "verify_grant verify g key" "check_rights_ok_result m t WRITE now = Inr ()"
  shows "consent_import verify m t now g key l = (Inr () :: (('g, 'r) PrivacyError, unit) result,
      l\<lparr>cl_grants := hm_insert (cg_id g) g (cl_grants l)\<rparr>)"
    "hm_get (cl_grants (snd (consent_import verify m t now g key
        (snd (consent_revoke m t now (cg_id g) l :: (('g, 'r) PrivacyError, unit) result \<times> 'sig consent_ledger))
        :: (('g, 'r) PrivacyError, unit) result \<times> 'sig consent_ledger))) (cg_id g) = Some g"
  using assms by (simp_all add: consent_import_def consent_revoke_def privacy_require_def)

end
