(* ===== verification/Erasure.thy ===== *)
theory Erasure
  imports Recovery_Safety Consent
begin

text \<open>
  Erasure, \<open>crates/hyperion-privacy/src/erasure.rs\<close>: soft deletion with a grace period kept by the
  recovery service, shredding of a node and its history, and the sweep that shreds lapsed soft
  deletions, over theories Knowledge_Graph and Recovery.
\<close>

declare map_of_eq_Some_iff [simp del] Some_eq_map_of_iff [simp del]

datatype ErasureMode = SoftDelete | CryptoShred

record erasure_receipt =
  er_object_ids :: "node_id list"
  er_mode :: ErasureMode
  er_completed_at :: "u64 option"
  er_grace_period_action :: "action_id option"

definition SOFT_DELETE_NOTE :: string where
  "SOFT_DELETE_NOTE = ''hyperion-privacy erase (soft-delete)''"

type_synonym ('ae, 'me) erasure_error = "(GraphError, ('ae, 'me) RecoveryError) PrivacyError"

definition erased_metadata :: "'j json_ops \<Rightarrow> 'j" where
  "erased_metadata js = js_object js [(''erased'', js_bool js True), (''mode'', js_str js ''SoftDelete'')]"

text \<open>One object: a placeholder over it, or a deletion and the purge of its history.\<close>

definition erase_object ::
    "('j, 'v) kg_env \<Rightarrow> 'j json_ops \<Rightarrow> (nat \<Rightarrow> kg_io) \<Rightarrow> capability_monitor \<Rightarrow> capability_token \<Rightarrow> ErasureMode
     \<Rightarrow> node_id \<Rightarrow> ('j, 'v) knowledge_graph
     \<Rightarrow> ((('ae, 'me) erasure_error, unit) result \<times> ('j, 'v) knowledge_graph) option" where
  "erase_object env js ios monitor token mode i g =
     (case mode of
        SoftDelete \<Rightarrow>
          map_option (\<lambda>(res, g). (case res of Inl e \<Rightarrow> Inl (PrivacyGraph e) | Inr _ \<Rightarrow> Inr (), g))
            (put_node env (ios 0) monitor token (Some i) ''Erased'' None (erased_metadata js) g)
      | CryptoShred \<Rightarrow>
          Option.bind (delete_node env (ios 0) monitor token i g) (\<lambda>(res, g).
            case res of
              Inl e \<Rightarrow> Some (Inl (PrivacyGraph e), g)
            | Inr _ \<Rightarrow>
                map_option (\<lambda>(res, g).
                    (case res of
                       Inr _ \<Rightarrow> Inr ()
                     | Inl e \<Rightarrow> if e = GraphNotFound then Inr () else Inl (PrivacyGraph e), g))
                  (purge_node_history env (ios 1) monitor token i g)))"

fun erase_objects ::
    "('j, 'v) kg_env \<Rightarrow> 'j json_ops \<Rightarrow> (nat \<Rightarrow> kg_io) \<Rightarrow> capability_monitor \<Rightarrow> capability_token \<Rightarrow> ErasureMode
     \<Rightarrow> node_id list \<Rightarrow> ('j, 'v) knowledge_graph
     \<Rightarrow> ((('ae, 'me) erasure_error, unit) result \<times> ('j, 'v) knowledge_graph) option" where
  "erase_objects env js ios monitor token mode [] g = Some (Inr (), g)"
| "erase_objects env js ios monitor token mode (i # is') g =
     Option.bind (erase_object env js ios monitor token mode i g) (\<lambda>(res, g).
       case res of
         Inl e \<Rightarrow> Some (Inl e, g)
       | Inr _ \<Rightarrow> erase_objects env js (\<lambda>k. ios (k + 2)) monitor token mode is' g)"

definition erase ::
    "('j, 'v) kg_env \<Rightarrow> 'j json_ops \<Rightarrow> instant \<Rightarrow> instant \<Rightarrow> (nat \<Rightarrow> instant) \<Rightarrow> (nat \<Rightarrow> kg_io) \<Rightarrow> capability_monitor
     \<Rightarrow> capability_token \<Rightarrow> node_id list \<Rightarrow> ErasureMode \<Rightarrow> u64
     \<Rightarrow> ('j, 'm) recovery_service \<Rightarrow> ('j, 'v) knowledge_graph
     \<Rightarrow> ((('ae, 'me) erasure_error, erasure_receipt) result
         \<times> ('j, 'm) recovery_service \<times> ('j, 'v) knowledge_graph) option" where
  "erase env js inst inst' nows ios monitor token object_ids mode now s g =
     (case privacy_require monitor token inst WRITE of
        Inl e \<Rightarrow> Some (Inl e, s, g)
      | Inr _ \<Rightarrow>
          (case (case mode of
                   SoftDelete \<Rightarrow>
                     (case recovery_point_create monitor token inst' nows UserRequested object_ids now g s of
                        (Inl e, s) \<Rightarrow> (Inl (PrivacyRecovery e), s)
                      | (Inr point_id, s) \<Rightarrow>
                          (case record_action_started point_id object_ids None SOFT_DELETE_NOTE now s of
                             (action, s) \<Rightarrow> (Inr (Some action), s)))
                 | CryptoShred \<Rightarrow> (Inr None, s)) of
             (Inl e, s) \<Rightarrow> Some (Inl e, s, g)
           | (Inr grace_period_action, s) \<Rightarrow>
               map_option (\<lambda>(res, g).
                 case res of
                   Inl e \<Rightarrow> (Inl e, s, g)
                 | Inr _ \<Rightarrow>
                     (case (case grace_period_action of
                              None \<Rightarrow> (Inr (), s)
                            | Some action \<Rightarrow> record_action_committed action s) of
                        (Inl e, s) \<Rightarrow> (Inl (PrivacyRecovery e), s, g)
                      | (Inr _, s) \<Rightarrow>
                          (Inr \<lparr>er_object_ids = object_ids, er_mode = mode, er_completed_at = Some now,
                                er_grace_period_action = grace_period_action\<rparr>, s, g)))
                 (erase_objects env js ios monitor token mode object_ids g)))"

text \<open>The best-effort shredding of one lapsed action's objects.\<close>

fun shred_objects ::
    "('j, 'v) kg_env \<Rightarrow> (nat \<Rightarrow> kg_io) \<Rightarrow> capability_monitor \<Rightarrow> capability_token \<Rightarrow> node_id list
     \<Rightarrow> ('j, 'v) knowledge_graph \<Rightarrow> ('j, 'v) knowledge_graph option" where
  "shred_objects env ios monitor token [] g = Some g"
| "shred_objects env ios monitor token (i # is') g =
     Option.bind (delete_node env (ios 0) monitor token i g) (\<lambda>(_, g).
       Option.bind (purge_node_history env (ios 1) monitor token i g) (\<lambda>(_, g).
         shred_objects env (\<lambda>k. ios (k + 2)) monitor token is' g))"

text \<open>Whether a record is a lapsed soft deletion of objects the caller can read.\<close>

definition lapsed ::
    "capability_monitor \<Rightarrow> capability_token \<Rightarrow> (node_id \<Rightarrow> instant) \<Rightarrow> u64 \<Rightarrow> u64
     \<Rightarrow> ('j, 'v) knowledge_graph \<Rightarrow> action_record \<Rightarrow> bool" where
  "lapsed monitor token nows now grace_period_secs g r \<longleftrightarrow>
     ar_status r = Committed \<and> ar_note r = SOFT_DELETE_NOTE
     \<and> grace_period_secs \<le> saturating_sub now (ar_created_at r)
     \<and> list_all (\<lambda>i. is_ok (kg_get monitor token (nows i) i g)) (ar_objects_touched r)"

fun sweep ::
    "('j, 'v) kg_env \<Rightarrow> (action_id \<Rightarrow> node_id \<Rightarrow> instant) \<Rightarrow> (action_id \<Rightarrow> nat \<Rightarrow> kg_io) \<Rightarrow> capability_monitor
     \<Rightarrow> capability_token \<Rightarrow> u64 \<Rightarrow> u64 \<Rightarrow> action_record list \<Rightarrow> ('j, 'm) recovery_service \<Rightarrow> ('j, 'v) knowledge_graph
     \<Rightarrow> (action_id list \<times> ('j, 'm) recovery_service \<times> ('j, 'v) knowledge_graph) option" where
  "sweep env nows ios monitor token now grace [] s g = Some ([], s, g)"
| "sweep env nows ios monitor token now grace (r # rs) s g =
     (if \<not> lapsed monitor token (nows (ar_action_id r)) now grace g r
      then sweep env nows ios monitor token now grace rs s g
      else case expire (ar_action_id r) s of
             (Inl (_ :: (unit, unit) RecoveryError), s) \<Rightarrow> sweep env nows ios monitor token now grace rs s g
           | (Inr _, s) \<Rightarrow>
               Option.bind (shred_objects env (ios (ar_action_id r)) monitor token (ar_objects_touched r) g) (\<lambda>g.
                 map_option (\<lambda>(is', s, g). (ar_action_id r # is', s, g))
                   (sweep env nows ios monitor token now grace rs s g)))"

definition expire_lapsed_soft_deletes ::
    "('j, 'v) kg_env \<Rightarrow> instant \<Rightarrow> (action_id \<Rightarrow> node_id \<Rightarrow> instant) \<Rightarrow> (action_id \<Rightarrow> nat \<Rightarrow> kg_io) \<Rightarrow> capability_monitor
     \<Rightarrow> capability_token \<Rightarrow> u64 \<Rightarrow> u64 \<Rightarrow> ('j, 'm) recovery_service \<Rightarrow> ('j, 'v) knowledge_graph
     \<Rightarrow> ((('ae, 'me) erasure_error, action_id list) result
         \<times> ('j, 'm) recovery_service \<times> ('j, 'v) knowledge_graph) option" where
  "expire_lapsed_soft_deletes env inst nows ios monitor token now grace_period_secs s g =
     (case privacy_require monitor token inst WRITE of
        Inl e \<Rightarrow> Some (Inl e, s, g)
      | Inr _ \<Rightarrow>
          map_option (\<lambda>(is', s, g). (Inr is', s, g))
            (sweep env nows ios monitor token now grace_period_secs (rv_actions s) s g))"

section \<open>A soft deletion can be undone\<close>

lemma erase_soft_view:
  assumes "erase_objects env js ios m t SoftDelete is' g = Some (Inr x :: (('ae, 'me) erasure_error, unit) result, g')"
  shows "view (ct_origin t) g' i =
    (if i \<in> set is' then (if buried g i then None else Some (''Erased'', None, erased_metadata js), buried g i)
     else view (ct_origin t) g i)"
  using assms
proof (induction is' arbitrary: ios g)
  case Nil
  then show ?case by simp
next
  case (Cons j is')
  from Cons.prems obtain y g1 where
    1: "erase_object env js ios m t SoftDelete j g = Some (Inr y :: (('ae, 'me) erasure_error, unit) result, g1)"
    and 2: "erase_objects env js (\<lambda>k. ios (k + 2)) m t SoftDelete is' g1 = Some (Inr x :: (('ae, 'me) erasure_error, unit) result, g')"
    by (auto simp: bind_eq_Some_conv)
  from 1 obtain r where "put_node env (ios 0) m t (Some j) ''Erased'' None (erased_metadata js) g = Some (Inr r, g1)"
    by (auto simp: erase_object_def)
  then obtain n where n: "kg_index g1 = index_apply j (Node n) (kg_index g)" "content n = (''Erased'', None, erased_metadata js)"
    "nr_owner n = ct_origin t" "nr_tombstone n = buried g j" by (rule put_node_Inr)
  have b1: "buried g1 k = buried g k" for k
    using n(1,4) by (simp add: buried_def index_apply_simps)
  have s1: "shown (ct_origin t) g1 k = (if k = j then if buried g j then None else Some (''Erased'', None, erased_metadata js)
      else shown (ct_origin t) g k)" for k
    using n by (simp add: shown_def index_apply_simps)
  show ?case using Cons.IH [OF 2] by (simp add: b1 s1)
qed

text \<open>The journal after a soft deletion: a recovery point with what the caller saw of the objects, and
  a committed action on it.\<close>

definition soft_action :: "('j, 'm) recovery_service \<Rightarrow> node_id list \<Rightarrow> u64 \<Rightarrow> action_record" where
  "soft_action s is' now = \<lparr>ar_action_id = rv_next_action_id s, ar_agent_run_id = None, ar_session_id = None,
     ar_goal_id = None, ar_recovery_point_before = rv_next_point_id s, ar_objects_touched = is', ar_status = Committed,
     ar_created_at = now, ar_note = SOFT_DELETE_NOTE\<rparr>"

lemma erase_soft_Inr:
  fixes g :: "('j, 'v) knowledge_graph"
  assumes "erase env js inst inst' nows ios m t is' SoftDelete now s g
      = Some (Inr receipt :: (('ae, 'me) erasure_error, erasure_receipt) result, s1, g1)"
    and ok: "journal_ok s"
  obtains snap where "snapshot_objects m t nows is' g = (Inr snap :: (('ae, 'me) RecoveryError, 'j snapshot) result)"
    "er_grace_period_action receipt = Some (rv_next_action_id s)"
    "rv_actions s1 = rv_actions s @ [soft_action s is' now]"
    "rv_snapshots s1 = hm_insert (rv_next_point_id s) snap (rv_snapshots s)"
    "erase_objects env js ios m t SoftDelete is' g = Some (Inr () :: (('ae, 'me) erasure_error, unit) result, g1)"
proof -
  from assms(1) have auth: "privacy_require m t inst WRITE = (Inr () :: (('ae, 'me) erasure_error, unit) result)"
    by (cases "privacy_require m t inst WRITE :: (('ae, 'me) erasure_error, unit) result") (simp_all add: erase_def)
  obtain r2 s2 where create: "recovery_point_create m t inst' nows UserRequested is' now g s
      = (r2 :: (('ae, 'me) RecoveryError, recovery_point_id) result, s2)" by (meson surj_pair)
  with assms(1) auth obtain p where r2: "r2 = Inr p" by (cases r2) (simp_all add: erase_def)
  with create obtain snap where snap: "snapshot_objects m t nows is' g = (Inr snap :: (('ae, 'me) RecoveryError, 'j snapshot) result)"
    and s2: "p = rv_next_point_id s" "rv_actions s2 = rv_actions s" "rv_next_action_id s2 = rv_next_action_id s"
      "rv_snapshots s2 = hm_insert (rv_next_point_id s) snap (rv_snapshots s)"
    by (auto simp: recovery_point_create_def Let_def split: sum.splits)
  let ?a = "soft_action s is' now"
  obtain s3 where start: "record_action_started p is' None SOFT_DELETE_NOTE now s2 = (rv_next_action_id s, s3)"
    and s3: "rv_actions s3 = rv_actions s @ [?a\<lparr>ar_status := InFlight\<rparr>]" "rv_snapshots s3 = rv_snapshots s2"
    using s2 by (simp add: record_action_started_def record_action_started_with_scope_def Let_def soft_action_def)
  have fresh: "rv_next_action_id s \<notin> ar_action_id ` set (rv_actions s)"
    using ok by (auto simp: journal_ok_def)
  have "find (\<lambda>a. ar_action_id a = rv_next_action_id s) (rv_actions s3) \<noteq> None"
  proof -
    have "?a\<lparr>ar_status := InFlight\<rparr> \<in> set (rv_actions s3)" unfolding s3 by simp
    moreover have "ar_action_id (?a\<lparr>ar_status := InFlight\<rparr>) = rv_next_action_id s" by (simp add: soft_action_def)
    ultimately show ?thesis unfolding find_None_iff by blast
  qed
  moreover have "update_first (\<lambda>a. ar_action_id a = rv_next_action_id s) (ar_status_update (\<lambda>_. Committed)) (xs @ [?a\<lparr>ar_status := InFlight\<rparr>])
      = xs @ [?a]" if "rv_next_action_id s \<notin> ar_action_id ` set xs" for xs
    using that by (induction xs) (auto simp: soft_action_def)
  ultimately have commit: "record_action_committed (rv_next_action_id s) s3
      = (Inr () :: (('ae, 'me) RecoveryError, unit) result, s3\<lparr>rv_actions := rv_actions s @ [?a]\<rparr>)"
    using fresh s3 by (auto simp: record_action_committed_def set_status_def)
  let ?receipt = "\<lparr>er_object_ids = is', er_mode = SoftDelete, er_completed_at = Some now,
    er_grace_period_action = Some (rv_next_action_id s)\<rparr>"
  obtain r4 g4 where loop: "erase_objects env js ios m t SoftDelete is' g = Some (r4 :: (('ae, 'me) erasure_error, unit) result, g4)"
  proof (cases "erase_objects env js ios m t SoftDelete is' g
      :: ((('ae, 'me) erasure_error, unit) result \<times> ('j, 'v) knowledge_graph) option")
    case None
    with assms(1) show ?thesis by (simp add: erase_def auth create r2 start)
  next
    case (Some q)
    then show ?thesis using that by (cases q) simp
  qed
  then have "r4 = Inr ()" "g4 = g1" "s1 = s3\<lparr>rv_actions := rv_actions s @ [?a]\<rparr>" "receipt = ?receipt"
    using assms(1) by (cases r4; simp add: erase_def auth create r2 start commit)+
  with that [OF snap] loop s2 s3 show ?thesis by simp
qed

text \<open>
  Claim C38: a soft deletion can be taken back.  Erase objects softly in any reachable state of the
  recovery service, then undo, with nothing in between, the action that the receipt names.  After the
  erasure every named object that had not been deleted before is shown as the placeholder only.  After
  an undo that reports success the type, the embedding and the metadata of every node of the graph are
  shown to the boundary exactly as before the erasure.  What the undo does not bring back is the
  node's tenant, origin and device: see \<open>restored_node_loses_provenance\<close>.
\<close>

theorem soft_delete_undo:
  assumes "recovery_run env js mem ag s g a"
    and "erase env js inst inst' nows ios m t is' SoftDelete now s g
      = Some (Inr receipt :: (('ae, 'me) erasure_error, erasure_receipt) result, s1, g1)"
    and "er_grace_period_action receipt = Some action"
    and "undo env inst2 nows2 ios2 m' t' (SingleAction action) s1 g1
      = Some (Inr (UndoTargeted ids) :: (('ae, 'me) RecoveryError, UndoReceipt) result, s2, g2)"
    and "ct_origin t' = ct_origin t"
  shows "(\<forall>i \<in> set is'. \<not> buried g i \<longrightarrow> shown (ct_origin t) g1 i = Some (''Erased'', None, erased_metadata js))
    \<and> (\<forall>i. shown (ct_origin t) g2 i = shown (ct_origin t) g i)"
proof -
  have ok: "journal_ok s" by (rule recovery_run_ok [OF assms(1)])
  from assms(2) ok obtain snap where snap: "snapshot_objects m t nows is' g = (Inr snap :: (('ae, 'me) RecoveryError, 'a snapshot) result)"
    and act: "action = rv_next_action_id s"
    and acts: "rv_actions s1 = rv_actions s @ [soft_action s is' now]"
    and snaps: "rv_snapshots s1 = hm_insert (rv_next_point_id s) snap (rv_snapshots s)"
    and loop: "erase_objects env js ios m t SoftDelete is' g = Some (Inr () :: (('ae, 'me) erasure_error, unit) result, g1)"
    using assms(3) by (auto elim: erase_soft_Inr)
  note g1 = erase_soft_view [OF loop]
  have "filter (\<lambda>a. ar_status a = Committed \<and> in_scope a (SingleAction action)) (rv_actions s) = []"
    using ok act by (auto simp: filter_empty_conv journal_ok_def)
  then have scoped: "filter (\<lambda>a. ar_status a = Committed \<and> in_scope a (SingleAction action)) (rv_actions s1) = [soft_action s is' now]"
    by (simp add: acts act soft_action_def)
  have sts: "undo_states (rv_snapshots s1) (newest_first [soft_action s is' now]) i = (if i \<in> set is' then states_of i snap else [])" for i
    by (simp add: newest_first_def undo_states_def snaps soft_action_def)
  have "shown (ct_origin t) g2 i = shown (ct_origin t) g i" for i
  proof -
    have g2: "shown (ct_origin t) g2 i = fst (fold restore_step (if i \<in> set is' then states_of i snap else []) (view (ct_origin t) g1 i))"
      using arg_cong [OF undo_view [OF assms(4), of i, unfolded scoped sts], of fst] assms(5) by simp
    show ?thesis
    proof (cases "i \<in> set is'")
      case False
      with g2 g1 [of i] show ?thesis by simp
    next
      case True
      then have "i \<in> fst ` set snap" using snapshot_objects_Inr(1) [OF snap] by (metis list.set_map)
      then have ne: "states_of i snap \<noteq> []" by (auto simp: states_of_def filter_empty_conv)
      have st: "map_option content x = shown (ct_origin t) g i" if "x \<in> set (states_of i snap)" for x
        using that snapshot_objects_Inr(2) [OF snap, of i x] by (auto simp: states_of_def)
      show ?thesis
      proof (cases "shown (ct_origin t) g i")
        case None
        with st [OF last_in_set [OF ne]] have "last (states_of i snap) = None" by simp
        with g2 True None fold_restore_last(1) [OF ne] show ?thesis by simp
      next
        case (Some c)
        then have "\<not> buried g i" by (auto simp: shown_def buried_def split: option.splits if_splits)
        then have "\<not> buried g1 i" using g1 [of i] True by simp
        moreover have "None \<notin> set (states_of i snap)" using st Some by force
        ultimately show ?thesis using g2 True Some st [OF last_in_set [OF ne]] fold_restore_last(3) [OF ne] by simp
      qed
    qed
  qed
  moreover have "shown (ct_origin t) g1 i = Some (''Erased'', None, erased_metadata js)" if "i \<in> set is'" "\<not> buried g i" for i
    using g1 [of i] that by simp
  ultimately show ?thesis by blast
qed

section \<open>A shredded object is gone\<close>

lemma store_record_engine:
  assumes "store_record env io m t id_arg expected record owner anc reply g = Some (Inr r, g')"
  shows "fst (kg_storage g') = commit_record
    (put_record t (fst (kg_storage g)) id_arg (rec_to_value (env_record env) record)) (allocate id_arg (fst (kg_storage g)))"
proof -
  obtain e f where s: "kg_storage g = (e, f)" by (cases "kg_storage g")
  obtain pr e' f' where put: "put_object (env_wal env) (io_nonce io) (io_append io) m t (io_now_storage io)
      id_arg expected (rec_to_value (env_record env) record) (e, f) = (pr, (e', f'))" by (metis surj_pair)
  with assms s obtain i v where pr: "pr = Inr (i, v)" by (cases pr) (auto simp: store_record_def)
  from assms put pr s publish_changed_keeps have "kg_storage g' = (e', f')"
    by (fastforce simp: store_record_def Let_def)
  moreover have "e' = commit_record (put_record t e id_arg (rec_to_value (env_record env) record)) (allocate id_arg e)"
    using put_object_storage [OF put] pr by simp
  ultimately show ?thesis using s by simp
qed

lemma delete_node_Inr:
  assumes "delete_node env io m t i g = Some (Inr (), g')"
  shows "j \<noteq> i \<Longrightarrow> hm_get (gi_nodes (kg_index g')) j = hm_get (gi_nodes (kg_index g)) j"
    "gi_edges (kg_index g') = gi_edges (kg_index g)"
    "\<exists>n. hm_get (gi_nodes (kg_index g)) i = Some n \<and> nr_owner n = ct_origin t"
    "\<exists>n. hm_get (gi_nodes (kg_index g')) i = Some n \<and> nr_owner n = ct_origin t"
    "j \<noteq> i \<Longrightarrow> kg_current_version g' j = kg_current_version g j"
proof -
  from assms obtain n where n: "hm_get (gi_nodes (kg_index g)) i = Some n" "nr_owner n = ct_origin t"
    by (auto simp: delete_node_def split: sum.splits option.splits if_splits)
  let ?n = "n\<lparr>nr_tombstone := True, nr_updated_at := io_wall_updated io\<rparr>"
  have "g' = g \<or> store_record env io m t (Some i) (current_version (fst (kg_storage g)) i) (Node ?n) (ct_origin t) [] (\<lambda>_. ()) g
      = Some (Inr (), g')"
    using assms n by (auto simp: delete_node_def split: sum.splits if_splits)
  then have *: "(j \<noteq> i \<longrightarrow> hm_get (gi_nodes (kg_index g')) j = hm_get (gi_nodes (kg_index g)) j)
    \<and> gi_edges (kg_index g') = gi_edges (kg_index g)
    \<and> (\<exists>n. hm_get (gi_nodes (kg_index g')) i = Some n \<and> nr_owner n = ct_origin t)
    \<and> (j \<noteq> i \<longrightarrow> kg_current_version g' j = kg_current_version g j)"
  proof
    assume "g' = g"
    then show ?thesis using n by simp
  next
    assume st: "store_record env io m t (Some i) (current_version (fst (kg_storage g)) i) (Node ?n) (ct_origin t) [] (\<lambda>_. ()) g
      = Some (Inr (), g')"
    from st have "kg_index g' = index_apply i (Node ?n) (kg_index g)"
      by (rule store_record_Inr) (simp add: put_target_def)
    moreover note store_record_engine [OF st]
    ultimately show ?thesis using n(2)
      by (auto simp: index_apply_simps kg_current_version_def current_version_def commit_record_def put_record_def
          allocate_def put_target_def)
  qed
  show "j \<noteq> i \<Longrightarrow> hm_get (gi_nodes (kg_index g')) j = hm_get (gi_nodes (kg_index g)) j"
    "gi_edges (kg_index g') = gi_edges (kg_index g)"
    "\<exists>n. hm_get (gi_nodes (kg_index g)) i = Some n \<and> nr_owner n = ct_origin t"
    "\<exists>n. hm_get (gi_nodes (kg_index g')) i = Some n \<and> nr_owner n = ct_origin t"
    "j \<noteq> i \<Longrightarrow> kg_current_version g' j = kg_current_version g j" using * n by blast+
qed

lemma purge_node_current:
  assumes "purge_node_history env io m t i g = Some (Inr k, g')"
  shows "kg_current_version g' j = (if j = i then None else kg_current_version g j)"
proof -
  obtain e f e' f' where s: "kg_storage g = (e, f)" "kg_storage g' = (e', f')" by (meson surj_pair)
  from purge_object_storage [OF purge_node_Inr(1) [OF assms, unfolded s]] obtain w where "e' = purge_engine w i e" by auto
  then show ?thesis using s by (simp add: kg_current_version_def current_version_def purge_engine_def)
qed

text \<open>Shredding one object is a deletion and a purge, both of which succeed.\<close>

lemma shred_object_Inr:
  assumes "erase_object env js ios m t CryptoShred i g = Some (Inr x :: (('ae, 'me) erasure_error, unit) result, g')"
  obtains g1 k where "delete_node env (ios 0) m t i g = Some (Inr (), g1)"
    "purge_node_history env (ios 1) m t i g1 = Some (Inr k, g')"
proof -
  from assms obtain g1 where del: "delete_node env (ios 0) m t i g = Some (Inr (), g1)"
    by (auto simp: erase_object_def bind_eq_Some_conv)
  with assms obtain res where purge: "purge_node_history env (ios 1) m t i g1 = Some (res, g')"
    and res: "(\<exists>k. res = Inr k) \<or> res = Inl GraphNotFound" by (auto simp: erase_object_def)
  from delete_node_Inr(4) [OF del] obtain n where n: "hm_get (gi_nodes (kg_index g1)) i = Some n" "nr_owner n = ct_origin t" by blast
  have "res \<noteq> Inl GraphNotFound"
    using purge n by (auto simp: purge_node_history_def require_def map_err_def Let_def split: sum.splits prod.splits)
  with res purge del that show ?thesis by blast
qed

text \<open>Room for a number of changes.\<close>

definition spare :: "nat \<Rightarrow> ('j, 'v) knowledge_graph \<Rightarrow> bool" where
  "spare k g \<longleftrightarrow>
     unat (se_next_object_id (fst (kg_storage g))) + k < 2 ^ 64 - 1
     \<and> unat (se_next_version_id (fst (kg_storage g))) + k < 2 ^ 64 - 1"

lemma spare_has_next: "spare k g \<Longrightarrow> has_next g"
  by (auto simp: spare_def unat_max_word)

lemma spare_change: "spare (Suc k) g \<Longrightarrow> change env b X io g g' \<Longrightarrow> spare k g'"
  by (drule change_counters) (auto simp: spare_def counters_after_def)

lemma shred_object_refines:
  assumes "erase_object env js ios m t CryptoShred i g = Some (Inr x :: (('ae, 'me) erasure_error, unit) result, g')"
    "kg_refines env g rs" "record_codec_ok (env_record env)" "se_encryption_key (fst (kg_storage g)) = key"
    "\<forall>k. io_good key (ios k)" "spare (2 + k) g" "hm_get (gi_edges (kg_index g)) i = None"
  shows "\<exists>rs'. kg_refines env g' rs'" "se_encryption_key (fst (kg_storage g')) = key" "spare k g'"
    "gi_edges (kg_index g') = gi_edges (kg_index g)"
    "hm_get (gi_nodes (kg_index g')) j = (if j = i then None else hm_get (gi_nodes (kg_index g)) j)"
    "kg_current_version g' j = (if j = i then None else kg_current_version g j)"
    "\<exists>n. hm_get (gi_nodes (kg_index g)) i = Some n"
proof -
  from assms(1) obtain g1 k' where del: "delete_node env (ios 0) m t i g = Some (Inr (), g1)"
    and purge: "purge_node_history env (ios 1) m t i g1 = Some (Inr k', g')" by (rule shred_object_Inr)
  note d = delete_node_Inr [OF del] and p = purge_node_Inr [OF purge] purge_node_current [OF purge]
  note ch1 = delete_node_change [OF del] and ch2 = purge_node_change [OF purge]
  have spare: "spare (Suc k) g1" "spare k g'"
    using spare_change [OF _ ch1, of "Suc k"] spare_change [OF _ ch2, of k] assms(6) by simp_all
  from change_refines [OF ch1 assms(2-4) _ spare_has_next [OF assms(6)]] assms(5)
  obtain rs1 where rs1: "kg_refines env g1 rs1" "se_encryption_key (fst (kg_storage g1)) = key" by auto
  have "\<forall>i' \<in> {i}. hm_get (gi_edges (kg_index g1)) i' = None" using d(2) assms(7) by simp
  from change_refines [OF ch2 rs1(1) assms(3) rs1(2) _ spare_has_next [OF spare(1)] this] assms(5)
  show "\<exists>rs'. kg_refines env g' rs'" "se_encryption_key (fst (kg_storage g')) = key" by auto
  show "spare k g'" by (rule spare)
  show "gi_edges (kg_index g') = gi_edges (kg_index g)" using p(2) d(2) by simp
  show "hm_get (gi_nodes (kg_index g')) j = (if j = i then None else hm_get (gi_nodes (kg_index g)) j)"
    using p(2) d(1) by simp
  show "kg_current_version g' j = (if j = i then None else kg_current_version g j)" using p(3) d(5) by simp
  show "\<exists>n. hm_get (gi_nodes (kg_index g)) i = Some n" using d(3) by blast
qed

lemma shred_objects_refines:
  assumes "erase_objects env js ios m t CryptoShred is' g = Some (Inr x :: (('ae, 'me) erasure_error, unit) result, g')"
    "kg_refines env g rs" "record_codec_ok (env_record env)" "se_encryption_key (fst (kg_storage g)) = key"
    "\<forall>k. io_good key (ios k)" "spare (2 * length is') g" "\<forall>i \<in> set is'. hm_get (gi_edges (kg_index g)) i = None"
  shows "(\<exists>rs'. kg_refines env g' rs') \<and> se_encryption_key (fst (kg_storage g')) = key
    \<and> hm_get (gi_nodes (kg_index g')) j = (if j \<in> set is' then None else hm_get (gi_nodes (kg_index g)) j)
    \<and> kg_current_version g' j = (if j \<in> set is' then None else kg_current_version g j)"
  using assms
proof (induction is' arbitrary: ios g rs)
  case Nil
  then show ?case by auto
next
  case (Cons i is')
  from Cons.prems(1) obtain y g1 where
    1: "erase_object env js ios m t CryptoShred i g = Some (Inr y :: (('ae, 'me) erasure_error, unit) result, g1)"
    and 2: "erase_objects env js (\<lambda>k. ios (k + 2)) m t CryptoShred is' g1 = Some (Inr x :: (('ae, 'me) erasure_error, unit) result, g')"
    by (auto simp: bind_eq_Some_conv)
  have spare: "spare (2 + 2 * length is') g" and edge: "hm_get (gi_edges (kg_index g)) i = None" using Cons.prems(6,7) by simp_all
  note s = shred_object_refines [OF 1 Cons.prems(2-5) spare edge]
  from s(1) obtain rs1 where "kg_refines env g1 rs1" by blast
  from Cons.IH [OF 2 this Cons.prems(3) s(2) _ s(3)] Cons.prems(5,7) s(4)
  have ih: "(\<exists>rs'. kg_refines env g' rs') \<and> se_encryption_key (fst (kg_storage g')) = key
    \<and> hm_get (gi_nodes (kg_index g')) j = (if j \<in> set is' then None else hm_get (gi_nodes (kg_index g1)) j)
    \<and> kg_current_version g' j = (if j \<in> set is' then None else kg_current_version g1 j)" by simp
  then show ?case using s(5,6) [of j] by auto
qed

lemma erase_shred_Inr:
  assumes "erase env js inst inst' nows ios m t is' CryptoShred now s g
      = Some (Inr receipt :: (('ae, 'me) erasure_error, erasure_receipt) result, s', g')"
  shows "s' = s \<and> erase_objects env js ios m t CryptoShred is' g = Some (Inr () :: (('ae, 'me) erasure_error, unit) result, g')"
proof -
  have auth: "privacy_require m t inst WRITE = (Inr () :: (('ae, 'me) erasure_error, unit) result)"
    using assms by (cases "privacy_require m t inst WRITE :: (('ae, 'me) erasure_error, unit) result") (simp_all add: erase_def)
  obtain r4 g4 where loop: "erase_objects env js ios m t CryptoShred is' g = Some (r4 :: (('ae, 'me) erasure_error, unit) result, g4)"
    using assms auth by (auto simp: erase_def)
  then have "r4 = Inr () \<and> g4 = g' \<and> s' = s" using assms auth by (cases r4) (simp_all add: erase_def)
  with loop show ?thesis by simp
qed

text \<open>
  Claim C37: shredding leaves nothing.  On a graph that started from an empty file, when a call to shred objects
  returns without an error, none of them has a node or a version left, the log's file replays to
  records none of which is of a shredded object, every other node is as it was, and nothing was
  journaled from which the erasure could be undone.
\<close>

theorem crypto_shred_erases:
  assumes "codec_ok (env_wal env)" "record_codec_ok (env_record env)"
    and "kg_open_impl env None key = Inr g0" "kg_run env (well_behaved key) g0 g"
    and "erase env js inst inst' nows ios m t is' CryptoShred now s g
      = Some (Inr receipt :: (('ae, 'me) erasure_error, erasure_receipt) result, s', g')"
    and "\<forall>k. io_good key (ios k)" "spare (2 * length is') g" "\<forall>i \<in> set is'. hm_get (gi_edges (kg_index g)) i = None"
  shows "s' = s
    \<and> (\<forall>j. hm_get (gi_nodes (kg_index g')) j = (if j \<in> set is' then None else hm_get (gi_nodes (kg_index g)) j))
    \<and> (\<forall>i \<in> set is'. kg_current_version g' i = None)
    \<and> (\<exists>rs. replay_lines (env_wal env) key (Some (snd (kg_storage g'))) = Inr rs \<and> (\<forall>r \<in> set rs. wr_object_id r \<notin> set is'))"
proof -
  from erase_shred_Inr [OF assms(5)] have s': "s' = s"
    and loop: "erase_objects env js ios m t CryptoShred is' g = Some (Inr () :: (('ae, 'me) erasure_error, unit) result, g')" by simp_all
  from opened_run_refines [OF assms(1-4)] obtain rs0 where "kg_refines env g rs0"
    and key: "se_encryption_key (fst (kg_storage g)) = key" by blast
  note all = shred_objects_refines [OF loop this(1) assms(2) key assms(6-8)]
  then obtain rs where rs: "kg_refines env g' rs" and key': "se_encryption_key (fst (kg_storage g')) = key" by blast
  obtain e f where s: "kg_storage g' = (e, f)" by (cases "kg_storage g'")
  have er: "engine_refines (env_wal env) (e, f) rs" using rs s by (simp add: kg_refines_def)
  have "replay_lines (env_wal env) key (Some (snd (kg_storage g'))) = Inr rs"
    using er key' s by (simp add: engine_refines_def replay_log_file)
  moreover have "wr_object_id r \<notin> set is'" if "r \<in> set rs" for r
  proof
    assume i: "wr_object_id r \<in> set is'"
    then have "view_pointer rs (wr_object_id r) = None"
      using all [of "wr_object_id r"] er s by (simp add: kg_current_version_def current_version_def engine_refines_def engine_views_def)
    with that show False by (auto simp: view_pointer_def head_of_def find_None_iff)
  qed
  ultimately show ?thesis using all s' by auto
qed


section \<open>The sweep of lapsed soft deletions\<close>

lemma expire_Inr:
  assumes "expire i s = (Inr x, s')" "distinct (map ar_action_id (rv_actions s))"
  shows "rv_actions s' = mark [i] Expired (rv_actions s)"
  using assms by (auto simp: expire_def update_first_mark split: option.splits if_splits)

lemma sweep_actions:
  assumes "sweep env nows ios m t now grace rs s g = Some (ids, s', g')" "distinct (map ar_action_id (rv_actions s))"
  shows "rv_actions s' = mark ids Expired (rv_actions s)
    \<and> (\<forall>i \<in> set ids. \<exists>r \<in> set rs. ar_action_id r = i \<and> ar_status r = Committed \<and> ar_note r = SOFT_DELETE_NOTE
        \<and> grace \<le> saturating_sub now (ar_created_at r))"
  using assms
proof (induction rs arbitrary: ids s g)
  case Nil
  then show ?case by (simp add: mark_def)
next
  case (Cons r rs)
  show ?case
  proof (cases "lapsed m t (nows (ar_action_id r)) now grace g r")
    case False
    with Cons show ?thesis by auto
  next
    case True
    obtain r1 s1 where ex: "expire (ar_action_id r) s = (r1 :: ((unit, unit) RecoveryError, unit) result, s1)" by (meson surj_pair)
    show ?thesis
    proof (cases r1)
      case (Inl e)
      with ex have "s1 = s" by (auto simp: expire_def split: option.splits if_splits)
      with Inl ex True Cons show ?thesis by auto
    next
      case (Inr u)
      with ex True Cons.prems(1) obtain g1 ids1 where
        "sweep env nows ios m t now grace rs s1 g1 = Some (ids1, s', g')" and ids: "ids = ar_action_id r # ids1"
        by (auto simp: bind_eq_Some_conv)
      moreover have s1: "rv_actions s1 = mark [ar_action_id r] Expired (rv_actions s)"
        using expire_Inr [OF ex [unfolded Inr] Cons.prems(2)] .
      moreover from this Cons.prems(2) have "distinct (map ar_action_id (rv_actions s1))" by (simp add: mark_ids)
      ultimately have "rv_actions s' = mark ids1 Expired (mark [ar_action_id r] Expired (rv_actions s))
        \<and> (\<forall>i \<in> set ids1. \<exists>r \<in> set rs. ar_action_id r = i \<and> ar_status r = Committed \<and> ar_note r = SOFT_DELETE_NOTE
            \<and> grace \<le> saturating_sub now (ar_created_at r))"
        using Cons.IH by metis
      with True ids mark_Cons [of "ar_action_id r" ids1 Expired "rv_actions s"] show ?thesis by (auto simp: lapsed_def)
    qed
  qed
qed

lemma sweep_next:
  "sweep env nows ios m t now grace rs s g = Some (ids, s', g') \<Longrightarrow> rv_next_action_id s' = rv_next_action_id s"
proof (induction rs arbitrary: ids s g)
  case (Cons r rs)
  show ?case
  proof (cases "lapsed m t (nows (ar_action_id r)) now grace g r")
    case True
    obtain res s1 where ex: "expire (ar_action_id r) s = (res :: ((unit, unit) RecoveryError, unit) result, s1)"
      by (meson surj_pair)
    then have "rv_next_action_id s1 = rv_next_action_id s"
      by (auto simp: expire_def split: option.splits if_splits)
    moreover obtain ids1 g1 where "sweep env nows ios m t now grace rs s1 g1 = Some (ids1, s', g')"
      using Cons.prems True ex by (auto simp: bind_eq_Some_conv split: sum.splits)
    ultimately show ?thesis using Cons.IH by metis
  qed (use Cons in simp)
qed simp

lemma swept_over:
  assumes "journal_ok s" "sweep env nows ios m t now grace (rv_actions s) s g = Some (ids, s', g')"
  shows "over (set ids) s'"
proof -
  have dist: "distinct (map ar_action_id (rv_actions s))" using assms(1) by (simp add: journal_ok_def)
  note sw = sweep_actions [OF assms(2) dist]
  have "i < rv_next_action_id s" if "i \<in> set ids" for i
    using that sw assms(1) unfolding journal_ok_def by fastforce
  then show ?thesis using sw by (auto simp: over_def mark_def sweep_next [OF assms(2)])
qed

text \<open>
  Claim C39: a lapsed soft deletion is final, as long as nobody records it as committed again.  In
  every reachable state of the recovery service the sweep expires only committed soft deletions whose
  grace period is over, and changes no other action.  Whatever calls are made on the service
  afterwards, short of \<open>record_action_committed\<close> for an action the sweep has expired, no undo
  and no redo, of any scope by any token on any graph, names one of these actions.
\<close>

theorem lapsed_sweep_seals:
  assumes "recovery_run env js mem ag s g a"
    and "expire_lapsed_soft_deletes env inst nows ios m t now grace s g
      = Some (Inr ids :: (('ae, 'me) erasure_error, action_id list) result, s', g')"
    and "recovery_later env js mem ag (set ids) s' g' a s1 g1 a1"
  shows "(\<forall>i \<in> set ids. \<exists>r \<in> set (rv_actions s). ar_action_id r = i \<and> ar_status r = Committed
        \<and> ar_note r = SOFT_DELETE_NOTE \<and> grace \<le> saturating_sub now (ar_created_at r))
    \<and> rv_actions s' = map (\<lambda>r. if ar_action_id r \<in> set ids then r\<lparr>ar_status := Expired\<rparr> else r) (rv_actions s)
    \<and> (undo env' inst' nows' ios' m' t' scope s1 g'' = Some (Inr (UndoTargeted us) :: (('ae, 'me) RecoveryError, UndoReceipt) result, s2, g2)
        \<longrightarrow> set us \<inter> set ids = {})
    \<and> (redo env' inst' ios' m' t' scope s1 g'' = Some (Inr (RedoTargeted rs) :: (('ae, 'me) RecoveryError, RedoReceipt) result, s2, g2)
        \<longrightarrow> set rs \<inter> set ids = {})"
proof -
  have ok: "journal_ok s" by (rule recovery_run_ok [OF assms(1)])
  then have dist: "distinct (map ar_action_id (rv_actions s))" by (simp add: journal_ok_def)
  from assms(2) have sweep: "sweep env nows ios m t now grace (rv_actions s) s g = Some (ids, s', g')"
    by (auto simp: expire_lapsed_soft_deletes_def split: sum.splits)
  note sw = sweep_actions [OF sweep dist]
  then have acts: "rv_actions s' = map (\<lambda>r. if ar_action_id r \<in> set ids then r\<lparr>ar_status := Expired\<rparr> else r) (rv_actions s)"
    by (simp add: mark_def)
  have over: "over (set ids) s1" by (rule over_later [OF assms(3) swept_over [OF ok sweep]])
  have "set us \<inter> set ids = {}"
    if u: "undo env' inst' nows' ios' m' t' scope s1 g'' = Some (Inr (UndoTargeted us) :: (('ae, 'me) RecoveryError, UndoReceipt) result, s2, g2)"
  proof -
    from u have "us = map ar_action_id (newest_first (filter (\<lambda>a. ar_status a = Committed \<and> in_scope a scope) (rv_actions s1)))"
      by (rule undo_Targeted) simp
    with over show ?thesis by (fastforce simp: mem_newest_first over_def)
  qed
  moreover have "set rs \<inter> set ids = {}"
    if u: "redo env' inst' ios' m' t' scope s1 g'' = Some (Inr (RedoTargeted rs) :: (('ae, 'me) RecoveryError, RedoReceipt) result, s2, g2)"
  proof -
    from u have "rs = map ar_action_id (sort_key ar_created_at (filter (\<lambda>a. ar_status a = Undone \<and> in_scope a scope) (rv_actions s1)))"
      by (auto simp: redo_def Let_def neq_Inr_unit split: sum.splits if_splits)
    with over show ?thesis by (fastforce simp: over_def)
  qed
  ultimately show ?thesis using sw acts by blast
qed

text \<open>
  Recording an expired action as committed is not refused: the action is back among those that an undo
  of it starts from.
\<close>

lemma recommit_reopens_expired:
  assumes "journal_ok s" "r \<in> set (rv_actions s)" "ar_status r = Expired"
  shows "\<exists>s'. record_action_committed (ar_action_id r) s = (Inr () :: (('ae, 'me) RecoveryError, unit) result, s')
    \<and> filter (\<lambda>a. ar_status a = Committed \<and> in_scope a (SingleAction (ar_action_id r))) (rv_actions s')
        = [r\<lparr>ar_status := Committed\<rparr>]"
proof -
  have dist: "distinct (map ar_action_id (rv_actions s))" using assms(1) by (simp add: journal_ok_def)
  obtain x where x: "find (\<lambda>a. ar_action_id a = ar_action_id r) (rv_actions s) = Some x"
    using assms(2) by (cases "find (\<lambda>a. ar_action_id a = ar_action_id r) (rv_actions s)") (auto simp: find_None_iff)
  obtain s' where s': "record_action_committed (ar_action_id r) s = (Inr () :: (('ae, 'me) RecoveryError, unit) result, s')"
    "rv_actions s' = mark [ar_action_id r] Committed (rv_actions s)"
    using x dist by (auto simp: record_action_committed_def set_status_def update_first_mark)
  have "filter (\<lambda>a. ar_status a = Committed \<and> ar_action_id a = ar_action_id r) (mark [ar_action_id r] Committed xs) = [r\<lparr>ar_status := Committed\<rparr>]"
    if "r \<in> set xs" "distinct (map ar_action_id xs)" for xs
    using that
  proof (induction xs)
    case (Cons y ys)
    have none: "filter (\<lambda>a. ar_status a = Committed \<and> ar_action_id a = ar_action_id r) (mark [ar_action_id r] Committed ys) = []"
      if "y = r" using that Cons.prems by (auto simp: mark_def filter_empty_conv image_iff)
    show ?case
    proof (cases "y = r")
      case True
      with none show ?thesis by (simp add: mark_def)
    next
      case False
      with Cons.prems have "ar_action_id y \<noteq> ar_action_id r" by auto
      with False Cons show ?thesis by (simp add: mark_def)
    qed
  qed simp
  from this [OF assms(2) dist] s' show ?thesis by simp
qed

text \<open>
  What the sweep does not reach.  The recovery point of an expired erasure still holds the content;
  restoring to the point writes it back, since the purged node has left no tombstone.
\<close>

lemma erased_content_restorable:
  assumes "restore_to env inst ios m t p s g = Some (Inr x :: (('ae, 'me) RecoveryError, unit) result, g')"
    "hm_get (rv_snapshots s) p = Some [(i, Some n)]" "hm_get (gi_nodes (kg_index g)) i = None"
  shows "shown (ct_origin t) g' i = Some (content n)"
proof -
  from assms(1,2) have "apply_snapshot env ios m t [(i, Some n)] [i] g = Some (Inr x :: (('ae, 'me) RecoveryError, unit) result, g')"
    by (auto simp: restore_to_def restore_objects_def split: sum.splits)
  from arg_cong [OF apply_snapshot_view [OF this, of i], of fst] assms(3) show ?thesis
    by (simp add: states_of_def buried_def)
qed

section \<open>A small erasure, for the witnesses\<close>

definition demo_json :: "nat json_ops" where
  "demo_json = \<lparr>js_object = (\<lambda>_. 4), js_str = (\<lambda>_. 0), js_u64 = (\<lambda>_. 0), js_bool = (\<lambda>_. 0), js_null = 0,
     js_get = (\<lambda>_ _. None), js_as_str = (\<lambda>_. None), js_as_u64 = (\<lambda>_. None)\<rparr>"

definition demo_soft :: "ActionStatus \<Rightarrow> (nat, unit) recovery_service" where
  "demo_soft st = demo_journal\<lparr>rv_actions := map (ar_note_update (\<lambda>_. SOFT_DELETE_NOTE)) (rv_actions (demo_with_status st))\<rparr>"

definition demo_receipt :: erasure_receipt where
  "demo_receipt = \<lparr>er_object_ids = [0], er_mode = SoftDelete, er_completed_at = Some 10, er_grace_period_action = Some 1\<rparr>"

definition demo_erased :: "(nat, nat Record) knowledge_graph" where
  "demo_erased = snd (the (put_node demo_any_env demo_kg_io demo_monitor demo_root (Some 0) ''Erased'' None 4 (demo_graph 1)))"

lemma demo_erase_put:
  "put_node demo_any_env demo_kg_io demo_monitor demo_root (Some 0) ''Erased'' None 4 (demo_graph (Suc 0)) = Some (Inr 0, demo_erased)"
  by (simp add: demo_erased_def demo_recovery_defs Let_def)

lemma demo_soft_delete:
  "erase demo_any_env demo_json 0 0 (\<lambda>_. 0) (\<lambda>_. demo_kg_io) demo_monitor demo_root [0] SoftDelete 10
      (recovery_new_with_memory None) (demo_graph 1)
    = Some (Inr demo_receipt :: (('ae, 'me) erasure_error, erasure_receipt) result, demo_soft Committed, demo_erased)"
  by (simp add: erase_def privacy_require_def demo_authorized recovery_point_create_def recovery_require_def demo_snapshot
      recovery_new_with_memory_def record_action_started_def record_action_started_with_scope_def record_action_committed_def
      set_status_def erase_object_def erased_metadata_def demo_json_def demo_erase_put demo_soft_def demo_journal_def
      demo_with_status_def demo_receipt_def del: snapshot_objects.simps)

lemma demo_soft_undo:
  "\<exists>s2 g2. undo demo_any_env 0 (\<lambda>_ _. 0) (\<lambda>_ _. demo_kg_io) demo_monitor demo_root (SingleAction 1) (demo_soft Committed) demo_erased
     = Some (Inr (UndoTargeted [1]) :: (('ae, 'me) RecoveryError, UndoReceipt) result, s2, g2)"
  by (simp add: demo_soft_def demo_with_status_def demo_journal_def demo_erased_def demo_recovery_defs Let_def)

lemma demo_shown: "shown 7 (demo_graph 1) 0 = Some (''doc'', None, 3)" "\<not> buried (demo_graph 1) 0"
  by (simp_all add: shown_def buried_def content_def demo_recovery_defs)

theorem soft_delete_undo_witness:
  "\<exists>g2. (\<exists>s2. undo demo_any_env 0 (\<lambda>_ _. 0) (\<lambda>_ _. demo_kg_io) demo_monitor demo_root (SingleAction 1) (demo_soft Committed) demo_erased
       = Some (Inr (UndoTargeted [1]) :: ((unit, unit) RecoveryError, UndoReceipt) result, s2, g2))
     \<and> shown 7 demo_erased 0 = Some (''Erased'', None, 4) \<and> shown 7 g2 0 = Some (''doc'', None, 3)"
proof -
  obtain s2 g2 where u: "undo demo_any_env 0 (\<lambda>_ _. 0) (\<lambda>_ _. demo_kg_io) demo_monitor demo_root (SingleAction 1)
      (demo_soft Committed) demo_erased = Some (Inr (UndoTargeted [1]) :: ((unit, unit) RecoveryError, UndoReceipt) result, s2, g2)"
    using demo_soft_undo by blast
  have g: "er_grace_period_action demo_receipt = Some 1" by (simp add: demo_receipt_def)
  from soft_delete_undo [OF run_new demo_soft_delete g u refl] demo_shown have
    "shown (ct_origin demo_root) demo_erased 0 = Some (''Erased'', None, erased_metadata demo_json)"
    "shown (ct_origin demo_root) g2 0 = shown (ct_origin demo_root) (demo_graph 1) 0" by simp_all
  with u demo_shown show ?thesis by (auto simp: demo_origin_7 erased_metadata_def demo_json_def)
qed

lemma demo_soft_run:
  fixes env :: "(nat, nat Record) kg_env"
  shows "recovery_run env js mem (ag :: ('a, 'i, 'ae) agent_ops) (demo_soft Committed) g a"
proof -
  obtain s1 where s1: "recovery_point_create demo_monitor demo_root 0 (\<lambda>_. 0) UserRequested [0] 10 (demo_graph 1)
      (recovery_new_with_memory None) = (Inr 1 :: (('ae, 'b) RecoveryError, recovery_point_id) result, s1)"
    "s1 = demo_journal\<lparr>rv_actions := [], rv_next_action_id := 1\<rparr>"
    by (simp add: recovery_point_create_def recovery_require_def demo_snapshot recovery_new_with_memory_def
        demo_journal_def demo_authorized del: snapshot_objects.simps)
  have r1: "recovery_run env js mem ag s1 (demo_graph 1) a" by (rule run_step [OF run_new step_create [OF s1(1)]])
  have "record_action_started_with_scope 1 [0] None None None SOFT_DELETE_NOTE 10 s1 = (1, demo_soft InFlight)"
    by (simp add: record_action_started_with_scope_def s1(2) demo_journal_def demo_with_status_def demo_soft_def)
  from run_step [OF run_step [OF r1 step_started [OF _ this]] step_elsewhere] have open_run: "recovery_run env js mem ag (demo_soft InFlight) g a" by (simp add: s1(2))
  have "record_action_committed 1 (demo_soft InFlight) = (Inr () :: (('ae, 'b) RecoveryError, unit) result, demo_soft Committed)"
    by (simp add: record_action_committed_def set_status_def demo_with_status_def demo_journal_def demo_soft_def)
  from run_step [OF open_run step_committed [OF this]] show ?thesis .
qed

text \<open>With no event bus behind the graph, no operation waits.\<close>

lemma delete_node_quiet:
  "kg_events g = None \<Longrightarrow> \<exists>r g'. delete_node env io m t i g = Some (r, g') \<and> kg_events g' = None"
  by (auto simp: delete_node_def store_record_def publish_changed_def split: sum.splits option.splits prod.splits)

lemma purge_node_quiet:
  "kg_events g = None \<Longrightarrow> \<exists>r g'. purge_node_history env io m t i g = Some (r, g') \<and> kg_events g' = None"
  by (auto simp: purge_node_history_def publish_changed_def Let_def split: sum.splits option.splits prod.splits)

lemma shred_objects_quiet:
  "kg_events g = None \<Longrightarrow> \<exists>g'. shred_objects env ios m t is' g = Some g' \<and> kg_events g' = None"
proof (induction is' arbitrary: g ios)
  case (Cons i is')
  from delete_node_quiet [OF Cons.prems] obtain r1 g1 where 1: "delete_node env (ios 0) m t i g = Some (r1, g1)" "kg_events g1 = None" by blast
  from purge_node_quiet [OF this(2)] obtain r2 g2 where "purge_node_history env (ios 1) m t i g1 = Some (r2, g2)" "kg_events g2 = None" by blast
  with 1 Cons.IH show ?case by simp
qed simp

lemma demo_sweep:
  "\<exists>g'. expire_lapsed_soft_deletes demo_any_env 0 (\<lambda>_ _. 0) (\<lambda>_ _. demo_kg_io) demo_monitor demo_root 100 30 (demo_soft Committed) demo_erased
     = Some (Inr [1] :: (('ae, 'me) erasure_error, action_id list) result, demo_soft Expired, g')"
proof -
  have "kg_events demo_erased = None" by (simp add: demo_erased_def demo_recovery_defs Let_def)
  then obtain g' where g': "shred_objects demo_any_env (\<lambda>_. demo_kg_io) demo_monitor demo_root [0] demo_erased = Some g'"
    using shred_objects_quiet by blast
  have "lapsed demo_monitor demo_root (\<lambda>_. 0) 100 30 demo_erased (hd (rv_actions (demo_soft Committed)))"
    by (simp add: lapsed_def saturating_sub_def demo_soft_def demo_with_status_def demo_journal_def demo_erased_def demo_recovery_defs Let_def)
  with g' show ?thesis
    by (simp add: expire_lapsed_soft_deletes_def privacy_require_def demo_authorized expire_def
        demo_soft_def demo_with_status_def demo_journal_def del: shred_objects.simps)
qed

theorem lapsed_sweep_seals_witness:
  "\<exists>g'. expire_lapsed_soft_deletes demo_any_env 0 (\<lambda>_ _. 0) (\<lambda>_ _. demo_kg_io) demo_monitor demo_root 100 30 (demo_soft Committed) demo_erased
     = Some (Inr [1] :: ((unit, unit) erasure_error, action_id list) result, demo_soft Expired, g')
   \<and> (30 :: u64) \<le> saturating_sub 100 10"
proof -
  obtain g' where g': "expire_lapsed_soft_deletes demo_any_env 0 (\<lambda>_ _. 0) (\<lambda>_ _. demo_kg_io) demo_monitor demo_root 100 30 (demo_soft Committed) demo_erased
     = Some (Inr [1] :: ((unit, unit) erasure_error, action_id list) result, demo_soft Expired, g')"
    using demo_sweep by blast
  have "\<exists>r \<in> set (rv_actions (demo_soft Committed)). (30 :: u64) \<le> saturating_sub 100 (ar_created_at r)"
    using lapsed_sweep_seals [OF demo_soft_run g' later_start, THEN conjunct1] by auto
  with g' show ?thesis by (auto simp: demo_soft_def demo_with_status_def demo_journal_def)
qed

lemma demo_shred:
  "\<exists>g'. erase demo_env demo_json 0 0 (\<lambda>_. 0) (\<lambda>_. demo_kg_io) demo_monitor demo_root [0] CryptoShred 10 s (demo_graph 1)
     = Some (Inr \<lparr>er_object_ids = [0], er_mode = CryptoShred, er_completed_at = Some 10, er_grace_period_action = None\<rparr>
         :: (('ae, 'me) erasure_error, erasure_receipt) result, s, g')"
proof -
  have "kg_events (demo_graph 2) = None" by (simp add: demo_graph_def)
  from purge_node_quiet [OF this] obtain r g' where
    p: "purge_node_history demo_env demo_kg_io demo_monitor demo_root 0 (demo_graph 2) = Some (r, g')" by blast
  have "r = Inr 2" using p
    by (auto simp: purge_node_history_def purge_object_def surviving_records_def compact_impl_def WRITE_def contains_def
        hm_values_def demo_kg_defs numeral_2_eq_2 Let_def)
  with p demo_delete_step show ?thesis
    by (simp add: erase_def privacy_require_def demo_authorized erase_object_def)
qed

theorem crypto_shred_erases_witness:
  "\<exists>s g'. (\<exists>receipt. erase demo_env demo_json 0 0 (\<lambda>_. 0) (\<lambda>_. demo_kg_io) demo_monitor demo_root [0] CryptoShred 10 s (demo_graph 1)
       = Some (Inr receipt :: ((unit, unit) erasure_error, erasure_receipt) result, (s :: (nat, unit) recovery_service), g'))
     \<and> hm_get (gi_nodes (kg_index g')) 0 = None
     \<and> replay_lines (env_wal demo_env) None (Some (snd (kg_storage (demo_graph 1)))) = Inr [demo_log ! 0]
     \<and> (\<exists>rs. replay_lines (env_wal demo_env) None (Some (snd (kg_storage g'))) = Inr rs \<and> (\<forall>r \<in> set rs. wr_object_id r \<noteq> 0))"
proof -
  let ?s = "recovery_new_with_memory None :: (nat, unit) recovery_service"
  obtain g' receipt where g': "erase demo_env demo_json 0 0 (\<lambda>_. 0) (\<lambda>_. demo_kg_io) demo_monitor demo_root [0] CryptoShred 10 ?s (demo_graph 1)
       = Some (Inr receipt :: ((unit, unit) erasure_error, erasure_receipt) result, ?s, g')" using demo_shred by blast
  have good: "io_good None demo_kg_io" by (simp add: io_good_def good_nonce_def good_nonces_def demo_kg_io_def)
  have "kg_run demo_env (well_behaved None) (demo_graph 0) (demo_graph 1)"
    by (rule kg_run_step [OF kg_run_start _ demo_kg_room(1) demo_put_step])
      (simp add: well_behaved_def demo_put_node_def good)
  moreover have "spare (2 * length [0 :: node_id]) (demo_graph 1)" by (simp add: spare_def demo_kg_defs)
  moreover have "\<forall>i \<in> set [0]. hm_get (gi_edges (kg_index (demo_graph 1))) i = None" by (simp add: demo_kg_defs)
  moreover have "replay_lines (env_wal demo_env) None (Some (snd (kg_storage (demo_graph 1)))) = Inr [demo_log ! 0]"
    by (simp add: replay_lines_def demo_graph_def demo_env_def lines_of_def drop_cr_def parse_line_def)
  ultimately show ?thesis
    using g' good crypto_shred_erases [OF demo_env_ok demo_kg_open _ g']
    by (intro exI [of _ ?s] exI [of _ g'] conjI exI [of _ receipt]) auto
qed

end
