(* ===== verification/Plugin_Review.thy ===== *)
theory Plugin_Review
  imports Encoding Scheduler
begin

text \<open>
  Plugin manifests and their review, \<open>crates/hyperion-plugin-framework/src\<close>, files \<open>types.rs\<close> and
  \<open>review.rs\<close>: what a plugin contributes and asks for, the bytes its publisher signs, and the checks a
  manifest passes before it is installed.  The trust store is \<open>hyperion-crypto/src/publisher_registry.rs\<close>.
  The signature scheme is the parameters \<open>sign\<close> and \<open>verify\<close>; a path is the text of it.
\<close>

section \<open>Manifests\<close>

type_synonym plugin_id = u64
type_synonym capability_name = string

record native_binary_descriptor =
  nb_program :: string
  nb_args :: "string list"
  nb_script :: "string option"

datatype TrustDepth = D0 | D1 | D2 | D3

datatype ImplementationKind = LocalSmallModel | LocalLargeModel | CloudApi | NativeBinary

datatype SideEffect = CreatesSemanticObject | SideEffectNetworkEgress | SideEffectNone

datatype Operation = OpRead | OpWrite | OpNetworkEgress | OpExecute

record capability_grant_request =
  gr_operation :: Operation
  gr_scope :: string
  gr_justification :: string

record semantic_contract =
  sc_inputs :: "string list"
  sc_outputs :: "string list"
  sc_side_effects :: "SideEffect list"

datatype PluginPrivacyTier = TierLocal | TierConsentedCloud

record capability_manifest =
  cm_capability_id :: capability_name
  cm_contract :: semantic_contract
  cm_implementation_kind :: ImplementationKind
  cm_quality_score :: rat
  cm_version :: u32
  cm_native_binary :: "native_binary_descriptor option"
  cm_privacy_tier :: PluginPrivacyTier
  cm_resource_profile :: "resource_vector option"

record agent_contribution =
  ac_specialization :: string
  ac_baseline_capabilities :: "string list"
  ac_requestable_capabilities :: "string list"

datatype HardwareDeviceType = Display | Mobile | Vehicle | Robot | Wearable | HomeAppliance | Peripheral | Sensor

datatype HardwareDirection = Render | Sense | Actuate

datatype HardwareSafetyClass = Cosmetic | Standard | High

record hardware_capability_entry =
  he_capability_name :: string
  he_direction :: HardwareDirection
  he_safety_class :: HardwareSafetyClass

record hardware_support_contribution =
  hs_device_type :: HardwareDeviceType
  hs_manufacturer :: string
  hs_model :: string
  hs_capability_manifest :: "hardware_capability_entry list"

record knowledge_provider_contribution =
  kp_topic :: string
  kp_capability_id :: capability_name

datatype UiRegionAffinity = RegionLeft | RegionCenter | RegionRight | TopBar | BottomBar

record ui_component_contribution =
  ui_capability_ref :: string
  ui_panel_template :: string
  ui_region_affinity :: UiRegionAffinity
  ui_min_size :: "u32 \<times> u32"
  ui_priority :: rat
  ui_binds_category :: "string option"
  ui_accessible_role :: "string option"
  ui_label_template :: "string option"
  ui_keyboard_operations :: "string list"
  ui_alt_text_hook :: "string option"
  ui_contrast_ratio :: rat
  ui_has_motion :: bool
  ui_reduced_motion_alternative :: bool
  ui_language_tag :: string
  ui_emits_audio :: bool
  ui_has_visual_alert_equivalent :: bool

record workflow_leaf =
  wl_predicate :: string
  wl_depends_on :: "nat list"

record automation_workflow_contribution =
  aw_trigger_keywords :: "string list"
  aw_root_predicate :: string
  aw_leaves :: "workflow_leaf list"

datatype MemoryTierKind = Episodic | Semantic | Procedural | LongTerm

record memory_provider_contribution =
  mp_tier :: MemoryTierKind
  mp_entity_key :: string
  mp_capability_id :: capability_name

record execution_engine_contribution =
  ee_engine_id :: string
  ee_launcher :: native_binary_descriptor

datatype Contribution =
    Capability capability_manifest
  | Agent agent_contribution
  | HardwareSupport hardware_support_contribution
  | KnowledgeProvider knowledge_provider_contribution
  | UiComponent ui_component_contribution
  | AutomationWorkflow automation_workflow_contribution
  | MemoryProvider memory_provider_contribution
  | ExecutionEngine execution_engine_contribution

record 'sig plugin_manifest =
  pm_plugin_id :: plugin_id
  pm_publisher :: string
  pm_signature :: "'sig option"
  pm_sdk_version :: u32
  pm_contributions :: "Contribution list"
  pm_requested_permissions :: "capability_grant_request list"
  pm_min_trust_depth :: TrustDepth

text \<open>Why a native binary is refused, and why a run of one fails; the source formats these as text.\<close>

datatype NativeBinaryFault =
    NoDescriptor
  | ProgramUnreadable string
  | ProgramNotExecutable string
  | ScriptUnreadable string
  | ScriptNotRegular string

datatype ExecutionFault =
    NoTempDir
  | InputNotWritten
  | NoDataDirectory
  | NotSpawned
  | NotWaited
  | NotKilled
  | TimedOut
  | ExitedWith int
  | NoOutput
  | OutputNotJson

datatype PluginError =
    PluginUnauthorized
  | PluginSignatureInvalid
  | UnknownPublisher string
  | PermissionOverreach Operation
  | InsufficientTrustDepth
  | ConsentDeclined
  | CapabilityCollisionIncompatible
  | NoSuchPlugin
  | NoSuchCapability
  | NoRunnableImplementation capability_name
  | InvalidNativeBinary NativeBinaryFault
  | ExecutionFailed ExecutionFault
  | PluginCapability Fault

section \<open>The signed bytes\<close>

definition side_effect_byte :: "SideEffect \<Rightarrow> u8" where
  "side_effect_byte e = (case e of CreatesSemanticObject \<Rightarrow> 0 | SideEffectNetworkEgress \<Rightarrow> 1 | SideEffectNone \<Rightarrow> 2)"

definition push_contract :: "semantic_contract \<Rightarrow> u8 list" where
  "push_contract contract =
     push_list push_str (sc_inputs contract) @ push_list push_str (sc_outputs contract)
     @ push_list (\<lambda>e. [side_effect_byte e]) (sc_side_effects contract)"

definition push_native_binary :: "native_binary_descriptor option \<Rightarrow> u8 list" where
  "push_native_binary native =
     (case native of
        Some native \<Rightarrow>
          1 # push_str (nb_program native) @ push_list push_str (nb_args native)
          @ (case nb_script native of Some script \<Rightarrow> 1 # push_str script | None \<Rightarrow> [0])
      | None \<Rightarrow> [0])"

definition trust_depth_byte :: "TrustDepth \<Rightarrow> u8" where
  "trust_depth_byte d = (case d of D0 \<Rightarrow> 0 | D1 \<Rightarrow> 1 | D2 \<Rightarrow> 2 | D3 \<Rightarrow> 3)"

definition operation_byte :: "Operation \<Rightarrow> u8" where
  "operation_byte operation = (case operation of OpRead \<Rightarrow> 0 | OpWrite \<Rightarrow> 1 | OpNetworkEgress \<Rightarrow> 2 | OpExecute \<Rightarrow> 3)"

definition push_request :: "capability_grant_request \<Rightarrow> u8 list" where
  "push_request request =
     operation_byte (gr_operation request) # push_str (gr_scope request) @ push_str (gr_justification request)"

definition kind_byte :: "ImplementationKind \<Rightarrow> u8" where
  "kind_byte k = (case k of LocalSmallModel \<Rightarrow> 0 | LocalLargeModel \<Rightarrow> 1 | CloudApi \<Rightarrow> 2 | NativeBinary \<Rightarrow> 3)"

definition tier_byte :: "PluginPrivacyTier \<Rightarrow> u8" where
  "tier_byte t = (case t of TierLocal \<Rightarrow> 0 | TierConsentedCloud \<Rightarrow> 1)"

definition memory_tier_byte :: "MemoryTierKind \<Rightarrow> u8" where
  "memory_tier_byte t = (case t of Episodic \<Rightarrow> 0 | Semantic \<Rightarrow> 1 | Procedural \<Rightarrow> 2 | LongTerm \<Rightarrow> 3)"

definition push_contribution :: "Contribution \<Rightarrow> u8 list" where
  "push_contribution contribution =
     (case contribution of
        Capability cm \<Rightarrow>
          0 # push_str (cm_capability_id cm) @ to_le_bytes 4 (cm_version cm)
          @ [kind_byte (cm_implementation_kind cm), tier_byte (cm_privacy_tier cm)]
          @ push_contract (cm_contract cm) @ push_native_binary (cm_native_binary cm)
      | Agent ac \<Rightarrow>
          1 # push_str (ac_specialization ac) @ push_list push_str (ac_baseline_capabilities ac)
          @ push_list push_str (ac_requestable_capabilities ac)
      | HardwareSupport hs \<Rightarrow> 2 # push_str (hs_manufacturer hs) @ push_str (hs_model hs)
      | KnowledgeProvider kp \<Rightarrow> 3 # push_str (kp_topic kp) @ push_str (kp_capability_id kp)
      | UiComponent ui \<Rightarrow> 4 # push_str (ui_capability_ref ui) @ push_str (ui_panel_template ui)
      | AutomationWorkflow aw \<Rightarrow> 5 # push_str (aw_root_predicate aw) @ push_list push_str (aw_trigger_keywords aw)
      | MemoryProvider mp \<Rightarrow>
          6 # memory_tier_byte (mp_tier mp) # push_str (mp_entity_key mp) @ push_str (mp_capability_id mp)
      | ExecutionEngine ee \<Rightarrow> 7 # push_str (ee_engine_id ee) @ push_native_binary (Some (ee_launcher ee)))"

definition manifest_canonical_bytes :: "'sig plugin_manifest \<Rightarrow> u8 list" where
  "manifest_canonical_bytes m =
     to_le_bytes 8 (pm_plugin_id m) @ push_str (pm_publisher m) @ to_le_bytes 4 (pm_sdk_version m)
     @ [trust_depth_byte (pm_min_trust_depth m)]
     @ push_list push_request (pm_requested_permissions m)
     @ push_list push_contribution (pm_contributions m)"

definition sign_manifest :: "(u8 list \<Rightarrow> 'sig) \<Rightarrow> 'sig plugin_manifest \<Rightarrow> 'sig" where
  "sign_manifest sign m = sign (manifest_canonical_bytes m)"

definition verify_manifest_signature :: "(u8 list \<Rightarrow> 'sig \<Rightarrow> 'key \<Rightarrow> bool) \<Rightarrow> 'sig plugin_manifest \<Rightarrow> 'key \<Rightarrow> bool" where
  "verify_manifest_signature verify m verifying_key =
     (case pm_signature m of
        Some signature \<Rightarrow> verify (manifest_canonical_bytes (m\<lparr>pm_signature := None\<rparr>)) signature verifying_key
      | None \<Rightarrow> False)"

section \<open>The review\<close>

definition contract_requires :: "semantic_contract \<Rightarrow> Operation \<Rightarrow> bool" where
  "contract_requires contract operation =
     (case operation of
        OpNetworkEgress \<Rightarrow> SideEffectNetworkEgress \<in> set (sc_side_effects contract)
      | OpWrite \<Rightarrow>
          CreatesSemanticObject \<in> set (sc_side_effects contract)
          \<or> SideEffectNetworkEgress \<in> set (sc_side_effects contract)
      | OpRead \<Rightarrow> True
      | OpExecute \<Rightarrow> True)"

definition justifies :: "Operation \<Rightarrow> Contribution \<Rightarrow> bool" where
  "justifies operation c =
     (case c of
        Capability cm \<Rightarrow> contract_requires (cm_contract cm) operation
      | Agent _ \<Rightarrow> operation = OpRead \<or> operation = OpExecute
      | HardwareSupport _ \<Rightarrow> operation = OpRead
      | KnowledgeProvider _ \<Rightarrow> operation = OpRead
      | UiComponent _ \<Rightarrow> operation = OpRead
      | AutomationWorkflow _ \<Rightarrow> operation = OpRead
      | MemoryProvider _ \<Rightarrow> operation = OpRead
      | ExecutionEngine _ \<Rightarrow> operation = OpRead \<or> operation = OpExecute)"

fun first_overreach :: "Contribution list \<Rightarrow> capability_grant_request list \<Rightarrow> (PluginError, unit) result" where
  "first_overreach contributions [] = Inr ()"
| "first_overreach contributions (request # requests) =
     (if \<not> list_ex (justifies (gr_operation request)) contributions
      then Inl (PermissionOverreach (gr_operation request))
      else first_overreach contributions requests)"

definition check_permission_overreach :: "'sig plugin_manifest \<Rightarrow> (PluginError, unit) result" where
  "check_permission_overreach m = first_overreach (pm_contributions m) (pm_requested_permissions m)"

definition validate_manifest ::
    "(u8 list \<Rightarrow> 'sig \<Rightarrow> 'key \<Rightarrow> bool) \<Rightarrow> 'sig plugin_manifest \<Rightarrow> 'key \<Rightarrow> (PluginError, unit) result" where
  "validate_manifest verify m verifying_key =
     (if \<not> verify_manifest_signature verify m verifying_key then Inl PluginSignatureInvalid
      else check_permission_overreach m)"

type_synonym 'key publisher_registry = "(string, 'key) hashmap"

definition publisher_register :: "string \<Rightarrow> 'key \<Rightarrow> 'key publisher_registry \<Rightarrow> 'key publisher_registry" where
  "publisher_register publisher_id key r = hm_insert publisher_id key r"

definition verifying_key_for :: "'key publisher_registry \<Rightarrow> string \<Rightarrow> 'key option" where
  "verifying_key_for r publisher_id = hm_get r publisher_id"

definition validate_manifest_against_registry ::
    "(u8 list \<Rightarrow> 'sig \<Rightarrow> 'key \<Rightarrow> bool) \<Rightarrow> 'sig plugin_manifest \<Rightarrow> 'key publisher_registry \<Rightarrow> (PluginError, unit) result" where
  "validate_manifest_against_registry verify m publishers =
     (case verifying_key_for publishers (pm_publisher m) of
        None \<Rightarrow> Inl (UnknownPublisher (pm_publisher m))
      | Some verifying_key \<Rightarrow> validate_manifest verify m verifying_key)"

section \<open>What a signature covers\<close>

text \<open>
  The part of a manifest its signed bytes show: a contribution with the fields they leave out set to
  fixed values.
\<close>

definition signed_contribution :: "Contribution \<Rightarrow> Contribution" where
  "signed_contribution c =
     (case c of
        Capability cm \<Rightarrow> Capability (cm\<lparr>cm_quality_score := 0, cm_resource_profile := None\<rparr>)
      | HardwareSupport hs \<Rightarrow> HardwareSupport (hs\<lparr>hs_device_type := Display, hs_capability_manifest := []\<rparr>)
      | UiComponent ui \<Rightarrow>
          UiComponent \<lparr>ui_capability_ref = ui_capability_ref ui, ui_panel_template = ui_panel_template ui,
            ui_region_affinity = RegionLeft, ui_min_size = (0, 0), ui_priority = 0, ui_binds_category = None,
            ui_accessible_role = None, ui_label_template = None, ui_keyboard_operations = [], ui_alt_text_hook = None,
            ui_contrast_ratio = 0, ui_has_motion = False, ui_reduced_motion_alternative = False, ui_language_tag = [],
            ui_emits_audio = False, ui_has_visual_alert_equivalent = False\<rparr>
      | AutomationWorkflow aw \<Rightarrow> AutomationWorkflow (aw\<lparr>aw_leaves := []\<rparr>)
      | _ \<Rightarrow> c)"

definition signed_part :: "'sig plugin_manifest \<Rightarrow> 'sig plugin_manifest" where
  "signed_part m = m\<lparr>pm_signature := None, pm_contributions := map signed_contribution (pm_contributions m)\<rparr>"

text \<open>No field is longer than its 64-bit length can say.\<close>

definition strings_short :: "string list \<Rightarrow> bool" where
  "strings_short ss \<longleftrightarrow> short ss \<and> list_all short ss"

definition contract_short :: "semantic_contract \<Rightarrow> bool" where
  "contract_short c \<longleftrightarrow> strings_short (sc_inputs c) \<and> strings_short (sc_outputs c) \<and> short (sc_side_effects c)"

definition native_short :: "native_binary_descriptor option \<Rightarrow> bool" where
  "native_short n \<longleftrightarrow>
     (case n of None \<Rightarrow> True
      | Some n \<Rightarrow> short (nb_program n) \<and> strings_short (nb_args n) \<and> (case nb_script n of None \<Rightarrow> True | Some s \<Rightarrow> short s))"

definition request_short :: "capability_grant_request \<Rightarrow> bool" where
  "request_short g \<longleftrightarrow> short (gr_scope g) \<and> short (gr_justification g)"

definition contribution_short :: "Contribution \<Rightarrow> bool" where
  "contribution_short c \<longleftrightarrow>
     (case c of
        Capability cm \<Rightarrow> short (cm_capability_id cm) \<and> contract_short (cm_contract cm) \<and> native_short (cm_native_binary cm)
      | Agent ac \<Rightarrow> short (ac_specialization ac) \<and> strings_short (ac_baseline_capabilities ac)
          \<and> strings_short (ac_requestable_capabilities ac)
      | HardwareSupport hs \<Rightarrow> short (hs_manufacturer hs) \<and> short (hs_model hs)
      | KnowledgeProvider kp \<Rightarrow> short (kp_topic kp) \<and> short (kp_capability_id kp)
      | UiComponent ui \<Rightarrow> short (ui_capability_ref ui) \<and> short (ui_panel_template ui)
      | AutomationWorkflow aw \<Rightarrow> short (aw_root_predicate aw) \<and> strings_short (aw_trigger_keywords aw)
      | MemoryProvider mp \<Rightarrow> short (mp_entity_key mp) \<and> short (mp_capability_id mp)
      | ExecutionEngine ee \<Rightarrow> short (ee_engine_id ee) \<and> native_short (Some (ee_launcher ee)))"

definition manifest_short :: "'sig plugin_manifest \<Rightarrow> bool" where
  "manifest_short m \<longleftrightarrow> short (pm_publisher m)
     \<and> short (pm_requested_permissions m) \<and> list_all request_short (pm_requested_permissions m)
     \<and> short (pm_contributions m) \<and> list_all contribution_short (pm_contributions m)"

lemma byte_codes [simp]:
  "side_effect_byte e = side_effect_byte e' \<longleftrightarrow> e = e'"
  "operation_byte p = operation_byte p' \<longleftrightarrow> p = p'"
  "kind_byte k = kind_byte k' \<longleftrightarrow> k = k'"
  "tier_byte t = tier_byte t' \<longleftrightarrow> t = t'"
  "memory_tier_byte u = memory_tier_byte u' \<longleftrightarrow> u = u'"
  "trust_depth_byte d = trust_depth_byte d' \<longleftrightarrow> d = d'"
  by (auto simp: side_effect_byte_def operation_byte_def kind_byte_def tier_byte_def memory_tier_byte_def trust_depth_byte_def
      split: SideEffect.splits Operation.splits ImplementationKind.splits PluginPrivacyTier.splits MemoryTierKind.splits TrustDepth.splits)

lemma strings_code:
  "strings_short xs \<Longrightarrow> strings_short ys \<Longrightarrow> push_list push_str xs @ r = push_list push_str ys @ s \<longleftrightarrow> xs = ys \<and> r = s"
  using str.push_list_code [of xs ys r s] by (simp add: strings_short_def)

interpretation effect: prefix_code "\<lambda>e. [side_effect_byte e]" "\<lambda>e. e" "\<lambda>_. True"
  by unfold_locales simp

interpretation contract: prefix_code push_contract "\<lambda>c. c" contract_short
proof
  fix x y :: semantic_contract and r s
  assume "contract_short x" "contract_short y"
  then show "push_contract x @ r = push_contract y @ s \<longleftrightarrow> x = y \<and> r = s"
    using effect.push_list_code [of "sc_side_effects x" "sc_side_effects y"]
    by (cases x; cases y) (auto simp: push_contract_def contract_short_def strings_code list_all_iff)
qed

interpretation native: prefix_code push_native_binary "\<lambda>n. n" native_short
proof
  fix x y :: "native_binary_descriptor option" and r s
  assume "native_short x" "native_short y"
  then show "push_native_binary x @ r = push_native_binary y @ s \<longleftrightarrow> x = y \<and> r = s"
    by (auto simp: push_native_binary_def native_short_def strings_code str.code split: option.splits)
qed

interpretation request: prefix_code push_request "\<lambda>g. g" request_short
  by unfold_locales (auto simp: push_request_def request_short_def str.code)

lemma signed_capability_eq:
  "cm\<lparr>cm_quality_score := 0, cm_resource_profile := None\<rparr> = cm'\<lparr>cm_quality_score := 0, cm_resource_profile := None\<rparr> \<longleftrightarrow>
     cm_capability_id cm = cm_capability_id cm' \<and> cm_contract cm = cm_contract cm'
     \<and> cm_implementation_kind cm = cm_implementation_kind cm' \<and> cm_version cm = cm_version cm'
     \<and> cm_native_binary cm = cm_native_binary cm' \<and> cm_privacy_tier cm = cm_privacy_tier (cm' :: capability_manifest)"
  by (cases cm; cases cm') auto

lemma signed_hardware_eq:
  "hs\<lparr>hs_device_type := Display, hs_capability_manifest := []\<rparr> = hs'\<lparr>hs_device_type := Display, hs_capability_manifest := []\<rparr> \<longleftrightarrow>
     hs_manufacturer hs = hs_manufacturer hs' \<and> hs_model hs = hs_model (hs' :: hardware_support_contribution)"
  by (cases hs; cases hs') auto

lemma signed_workflow_eq:
  "aw\<lparr>aw_leaves := []\<rparr> = aw'\<lparr>aw_leaves := []\<rparr> \<longleftrightarrow>
     aw_trigger_keywords aw = aw_trigger_keywords aw'
     \<and> aw_root_predicate aw = aw_root_predicate (aw' :: automation_workflow_contribution)"
  by (cases aw; cases aw') auto

lemma signed_plain_eq:
  "(ac :: agent_contribution) = ac' \<longleftrightarrow> ac_specialization ac = ac_specialization ac'
     \<and> ac_baseline_capabilities ac = ac_baseline_capabilities ac' \<and> ac_requestable_capabilities ac = ac_requestable_capabilities ac'"
  "(kp :: knowledge_provider_contribution) = kp' \<longleftrightarrow> kp_topic kp = kp_topic kp' \<and> kp_capability_id kp = kp_capability_id kp'"
  "(mp :: memory_provider_contribution) = mp' \<longleftrightarrow>
     mp_tier mp = mp_tier mp' \<and> mp_entity_key mp = mp_entity_key mp' \<and> mp_capability_id mp = mp_capability_id mp'"
  "(ee :: execution_engine_contribution) = ee' \<longleftrightarrow> ee_engine_id ee = ee_engine_id ee' \<and> ee_launcher ee = ee_launcher ee'"
  by auto

interpretation contribution: prefix_code push_contribution signed_contribution contribution_short
proof
  fix x y :: Contribution and r s
  assume "contribution_short x" "contribution_short y"
  then show "push_contribution x @ r = push_contribution y @ s \<longleftrightarrow> signed_contribution x = signed_contribution y \<and> r = s"
    by (cases x; cases y)
      (auto simp: push_contribution_def contribution_short_def signed_contribution_def strings_code str.code
        contract.code native.code signed_capability_eq signed_hardware_eq signed_workflow_eq signed_plain_eq)
qed

lemma manifest_bytes_signed_part:
  assumes "manifest_short m" "manifest_short m'"
  shows "manifest_canonical_bytes m = manifest_canonical_bytes m' \<longleftrightarrow> signed_part m = signed_part m'"
proof -
  have end_code: "push_list push_contribution xs = push_list push_contribution ys \<longleftrightarrow> map signed_contribution xs = map signed_contribution ys"
    if "list_all contribution_short xs" "list_all contribution_short ys" "short xs" "short ys" for xs ys
    using contribution.push_list_code [OF that, of "[]" "[]"] by simp
  have requests: "push_list push_request xs @ r = push_list push_request ys @ s \<longleftrightarrow> xs = ys \<and> r = s"
    if "list_all request_short xs" "list_all request_short ys" "short xs" "short ys" for xs ys r s
    using request.push_list_code [OF that] by simp
  show ?thesis
    using assms by (cases m; cases m') (auto simp: manifest_canonical_bytes_def manifest_short_def signed_part_def str.code requests end_code)
qed

text \<open>
  The bytes a publisher signs show exactly the signed part of a manifest.  Two manifests
  have the same bytes if and only if they agree on the identifier, the publisher, the versions, the
  trust depth, every requested permission, and of every contribution on all but the fields that
  \<open>signed_contribution\<close> blanks; no field can be shifted into its neighbour.
\<close>

theorem manifest_signature_covers:
  assumes "manifest_short m" "manifest_short m'"
  shows "manifest_canonical_bytes m = manifest_canonical_bytes m' \<longleftrightarrow> signed_part m = signed_part m'"
  using assms by (rule manifest_bytes_signed_part)

lemma verified_signed_part:
  assumes "manifest_short m" "manifest_short m'" "signed_part m = signed_part m'" "pm_signature m = pm_signature m'"
  shows "verify_manifest_signature verify m key \<longleftrightarrow> verify_manifest_signature verify m' key"
proof -
  let ?u = "m\<lparr>pm_signature := None\<rparr>" and ?u' = "m'\<lparr>pm_signature := None\<rparr>"
  have "manifest_short ?u" "manifest_short ?u'" "signed_part ?u = signed_part ?u'"
    using assms by (simp_all add: manifest_short_def signed_part_def)
  then have "manifest_canonical_bytes ?u = manifest_canonical_bytes ?u'"
    by (simp add: manifest_bytes_signed_part)
  with assms(4) show ?thesis by (auto simp: verify_manifest_signature_def split: option.splits)
qed

text \<open>
  What is not covered.  The manifest of a hardware contribution with the safety class of its
  capabilities, and the steps of a workflow, can be replaced after signing.
\<close>

lemma hardware_and_workflow_unsigned:
  assumes "pm_contributions m = [HardwareSupport hs, AutomationWorkflow aw]" "manifest_short m"
  shows "verify_manifest_signature verify
      (m\<lparr>pm_contributions := [HardwareSupport (hs\<lparr>hs_device_type := device, hs_capability_manifest := entries\<rparr>),
         AutomationWorkflow (aw\<lparr>aw_leaves := leaves\<rparr>)]\<rparr>) key
    \<longleftrightarrow> verify_manifest_signature verify m key"
  by (rule verified_signed_part)
    (use assms in \<open>simp_all add: manifest_short_def signed_part_def signed_contribution_def contribution_short_def short_def\<close>)

definition demo_manifest :: "rat \<Rightarrow> string \<Rightarrow> unit plugin_manifest" where
  "demo_manifest quality program = \<lparr>pm_plugin_id = 0, pm_publisher = ''p'', pm_signature = Some (), pm_sdk_version = 1,
     pm_contributions = [Capability \<lparr>cm_capability_id = ''c'',
       cm_contract = \<lparr>sc_inputs = [], sc_outputs = [], sc_side_effects = [CreatesSemanticObject]\<rparr>,
       cm_implementation_kind = NativeBinary, cm_quality_score = quality, cm_version = 1,
       cm_native_binary = Some \<lparr>nb_program = program, nb_args = [], nb_script = None\<rparr>,
       cm_privacy_tier = TierLocal, cm_resource_profile = None\<rparr>],
     pm_requested_permissions = [\<lparr>gr_operation = OpWrite, gr_scope = ''s'', gr_justification = []\<rparr>],
     pm_min_trust_depth = D1\<rparr>"

theorem manifest_signature_covers_witness:
  "manifest_canonical_bytes (demo_manifest 0 ''a'') = manifest_canonical_bytes (demo_manifest 1 ''a'')
   \<and> manifest_canonical_bytes (demo_manifest 0 ''a'') \<noteq> manifest_canonical_bytes (demo_manifest 0 ''b'')"
proof -
  have s: "manifest_short (demo_manifest q [c])" for q c
    by (simp add: demo_manifest_def manifest_short_def contribution_short_def contract_short_def native_short_def
        request_short_def strings_short_def short_def)
  show ?thesis
    using manifest_signature_covers [OF s s, of 0 "CHR ''a''" 1 "CHR ''a''"] manifest_signature_covers [OF s s, of 0 "CHR ''a''" 0 "CHR ''b''"]
    by (simp add: signed_part_def signed_contribution_def demo_manifest_def)
qed

end
