(* ===== verification/Plugin_Registry.thy ===== *)
theory Plugin_Registry
  imports Plugin_Review Wal "HOL-Library.List_Lexorder" "HOL-Library.Char_ord"
begin

text \<open>
  The plugin registry, \<open>crates/hyperion-plugin-framework/src/registry.rs\<close>: installing, updating,
  uninstalling and quarantining plugins, the capabilities they implement, and the run of a native
  binary in a sandbox.  The tokens a plugin holds are derived by the capability monitor; its state is
  the pair of the process-wide counter of token identities and the monitor.  The file system, the
  sandbox and the JSON codec are arguments.
\<close>

declare map_of_eq_Some_iff [simp del] Some_eq_map_of_iff [simp del]

section \<open>State\<close>

datatype InstallState = Pending | Active | Quarantined

datatype QuarantineReason = ReasonPermissionOverreach | IntegrityFailure | PolicyViolation

record implementation_descriptor =
  id_plugin_id :: plugin_id
  id_implementation_kind :: ImplementationKind
  id_quality_score :: rat
  id_version :: u32
  id_native_binary :: "native_binary_descriptor option"
  id_privacy_tier :: PluginPrivacyTier
  id_resource_profile :: "resource_vector option"

record registry_entry =
  re_capability_id :: capability_name
  re_contract :: semantic_contract
  re_implementations :: "implementation_descriptor list"
  re_owning_plugins :: "plugin_id list"
  re_install_state :: InstallState

record plugin_handle =
  ph_plugin_id :: plugin_id
  ph_boundary :: trust_boundary_id

record 'sig plugin_registry =
  pr_app_data_root :: "string option"
  pr_plugins :: "(plugin_id, 'sig plugin_manifest) hashmap"
  pr_boundaries :: "(plugin_id, trust_boundary_id) hashmap"
  pr_tokens :: "(plugin_id, capability_token list) hashmap"
  pr_sandbox_tokens :: "(plugin_id, capability_token) hashmap"
  pr_registry :: "(capability_name, registry_entry) hashmap"
  pr_agent_contributions :: "(plugin_id, agent_contribution list) hashmap"
  pr_hardware_support :: "(plugin_id, hardware_support_contribution list) hashmap"
  pr_knowledge_providers :: "(plugin_id, knowledge_provider_contribution list) hashmap"
  pr_ui_components :: "(plugin_id, ui_component_contribution list) hashmap"
  pr_automation_workflows :: "(plugin_id, automation_workflow_contribution list) hashmap"
  pr_memory_providers :: "(plugin_id, memory_provider_contribution list) hashmap"
  pr_execution_engines :: "(plugin_id, execution_engine_contribution list) hashmap"
  pr_quarantined_plugins :: "plugin_id set"
  pr_next_plugin_id :: u64
  pr_next_boundary_ordinal :: u64

definition plugin_registry_new :: "'sig plugin_registry" where
  "plugin_registry_new =
     \<lparr>pr_app_data_root = None, pr_plugins = [], pr_boundaries = [], pr_tokens = [], pr_sandbox_tokens = [],
      pr_registry = [], pr_agent_contributions = [], pr_hardware_support = [], pr_knowledge_providers = [],
      pr_ui_components = [], pr_automation_workflows = [], pr_memory_providers = [], pr_execution_engines = [],
      pr_quarantined_plugins = {}, pr_next_plugin_id = 1, pr_next_boundary_ordinal = 1\<rparr>"

definition new_with_app_data :: "string \<Rightarrow> 'sig plugin_registry" where
  "new_with_app_data app_data_root = plugin_registry_new\<lparr>pr_app_data_root := Some app_data_root\<rparr>"

section \<open>Helpers of the installation\<close>

definition rights_for :: "Operation \<Rightarrow> u32" where
  "rights_for operation =
     (case operation of OpRead \<Rightarrow> READ | OpWrite \<Rightarrow> WRITE | OpNetworkEgress \<Rightarrow> WRITE | OpExecute \<Rightarrow> EXEC)"

definition grants_equal :: "capability_grant_request \<Rightarrow> capability_grant_request \<Rightarrow> bool" where
  "grants_equal a b \<longleftrightarrow> gr_operation a = gr_operation b \<and> gr_scope a = gr_scope b"

definition needs_sandbox_token :: "'sig plugin_manifest \<Rightarrow> bool" where
  "needs_sandbox_token manifest =
     list_ex (\<lambda>c. case c of Capability cm \<Rightarrow> cm_implementation_kind cm = NativeBinary | _ \<Rightarrow> False)
       (pm_contributions manifest)"

text \<open>The first free name among \<open>id#2\<close>, \<open>id#3\<close> and so on.\<close>

definition variant_name :: "capability_name \<Rightarrow> nat \<Rightarrow> capability_name" where
  "variant_name capability_id n = capability_id @ ''#'' @ show_nat n"

fun read_digits :: "nat \<Rightarrow> string \<Rightarrow> nat" where
  "read_digits a [] = a"
| "read_digits a (c # cs) = read_digits (10 * a + (of_char c - 48)) cs"

lemma read_digits_append: "read_digits a (cs @ ds) = read_digits (read_digits a cs) ds"
  by (induction cs arbitrary: a) auto

lemma digit_char: "d < 10 \<Longrightarrow> of_char (char_of (48 + d) :: char) - 48 = (d :: nat)"
  by (simp add: of_char_of)

lemma read_show_nat: "read_digits 0 (show_nat n) = n"
proof (induction n rule: show_nat.induct)
  case (1 n)
  show ?case
  proof (cases "n < 10")
    case True
    then show ?thesis by (subst show_nat.simps) (simp add: digit_char)
  next
    case False
    then show ?thesis using 1 by (subst show_nat.simps) (simp add: digit_char read_digits_append)
  qed
qed

lemma show_nat_inj: "show_nat m = show_nat n \<longleftrightarrow> m = n"
  by (metis read_show_nat)

lemma variant_name_inj: "variant_name c m = variant_name c n \<longleftrightarrow> m = n"
  by (simp add: variant_name_def show_nat_inj)

lemma finite_variants: "finite {k. hm_get r (variant_name c k) \<noteq> None}"
proof (rule inj_on_finite)
  show "inj_on (variant_name c) {k. hm_get r (variant_name c k) \<noteq> None}"
    by (simp add: inj_on_def variant_name_inj)
  show "variant_name c ` {k. hm_get r (variant_name c k) \<noteq> None} \<subseteq> fst ` set r"
    by (auto simp: hm_get_None_iff)
  show "finite (fst ` set r)" by simp
qed

function version_variant_from :: "(capability_name, registry_entry) hashmap \<Rightarrow> capability_name \<Rightarrow> nat \<Rightarrow> capability_name" where
  "version_variant_from registry capability_id n =
     (if hm_get registry (variant_name capability_id n) = None then variant_name capability_id n
      else version_variant_from registry capability_id (Suc n))"
  by pat_completeness auto
termination
proof (relation "measure (\<lambda>(r, c, n). card {k. n \<le> k \<and> hm_get r (variant_name c k) \<noteq> None})")
  fix r :: "(capability_name, registry_entry) hashmap" and c n
  assume used: "hm_get r (variant_name c n) \<noteq> None"
  have "{k. Suc n \<le> k \<and> hm_get r (variant_name c k) \<noteq> None} \<subset> {k. n \<le> k \<and> hm_get r (variant_name c k) \<noteq> None}"
  proof
    show "{k. Suc n \<le> k \<and> hm_get r (variant_name c k) \<noteq> None} \<noteq> {k. n \<le> k \<and> hm_get r (variant_name c k) \<noteq> None}"
      using used by (metis (mono_tags, lifting) Suc_n_not_le_n mem_Collect_eq order_refl)
  qed auto
  moreover have "finite {k. n \<le> k \<and> hm_get r (variant_name c k) \<noteq> None}"
    by (rule finite_subset [OF _ finite_variants]) auto
  ultimately show "((r, c, Suc n), r, c, n) \<in> measure (\<lambda>(r, c, n). card {k. n \<le> k \<and> hm_get r (variant_name c k) \<noteq> None})"
    by (simp add: psubset_card_mono)
qed simp

declare version_variant_from.simps [simp del]

definition version_variant :: "(capability_name, registry_entry) hashmap \<Rightarrow> capability_name \<Rightarrow> capability_name" where
  "version_variant registry capability_id = version_variant_from registry capability_id 2"

text \<open>What the file system answers: the mode bits behind a path, and whether the path itself is a regular file.\<close>

record plugin_fs =
  fs_metadata_mode :: "string \<Rightarrow> u32 option"
  fs_symlink_is_file :: "string \<Rightarrow> bool option"

definition validate_native_binary :: "plugin_fs \<Rightarrow> native_binary_descriptor option \<Rightarrow> (PluginError, unit) result" where
  "validate_native_binary fs descriptor =
     (case descriptor of
        None \<Rightarrow> Inl (InvalidNativeBinary NoDescriptor)
      | Some descriptor \<Rightarrow>
          (case fs_metadata_mode fs (nb_program descriptor) of
             None \<Rightarrow> Inl (InvalidNativeBinary (ProgramUnreadable (nb_program descriptor)))
           | Some mode \<Rightarrow>
               if mode AND 0x49 = 0 then Inl (InvalidNativeBinary (ProgramNotExecutable (nb_program descriptor)))
               else case nb_script descriptor of
                      None \<Rightarrow> Inr ()
                    | Some script \<Rightarrow>
                        (case fs_symlink_is_file fs script of
                           None \<Rightarrow> Inl (InvalidNativeBinary (ScriptUnreadable script))
                         | Some regular \<Rightarrow>
                             if \<not> regular then Inl (InvalidNativeBinary (ScriptNotRegular script)) else Inr ())))"

fun validate_contributions :: "plugin_fs \<Rightarrow> Contribution list \<Rightarrow> (PluginError, unit) result" where
  "validate_contributions fs [] = Inr ()"
| "validate_contributions fs (contribution # rest) =
     (case (case contribution of
              Capability cm \<Rightarrow>
                if cm_implementation_kind cm = NativeBinary then validate_native_binary fs (cm_native_binary cm) else Inr ()
            | ExecutionEngine ee \<Rightarrow> validate_native_binary fs (Some (ee_launcher ee))
            | _ \<Rightarrow> Inr ()) of
        Inl e \<Rightarrow> Inl e
      | Inr _ \<Rightarrow> validate_contributions fs rest)"

datatype BoundaryDepth = Process | Container

definition real_trust_depth :: "TrustDepth \<Rightarrow> BoundaryDepth" where
  "real_trust_depth policy = (case policy of D0 \<Rightarrow> Process | D1 \<Rightarrow> Process | D2 \<Rightarrow> Container | D3 \<Rightarrow> Container)"

definition depth_rank :: "TrustDepth \<Rightarrow> nat" where
  "depth_rank d = (case d of D0 \<Rightarrow> 0 | D1 \<Rightarrow> 1 | D2 \<Rightarrow> 2 | D3 \<Rightarrow> 3)"

section \<open>Contributions\<close>

definition register_implementation ::
    "plugin_id \<Rightarrow> capability_manifest \<Rightarrow> (capability_name, registry_entry) hashmap
     \<Rightarrow> implementation_descriptor \<times> (capability_name, registry_entry) hashmap" where
  "register_implementation pid cm registry =
     (let descriptor =
            \<lparr>id_plugin_id = pid, id_implementation_kind = cm_implementation_kind cm,
             id_quality_score = cm_quality_score cm, id_version = cm_version cm,
             id_native_binary = cm_native_binary cm, id_privacy_tier = cm_privacy_tier cm,
             id_resource_profile = cm_resource_profile cm\<rparr>;
          entry_for = (\<lambda>capability_id.
            \<lparr>re_capability_id = capability_id, re_contract = cm_contract cm, re_implementations = [descriptor],
             re_owning_plugins = [pid], re_install_state = Active\<rparr>)
      in (descriptor,
          case hm_get registry (cm_capability_id cm) of
            Some entry \<Rightarrow>
              if re_contract entry = cm_contract cm
              then hm_insert (cm_capability_id cm)
                     (entry\<lparr>re_implementations := re_implementations entry @ [descriptor],
                            re_owning_plugins := re_owning_plugins entry @ [pid]\<rparr>) registry
              else let versioned_id = version_variant registry (cm_capability_id cm)
                   in hm_insert versioned_id (entry_for versioned_id) registry
          | None \<Rightarrow> hm_insert (cm_capability_id cm) (entry_for (cm_capability_id cm)) registry))"

text \<open>\<open>entry(k).or_default().push(v)\<close>\<close>

definition hm_push :: "'k \<Rightarrow> 'v \<Rightarrow> ('k, 'v list) hashmap \<Rightarrow> ('k, 'v list) hashmap" where
  "hm_push k v m = hm_insert k ((case hm_get m k of None \<Rightarrow> [] | Some vs \<Rightarrow> vs) @ [v]) m"

definition register_contribution :: "plugin_id \<Rightarrow> Contribution \<Rightarrow> 'sig plugin_registry \<Rightarrow> 'sig plugin_registry" where
  "register_contribution pid contribution r =
     (case contribution of
        Capability cm \<Rightarrow> r\<lparr>pr_registry := snd (register_implementation pid cm (pr_registry r))\<rparr>
      | Agent ac \<Rightarrow> r\<lparr>pr_agent_contributions := hm_push pid ac (pr_agent_contributions r)\<rparr>
      | HardwareSupport hs \<Rightarrow> r\<lparr>pr_hardware_support := hm_push pid hs (pr_hardware_support r)\<rparr>
      | KnowledgeProvider kp \<Rightarrow> r\<lparr>pr_knowledge_providers := hm_push pid kp (pr_knowledge_providers r)\<rparr>
      | UiComponent ui \<Rightarrow> r\<lparr>pr_ui_components := hm_push pid ui (pr_ui_components r)\<rparr>
      | AutomationWorkflow aw \<Rightarrow> r\<lparr>pr_automation_workflows := hm_push pid aw (pr_automation_workflows r)\<rparr>
      | MemoryProvider mp \<Rightarrow> r\<lparr>pr_memory_providers := hm_push pid mp (pr_memory_providers r)\<rparr>
      | ExecutionEngine ee \<Rightarrow> r\<lparr>pr_execution_engines := hm_push pid ee (pr_execution_engines r)\<rparr>)"

definition register_contributions :: "plugin_id \<Rightarrow> Contribution list \<Rightarrow> 'sig plugin_registry \<Rightarrow> 'sig plugin_registry" where
  "register_contributions pid contributions r = fold (register_contribution pid) contributions r"

definition disown :: "plugin_id \<Rightarrow> registry_entry \<Rightarrow> registry_entry" where
  "disown pid entry =
     entry\<lparr>re_implementations := filter (\<lambda>d. id_plugin_id d \<noteq> pid) (re_implementations entry),
           re_owning_plugins := filter (\<lambda>p. p \<noteq> pid) (re_owning_plugins entry)\<rparr>"

definition remove_registry_and_contributions :: "plugin_id \<Rightarrow> 'sig plugin_registry \<Rightarrow> 'sig plugin_registry" where
  "remove_registry_and_contributions pid r =
     r\<lparr>pr_registry := hm_retain (\<lambda>_ entry. re_implementations entry \<noteq> []) (hm_map_values (disown pid) (pr_registry r)),
       pr_agent_contributions := hm_remove pid (pr_agent_contributions r),
       pr_hardware_support := hm_remove pid (pr_hardware_support r),
       pr_knowledge_providers := hm_remove pid (pr_knowledge_providers r),
       pr_ui_components := hm_remove pid (pr_ui_components r),
       pr_automation_workflows := hm_remove pid (pr_automation_workflows r),
       pr_memory_providers := hm_remove pid (pr_memory_providers r),
       pr_execution_engines := hm_remove pid (pr_execution_engines r)\<rparr>"

section \<open>Installing\<close>

text \<open>
  The state of the monitor, and a derivation without a time to live; the clock is read once per
  derivation, as the \<open>k\<close>-th reading of \<open>nows\<close>.
\<close>

type_synonym cap_state = "u64 \<times> capability_monitor"

definition plugin_derive ::
    "capability_token \<Rightarrow> u32 \<Rightarrow> trust_boundary_id \<Rightarrow> instant \<Rightarrow> cap_state
     \<Rightarrow> (PluginError, capability_token) result \<times> cap_state" where
  "plugin_derive admin rights boundary now c =
     (case cap_derive (fst c) (snd c) admin rights None boundary now now of
        (res, NEXT, m) \<Rightarrow> (map_err PluginCapability res, (NEXT, m)))"

fun mint_requested ::
    "(nat \<Rightarrow> instant) \<Rightarrow> capability_token \<Rightarrow> trust_boundary_id \<Rightarrow> capability_grant_request list \<Rightarrow> cap_state
     \<Rightarrow> (PluginError, capability_token list) result \<times> cap_state" where
  "mint_requested nows admin boundary [] c = (Inr [], c)"
| "mint_requested nows admin boundary (request # requests) c =
     (case plugin_derive admin (rights_for (gr_operation request)) boundary (nows 0) c of
        (Inl e, c) \<Rightarrow> (Inl e, c)
      | (Inr token, c) \<Rightarrow>
          (case mint_requested (\<lambda>k. nows (Suc k)) admin boundary requests c of
             (Inl e, c) \<Rightarrow> (Inl e, c)
           | (Inr minted, c) \<Rightarrow> (Inr (token # minted), c)))"

definition install_validated ::
    "plugin_fs \<Rightarrow> (nat \<Rightarrow> instant) \<Rightarrow> capability_token \<Rightarrow> 'sig plugin_manifest \<Rightarrow> TrustDepth \<Rightarrow> bool
     \<Rightarrow> cap_state \<Rightarrow> 'sig plugin_registry
     \<Rightarrow> (PluginError, plugin_handle) result \<times> cap_state \<times> 'sig plugin_registry" where
  "install_validated fs nows admin manifest available_depth consented c r =
     (if depth_rank available_depth < depth_rank (pm_min_trust_depth manifest)
      then (Inl InsufficientTrustDepth, c, r)
      else if \<not> consented then (Inl ConsentDeclined, c, r)
      else case validate_contributions fs (pm_contributions manifest) of
        Inl e \<Rightarrow> (Inl e, c, r)
      | Inr _ \<Rightarrow>
          (let pid = pr_next_plugin_id r;
               boundary = 1000000 + pr_next_boundary_ordinal r;
               r = r\<lparr>pr_next_plugin_id := pid + 1, pr_next_boundary_ordinal := pr_next_boundary_ordinal r + 1\<rparr>
           in case mint_requested nows admin boundary (pm_requested_permissions manifest) c of
                (Inl e, c) \<Rightarrow> (Inl e, c, r)
              | (Inr minted, c) \<Rightarrow>
                  (case (if needs_sandbox_token manifest
                         then case plugin_derive admin (READ OR WRITE) boundary (nows (length (pm_requested_permissions manifest))) c of
                                (Inl e, c) \<Rightarrow> (Inl e, c, r)
                              | (Inr sandbox_token, c) \<Rightarrow>
                                  (Inr (), c, r\<lparr>pr_sandbox_tokens := hm_insert pid sandbox_token (pr_sandbox_tokens r)\<rparr>)
                         else (Inr (), c, r)) of
                     (Inl e, c, r) \<Rightarrow> (Inl e, c, r)
                   | (Inr _, c, r) \<Rightarrow>
                       (let r = register_contributions pid (pm_contributions manifest) r
                        in (Inr \<lparr>ph_plugin_id = pid, ph_boundary = boundary\<rparr>, c,
                            r\<lparr>pr_plugins := hm_insert pid manifest (pr_plugins r),
                              pr_boundaries := hm_insert pid boundary (pr_boundaries r),
                              pr_tokens := hm_insert pid minted (pr_tokens r)\<rparr>)))))"

definition plugin_require ::
    "cap_state \<Rightarrow> capability_token \<Rightarrow> u32 \<Rightarrow> instant \<Rightarrow> (PluginError, unit) result" where
  "plugin_require c token rights now = map_err (\<lambda>_. PluginUnauthorized) (check_rights_ok_result (snd c) token rights now)"

definition plugin_install ::
    "(u8 list \<Rightarrow> 'sig \<Rightarrow> 'key \<Rightarrow> bool) \<Rightarrow> plugin_fs \<Rightarrow> instant \<Rightarrow> (nat \<Rightarrow> instant) \<Rightarrow> capability_token
     \<Rightarrow> 'sig plugin_manifest \<Rightarrow> TrustDepth \<Rightarrow> bool \<Rightarrow> 'key \<Rightarrow> cap_state \<Rightarrow> 'sig plugin_registry
     \<Rightarrow> (PluginError, plugin_handle) result \<times> cap_state \<times> 'sig plugin_registry" where
  "plugin_install verify fs now nows admin manifest available_depth consented verifying_key c r =
     (case and_then (plugin_require c admin GRANT now) (\<lambda>_. validate_manifest verify manifest verifying_key) of
        Inl e \<Rightarrow> (Inl e, c, r)
      | Inr _ \<Rightarrow> install_validated fs nows admin manifest available_depth consented c r)"

definition install_with_publisher_registry ::
    "(u8 list \<Rightarrow> 'sig \<Rightarrow> 'key \<Rightarrow> bool) \<Rightarrow> plugin_fs \<Rightarrow> instant \<Rightarrow> (nat \<Rightarrow> instant) \<Rightarrow> capability_token
     \<Rightarrow> 'sig plugin_manifest \<Rightarrow> TrustDepth \<Rightarrow> bool \<Rightarrow> 'key publisher_registry \<Rightarrow> cap_state \<Rightarrow> 'sig plugin_registry
     \<Rightarrow> (PluginError, plugin_handle) result \<times> cap_state \<times> 'sig plugin_registry" where
  "install_with_publisher_registry verify fs now nows admin manifest available_depth consented publishers c r =
     (case and_then (plugin_require c admin GRANT now) (\<lambda>_. validate_manifest_against_registry verify manifest publishers) of
        Inl e \<Rightarrow> (Inl e, c, r)
      | Inr _ \<Rightarrow> install_validated fs nows admin manifest available_depth consented c r)"

section \<open>Updating\<close>

definition plugin_and_boundary ::
    "plugin_id \<Rightarrow> 'sig plugin_registry \<Rightarrow> (PluginError, 'sig plugin_manifest \<times> trust_boundary_id) result" where
  "plugin_and_boundary pid r =
     (case hm_get (pr_plugins r) pid of
        None \<Rightarrow> Inl NoSuchPlugin
      | Some old_manifest \<Rightarrow>
          (case hm_get (pr_boundaries r) pid of
             None \<Rightarrow> Inl NoSuchPlugin
           | Some boundary \<Rightarrow> Inr (old_manifest, boundary)))"

text \<open>The tokens of an updated plugin; indexing past the old tokens panics, the value None.\<close>

fun updated_tokens ::
    "(nat \<Rightarrow> instant) \<Rightarrow> capability_token \<Rightarrow> trust_boundary_id \<Rightarrow> capability_grant_request list \<Rightarrow> capability_token list
     \<Rightarrow> capability_grant_request list \<Rightarrow> cap_state
     \<Rightarrow> ((PluginError, capability_token list) result \<times> cap_state) option" where
  "updated_tokens nows admin boundary old_permissions old_tokens [] c = Some (Inr [], c)"
| "updated_tokens nows admin boundary old_permissions old_tokens (grant # grants) c =
     Option.bind
       (case position (\<lambda>existing. grants_equal existing grant) old_permissions of
          Some i \<Rightarrow> if i < length old_tokens then Some (Inr (old_tokens ! i), c) else None
        | None \<Rightarrow> Some (plugin_derive admin (rights_for (gr_operation grant)) boundary (nows 0) c))
       (\<lambda>(res, c).
          case res of
            Inl e \<Rightarrow> Some (Inl e, c)
          | Inr token \<Rightarrow>
              map_option (\<lambda>(res, c). (case res of Inl e \<Rightarrow> Inl e | Inr tokens \<Rightarrow> Inr (token # tokens), c))
                (updated_tokens (\<lambda>k. nows (Suc k)) admin boundary old_permissions old_tokens grants c))"

definition plugin_revoke :: "capability_token \<Rightarrow> cap_state \<Rightarrow> cap_state option" where
  "plugin_revoke token c = map_option (\<lambda>(m, _). (fst c, m)) (cap_revoke (snd c) token)"

fun revoke_dropped ::
    "capability_grant_request list \<Rightarrow> capability_token list \<Rightarrow> nat \<Rightarrow> capability_grant_request list \<Rightarrow> cap_state
     \<Rightarrow> cap_state option" where
  "revoke_dropped new_permissions old_tokens i [] c = Some c"
| "revoke_dropped new_permissions old_tokens i (old_grant # old_grants) c =
     Option.bind
       (if list_ex (\<lambda>grant. grants_equal grant old_grant) new_permissions then Some c
        else if i < length old_tokens then plugin_revoke (old_tokens ! i) c else None)
       (revoke_dropped new_permissions old_tokens (Suc i) old_grants)"

definition new_grants ::
    "'sig plugin_manifest \<Rightarrow> 'sig plugin_manifest \<Rightarrow> capability_grant_request list" where
  "new_grants old_manifest new_manifest =
     filter (\<lambda>grant. \<not> list_ex (\<lambda>existing. grants_equal existing grant) (pm_requested_permissions old_manifest))
       (pm_requested_permissions new_manifest)"

definition update_validated ::
    "plugin_fs \<Rightarrow> (nat \<Rightarrow> instant) \<Rightarrow> capability_token \<Rightarrow> plugin_id \<Rightarrow> 'sig plugin_manifest \<Rightarrow> trust_boundary_id
     \<Rightarrow> 'sig plugin_manifest \<Rightarrow> TrustDepth \<Rightarrow> bool \<Rightarrow> cap_state \<Rightarrow> 'sig plugin_registry
     \<Rightarrow> ((PluginError, capability_grant_request list) result \<times> cap_state \<times> 'sig plugin_registry) option" where
  "update_validated fs nows admin pid old_manifest boundary new_manifest available_depth consented c r =
     (if depth_rank available_depth < depth_rank (pm_min_trust_depth new_manifest)
      then Some (Inl InsufficientTrustDepth, c, r)
      else if new_grants old_manifest new_manifest \<noteq> [] \<and> \<not> consented then Some (Inl ConsentDeclined, c, r)
      else case validate_contributions fs (pm_contributions new_manifest) of
        Inl e \<Rightarrow> Some (Inl e, c, r)
      | Inr _ \<Rightarrow>
          (let old_tokens = (case hm_get (pr_tokens r) pid of None \<Rightarrow> [] | Some tokens \<Rightarrow> tokens);
               old_permissions = pm_requested_permissions old_manifest;
               new_permissions = pm_requested_permissions new_manifest
           in Option.bind (updated_tokens nows admin boundary old_permissions old_tokens new_permissions c) (\<lambda>(res, c).
                case res of
                  Inl e \<Rightarrow> Some (Inl e, c, r)
                | Inr tokens \<Rightarrow>
                    map_option (\<lambda>c.
                      let r = register_contributions pid (pm_contributions new_manifest) (remove_registry_and_contributions pid r)
                      in case (if needs_sandbox_token new_manifest \<and> hm_get (pr_sandbox_tokens r) pid = None
                               then case plugin_derive admin (READ OR WRITE) boundary (nows (length new_permissions)) c of
                                      (Inl e, c) \<Rightarrow> (Inl e, c, r)
                                    | (Inr sandbox_token, c) \<Rightarrow>
                                        (Inr (), c, r\<lparr>pr_sandbox_tokens := hm_insert pid sandbox_token (pr_sandbox_tokens r)\<rparr>)
                               else if \<not> needs_sandbox_token new_manifest
                               then (Inr (), c, r\<lparr>pr_sandbox_tokens := hm_remove pid (pr_sandbox_tokens r)\<rparr>)
                               else (Inr (), c, r)) of
                           (Inl e, c, r) \<Rightarrow> (Inl e, c, r)
                         | (Inr _, c, r) \<Rightarrow>
                             (Inr (new_grants old_manifest new_manifest), c,
                              r\<lparr>pr_plugins := hm_insert pid new_manifest (pr_plugins r),
                                pr_tokens := hm_insert pid tokens (pr_tokens r)\<rparr>))
                      (revoke_dropped new_permissions old_tokens 0 old_permissions c))))"

definition plugin_update ::
    "(u8 list \<Rightarrow> 'sig \<Rightarrow> 'key \<Rightarrow> bool) \<Rightarrow> plugin_fs \<Rightarrow> instant \<Rightarrow> (nat \<Rightarrow> instant) \<Rightarrow> capability_token \<Rightarrow> plugin_id
     \<Rightarrow> 'sig plugin_manifest \<Rightarrow> TrustDepth \<Rightarrow> bool \<Rightarrow> 'key \<Rightarrow> cap_state \<Rightarrow> 'sig plugin_registry
     \<Rightarrow> ((PluginError, capability_grant_request list) result \<times> cap_state \<times> 'sig plugin_registry) option" where
  "plugin_update verify fs now nows admin pid new_manifest available_depth consented verifying_key c r =
     (case and_then (plugin_require c admin GRANT now) (\<lambda>_. and_then (plugin_and_boundary pid r) (\<lambda>old.
             and_then (validate_manifest verify new_manifest verifying_key) (\<lambda>_. Inr old))) of
        Inl e \<Rightarrow> Some (Inl e, c, r)
      | Inr (old_manifest, boundary) \<Rightarrow>
          update_validated fs nows admin pid old_manifest boundary new_manifest available_depth consented c r)"

definition update_with_publisher_registry ::
    "(u8 list \<Rightarrow> 'sig \<Rightarrow> 'key \<Rightarrow> bool) \<Rightarrow> plugin_fs \<Rightarrow> instant \<Rightarrow> (nat \<Rightarrow> instant) \<Rightarrow> capability_token \<Rightarrow> plugin_id
     \<Rightarrow> 'sig plugin_manifest \<Rightarrow> TrustDepth \<Rightarrow> bool \<Rightarrow> 'key publisher_registry \<Rightarrow> cap_state \<Rightarrow> 'sig plugin_registry
     \<Rightarrow> ((PluginError, capability_grant_request list) result \<times> cap_state \<times> 'sig plugin_registry) option" where
  "update_with_publisher_registry verify fs now nows admin pid new_manifest available_depth consented publishers c r =
     (case and_then (plugin_require c admin GRANT now) (\<lambda>_. and_then (plugin_and_boundary pid r) (\<lambda>old.
             and_then (validate_manifest_against_registry verify new_manifest publishers) (\<lambda>_. Inr old))) of
        Inl e \<Rightarrow> Some (Inl e, c, r)
      | Inr (old_manifest, boundary) \<Rightarrow>
          update_validated fs nows admin pid old_manifest boundary new_manifest available_depth consented c r)"

section \<open>Uninstalling and quarantine\<close>

fun revoke_tokens :: "capability_token list \<Rightarrow> cap_state \<Rightarrow> cap_state option" where
  "revoke_tokens [] c = Some c"
| "revoke_tokens (token # tokens) c = Option.bind (plugin_revoke token c) (revoke_tokens tokens)"

definition uninstall ::
    "instant \<Rightarrow> capability_token \<Rightarrow> plugin_id \<Rightarrow> cap_state \<Rightarrow> 'sig plugin_registry
     \<Rightarrow> ((PluginError, unit) result \<times> cap_state \<times> 'sig plugin_registry) option" where
  "uninstall now admin pid c r =
     (case plugin_require c admin REVOKE now of
        Inl e \<Rightarrow> Some (Inl e, c, r)
      | Inr _ \<Rightarrow>
          (case hm_get (pr_tokens r) pid of
             None \<Rightarrow> Some (Inl NoSuchPlugin, c, r)
           | Some tokens \<Rightarrow>
               map_option (\<lambda>c.
                 let r = remove_registry_and_contributions pid (r\<lparr>pr_tokens := hm_remove pid (pr_tokens r)\<rparr>)
                 in (Inr (), c,
                     r\<lparr>pr_plugins := hm_remove pid (pr_plugins r),
                       pr_boundaries := hm_remove pid (pr_boundaries r),
                       pr_quarantined_plugins := pr_quarantined_plugins r - {pid}\<rparr>))
                 (revoke_tokens tokens c)))"

definition quarantine ::
    "plugin_id \<Rightarrow> QuarantineReason \<Rightarrow> 'sig plugin_registry \<Rightarrow> (PluginError, unit) result \<times> 'sig plugin_registry" where
  "quarantine pid reason r =
     (if hm_get (pr_plugins r) pid = None then (Inl NoSuchPlugin, r)
      else (Inr (),
            r\<lparr>pr_registry :=
                hm_map_values (\<lambda>entry. if pid \<in> set (re_owning_plugins entry)
                                       then entry\<lparr>re_install_state := Quarantined\<rparr> else entry) (pr_registry r),
              pr_quarantined_plugins := insert pid (pr_quarantined_plugins r)\<rparr>))"

section \<open>Lookups\<close>

definition visible :: "plugin_id set \<Rightarrow> (plugin_id, 'v list) hashmap \<Rightarrow> 'v list" where
  "visible quarantined m = concat (map snd (filter (\<lambda>(pid, _). pid \<notin> quarantined) m))"

definition agent_contributions :: "'sig plugin_registry \<Rightarrow> agent_contribution list" where
  "agent_contributions r = visible (pr_quarantined_plugins r) (pr_agent_contributions r)"

definition hardware_support_contributions :: "'sig plugin_registry \<Rightarrow> hardware_support_contribution list" where
  "hardware_support_contributions r = visible (pr_quarantined_plugins r) (pr_hardware_support r)"

definition knowledge_provider_contributions :: "'sig plugin_registry \<Rightarrow> knowledge_provider_contribution list" where
  "knowledge_provider_contributions r = visible (pr_quarantined_plugins r) (pr_knowledge_providers r)"

definition ui_component_contributions :: "'sig plugin_registry \<Rightarrow> ui_component_contribution list" where
  "ui_component_contributions r = visible (pr_quarantined_plugins r) (pr_ui_components r)"

definition automation_workflow_contributions :: "'sig plugin_registry \<Rightarrow> automation_workflow_contribution list" where
  "automation_workflow_contributions r = visible (pr_quarantined_plugins r) (pr_automation_workflows r)"

definition memory_provider_contributions :: "'sig plugin_registry \<Rightarrow> memory_provider_contribution list" where
  "memory_provider_contributions r = visible (pr_quarantined_plugins r) (pr_memory_providers r)"

definition execution_engine :: "string \<Rightarrow> 'sig plugin_registry \<Rightarrow> execution_engine_contribution option" where
  "execution_engine engine_id r =
     find (\<lambda>ee. ee_engine_id ee = engine_id) (visible (pr_quarantined_plugins r) (pr_execution_engines r))"

definition execution_engine_ids :: "'sig plugin_registry \<Rightarrow> string list" where
  "execution_engine_ids r =
     remdups_adj (sort (map ee_engine_id (visible (pr_quarantined_plugins r) (pr_execution_engines r))))"

definition plugin_query :: "capability_name \<Rightarrow> 'sig plugin_registry \<Rightarrow> registry_entry option" where
  "plugin_query capability_id r =
     (case hm_get (pr_registry r) capability_id of
        None \<Rightarrow> None
      | Some entry \<Rightarrow> if re_install_state entry \<noteq> Quarantined then Some entry else None)"

definition capability_entries :: "'sig plugin_registry \<Rightarrow> registry_entry list" where
  "capability_entries r =
     sort_key re_capability_id (filter (\<lambda>e. re_install_state e \<noteq> Quarantined) (hm_values (pr_registry r)))"

definition boundary_of :: "plugin_id \<Rightarrow> 'sig plugin_registry \<Rightarrow> trust_boundary_id option" where
  "boundary_of pid r = hm_get (pr_boundaries r) pid"

definition tokens_of :: "plugin_id \<Rightarrow> 'sig plugin_registry \<Rightarrow> capability_token list option" where
  "tokens_of pid r = hm_get (pr_tokens r) pid"

section \<open>Running a native binary\<close>

definition keeps_state :: "semantic_contract \<Rightarrow> bool" where
  "keeps_state contract \<longleftrightarrow> CreatesSemanticObject \<in> set (sc_side_effects contract)"

text \<open>\<open>Path::join\<close> with a relative path.\<close>

definition path_join :: "string \<Rightarrow> string \<Rightarrow> string" where
  "path_join a b = (if a = [] \<or> last a = CHR ''/'' then a @ b else a @ ''/'' @ b)"

definition encoded_id :: "capability_name \<Rightarrow> string" where
  "encoded_id capability_id = map (\<lambda>b. char_of (unat b)) (to_hex (as_bytes capability_id))"

definition data_scope_for ::
    "(string \<Rightarrow> bool) \<Rightarrow> capability_name \<Rightarrow> registry_entry \<Rightarrow> trust_boundary_id \<Rightarrow> 'sig plugin_registry
     \<Rightarrow> (PluginError, string option) result" where
  "data_scope_for create_dir capability_id entry caller r =
     (case pr_app_data_root r of
        None \<Rightarrow> Inr None
      | Some root_dir \<Rightarrow>
          if \<not> keeps_state (re_contract entry) then Inr None
          else let dir = path_join (path_join root_dir (show_nat (unat caller))) (encoded_id capability_id)
               in if create_dir dir then Inr (Some dir) else Inl (ExecutionFailed NoDataDirectory))"

record spawn_grant =
  sg_token :: capability_token
  sg_depth :: BoundaryDepth
  sg_fs_scope :: string
  sg_read_only_paths :: "string list"
  sg_data_scope :: "string option"
  sg_ipc_rendezvous :: "string option"

text \<open>
  What the sandbox does: whether a process starts for a grant and a command line, what the wait and
  the clock say at each poll, whether a kill succeeds, and what the output file holds.
\<close>

datatype poll = Exited int | Running instant | WaitFailed

record 'j sandbox_io =
  sb_tempdir :: "string option"
  sb_write_input :: "'j \<Rightarrow> bool"
  sb_create_dir :: "string \<Rightarrow> bool"
  sb_spawn :: "spawn_grant \<Rightarrow> string \<Rightarrow> string list \<Rightarrow> bool"
  sb_started :: instant
  sb_polls :: "poll list"
  sb_kill :: bool
  sb_output :: "u8 list option"
  sb_from_slice :: "u8 list \<Rightarrow> 'j option"

definition NATIVE_BINARY_TIMEOUT :: duration where
  "NATIVE_BINARY_TIMEOUT = 120 * 10 ^ 9"

text \<open>The polls, up to the exit or the deadline; None while the process still runs after the last of them.\<close>

fun await_exit :: "instant \<Rightarrow> bool \<Rightarrow> poll list \<Rightarrow> (PluginError, int) result option" where
  "await_exit deadline kill_ok [] = None"
| "await_exit deadline kill_ok (p # polls) =
     (case p of
        WaitFailed \<Rightarrow> Some (Inl (ExecutionFailed NotWaited))
      | Exited code \<Rightarrow> Some (Inr code)
      | Running now \<Rightarrow>
          if deadline \<le> now
          then Some (Inl (ExecutionFailed (if kill_ok then TimedOut else NotKilled)))
          else await_exit deadline kill_ok polls)"

definition invoke_native_binary ::
    "'j sandbox_io \<Rightarrow> capability_name \<Rightarrow> 'j \<Rightarrow> trust_boundary_id \<Rightarrow> 'sig plugin_registry \<Rightarrow> (PluginError, 'j) result option" where
  "invoke_native_binary io capability_id args caller r =
     (case plugin_query capability_id r of
        None \<Rightarrow> Some (Inl NoSuchCapability)
      | Some entry \<Rightarrow>
      (case find (\<lambda>d. id_native_binary d \<noteq> None) (re_implementations entry) of
        None \<Rightarrow> Some (Inl (NoRunnableImplementation capability_id))
      | Some descriptor \<Rightarrow>
          (let native = the (id_native_binary descriptor); pid = id_plugin_id descriptor in
      (case hm_get (pr_sandbox_tokens r) pid of
        None \<Rightarrow> Some (Inl NoSuchPlugin)
      | Some token \<Rightarrow>
      (case map_option pm_min_trust_depth (hm_get (pr_plugins r) pid) of
        None \<Rightarrow> Some (Inl NoSuchPlugin)
      | Some policy_depth \<Rightarrow>
      (case sb_tempdir io of
        None \<Rightarrow> Some (Inl (ExecutionFailed NoTempDir))
      | Some tempdir \<Rightarrow>
          if \<not> sb_write_input io args then Some (Inl (ExecutionFailed InputNotWritten)) else
      (case data_scope_for (sb_create_dir io) capability_id entry caller r of
        Inl e \<Rightarrow> Some (Inl e)
      | Inr data_scope \<Rightarrow>
          (let command_args = nb_args native @ [path_join tempdir ''input.json'', path_join tempdir ''output.json'']
                 @ (case data_scope of None \<Rightarrow> [] | Some dir \<Rightarrow> [dir]);
               grant = \<lparr>sg_token = token, sg_depth = real_trust_depth policy_depth, sg_fs_scope = tempdir,
                        sg_read_only_paths = (case nb_script native of None \<Rightarrow> [] | Some script \<Rightarrow> [script]),
                        sg_data_scope = data_scope, sg_ipc_rendezvous = None\<rparr>
           in if \<not> sb_spawn io grant (nb_program native) command_args then Some (Inl (ExecutionFailed NotSpawned))
              else map_option (\<lambda>res.
                case res of
                  Inl e \<Rightarrow> Inl e
                | Inr exit_code \<Rightarrow>
                    if exit_code \<noteq> 0 then Inl (ExecutionFailed (ExitedWith exit_code))
                    else case sb_output io of
                           None \<Rightarrow> Inl (ExecutionFailed NoOutput)
                         | Some output_bytes \<Rightarrow> ok_or (ExecutionFailed OutputNotJson) (sb_from_slice io output_bytes))
                (await_exit (sb_started io + NATIVE_BINARY_TIMEOUT) (sb_kill io) (sb_polls io))))))))))"

end
