(* ===== verification/Plugin_Safety.thy ===== *)
theory Plugin_Safety
  imports Plugin_Registry
begin

text \<open>
  What the plugin registry guarantees: a plugin holds exactly the tokens its manifest asked for and
  its contributions justify, uninstalling it ends all of them and removes every trace, the registry
  stays consistent in every reachable state, and no two capabilities or callers share a data directory.
\<close>

section \<open>Deriving tokens for plugins\<close>

abbreviation cap_wf :: "cap_state \<Rightarrow> bool" where
  "cap_wf c \<equiv> monitor_wf (fst c) (snd c)"

text \<open>A token that exists already: its identity is below the counter.\<close>

definition elder :: "cap_state \<Rightarrow> capability_token \<Rightarrow> bool" where
  "elder c t \<longleftrightarrow> ct_token_id t < fst c"

lemma plugin_derive_Inr:
  assumes "plugin_derive admin rights boundary now c = (Inr t, c')" "cap_wf c" "fst c \<noteq> - 1"
  shows "cap_wf c'" "fst c' = fst c + 1" "is_live (snd c) admin now" "contains (ct_rights admin) rights"
    "t = \<lparr>ct_token_id = fst c, ct_object_id = ct_object_id admin, ct_rights = rights, ct_generation = 0,
          ct_origin = boundary, ct_expiry = ct_expiry admin\<rparr>"
    "is_live (snd c') t i \<longleftrightarrow> \<not> is_expired t i"
    "elder c t' \<Longrightarrow> is_live (snd c') t' i \<longleftrightarrow> is_live (snd c) t' i"
proof -
  from assms(1) obtain NEXT m where d: "cap_derive (fst c) (snd c) admin rights None boundary now now = (Inr t, NEXT, m)"
    and c': "c' = (NEXT, m)"
    by (cases c') (auto simp: plugin_derive_def map_err_Inr_iff split: prod.splits)
  note f = cap_derive_Inr [OF d]
  show "cap_wf c'" using cap_derive_graph_wf [OF assms(2,3) d] c' by simp
  show "fst c' = fst c + 1" "is_live (snd c) admin now" "contains (ct_rights admin) rights" using f c' by simp_all
  show t: "t = \<lparr>ct_token_id = fst c, ct_object_id = ct_object_id admin, ct_rights = rights, ct_generation = 0,
          ct_origin = boundary, ct_expiry = ct_expiry admin\<rparr>"
    using f(5) by (cases "ct_expiry admin") simp_all
  show "is_live (snd c') t i \<longleftrightarrow> \<not> is_expired t i"
    by (auto simp: is_live_def f c' matches_record_def live_generation_def insert_child_def)
  show "is_live (snd c') t' i \<longleftrightarrow> is_live (snd c) t' i" if "elder c t'"
    using that
    by (auto simp: elder_def is_live_def f c' matches_record_def live_generation_def insert_child_def split: option.splits)
qed

lemma plugin_derive_Inl:
  assumes "plugin_derive admin rights boundary now c = (Inl e, c')"
  shows "c' = c" "\<exists>f. e = PluginCapability f"
proof -
  obtain res NEXT m where d: "cap_derive (fst c) (snd c) admin rights None boundary now now = (res, NEXT, m)"
    by (metis prod_cases3)
  with assms obtain f where f: "res = Inl f" "e = PluginCapability f" and c': "c' = (NEXT, m)"
    by (cases res) (simp_all add: plugin_derive_def)
  from f(2) show "\<exists>f. e = PluginCapability f" by blast
  show "c' = c" using cap_derive_Inl [OF d [unfolded f(1)]] c' by simp
qed

text \<open>What one request is granted.\<close>

definition granted :: "capability_token \<Rightarrow> trust_boundary_id \<Rightarrow> capability_grant_request \<Rightarrow> capability_token \<Rightarrow> bool" where
  "granted admin boundary request t \<longleftrightarrow>
     ct_rights t = rights_for (gr_operation request) \<and> contains (ct_rights admin) (ct_rights t)
     \<and> ct_object_id t = ct_object_id admin \<and> ct_origin t = boundary \<and> ct_expiry t = ct_expiry admin \<and> ct_generation t = 0"

lemma mint_requested_Inr:
  assumes "mint_requested nows admin boundary requests c = (Inr ts, c')" "cap_wf c"
    "unat (fst c) + length requests < 2 ^ 64"
  shows "cap_wf c' \<and> unat (fst c') = unat (fst c) + length requests
    \<and> list_all2 (granted admin boundary) requests ts
    \<and> (\<forall>t \<in> set ts. elder c' t \<and> \<not> elder c t \<and> (\<forall>i. is_live (snd c') t i \<longleftrightarrow> \<not> is_expired t i))
    \<and> (\<forall>t i. elder c t \<longrightarrow> elder c' t \<and> (is_live (snd c') t i \<longleftrightarrow> is_live (snd c) t i))"
  using assms
proof (induction requests arbitrary: nows c ts)
  case Nil
  then show ?case by simp
next
  case (Cons request requests)
  from Cons.prems(3) have small: "fst c \<noteq> - 1" by (auto simp: unat_max_word)
  from Cons.prems(1) obtain t c1 ts1 where
    d: "plugin_derive admin (rights_for (gr_operation request)) boundary (nows 0) c = (Inr t, c1)"
    and rest: "mint_requested (\<lambda>k. nows (Suc k)) admin boundary requests c1 = (Inr ts1, c')" and ts: "ts = t # ts1"
    by (auto split: prod.splits sum.splits)
  note d' = plugin_derive_Inr [OF d Cons.prems(2) small]
  have n: "unat (fst c1) = Suc (unat (fst c))" using d'(2) small by (simp add: unat_add_one)
  with Cons.prems(3) have "unat (fst c1) + length requests < 2 ^ 64" by simp
  note IH = Cons.IH [OF rest d'(1) this]
  have older: "elder c1 x" if "elder c x" for x using that n by (simp add: elder_def word_less_nat_alt)
  have t: "elder c1 t" "\<not> elder c t" using n by (simp_all add: d'(5) elder_def word_less_nat_alt)
  have "granted admin boundary request t" using d'(4) by (simp add: granted_def d'(5))
  moreover have "\<not> elder c x" if "x \<in> set ts1" for x using that older IH by blast
  ultimately show ?case using IH n t d'(6) d'(7) older ts by auto
qed

lemma mint_requested_length:
  "mint_requested nows admin boundary requests c = (Inr ts, c') \<Longrightarrow> length ts = length requests"
  by (induction requests arbitrary: nows c ts) (auto split: prod.splits sum.splits)

lemma mint_requested_Inl:
  "mint_requested nows admin boundary requests c = (Inl e, c') \<Longrightarrow> \<exists>f. e = PluginCapability f"
  by (induction requests arbitrary: nows c) (auto split: prod.splits sum.splits dest: plugin_derive_Inl(2))

section \<open>Registering contributions\<close>

definition described :: "plugin_id \<Rightarrow> capability_manifest \<Rightarrow> implementation_descriptor" where
  "described pid cm = fst (register_implementation pid cm [])"

lemma fst_register_implementation: "fst (register_implementation pid cm reg) = described pid cm"
  by (simp add: described_def register_implementation_def Let_def)

lemma described_plugin [simp]: "id_plugin_id (described pid cm) = pid"
  by (simp add: described_def register_implementation_def Let_def)

lemma version_variant_from_free: "hm_get reg (version_variant_from reg cid n) = None"
proof (induction reg cid n rule: version_variant_from.induct)
  case (1 reg cid n)
  then show ?case by (subst version_variant_from.simps) simp
qed

lemma version_variant_free: "hm_get reg (version_variant reg cid) = None"
  by (simp add: version_variant_def version_variant_from_free)

text \<open>
  The one entry a registration touches: an entry of the same contract is extended, and otherwise a
  name that was free gets a new entry.
\<close>

lemma register_implementation_get:
  obtains (extend) e where "hm_get reg (cm_capability_id cm) = Some e" "re_contract e = cm_contract cm"
      "snd (register_implementation pid cm reg)
        = hm_insert (cm_capability_id cm) (e\<lparr>re_implementations := re_implementations e @ [described pid cm],
            re_owning_plugins := re_owning_plugins e @ [pid]\<rparr>) reg"
  | (fresh) cid where "hm_get reg cid = None"
      "snd (register_implementation pid cm reg)
        = hm_insert cid \<lparr>re_capability_id = cid, re_contract = cm_contract cm, re_implementations = [described pid cm],
            re_owning_plugins = [pid], re_install_state = Active\<rparr> reg"
proof (cases "hm_get reg (cm_capability_id cm)")
  case None
  then show ?thesis by (intro fresh [OF None]) (simp add: register_implementation_def described_def Let_def)
next
  case (Some e)
  show ?thesis
  proof (cases "re_contract e = cm_contract cm")
    case True
    with Some show ?thesis by (intro extend [OF Some]) (simp_all add: register_implementation_def described_def Let_def)
  next
    case False
    with Some show ?thesis
      by (intro fresh [OF version_variant_free [of reg "cm_capability_id cm"]])
        (simp add: register_implementation_def described_def Let_def)
  qed
qed

lemma register_contribution_fields [simp]:
  "pr_tokens (register_contribution pid x r) = pr_tokens r"
  "pr_plugins (register_contribution pid x r) = pr_plugins r"
  "pr_boundaries (register_contribution pid x r) = pr_boundaries r"
  "pr_sandbox_tokens (register_contribution pid x r) = pr_sandbox_tokens r"
  "pr_quarantined_plugins (register_contribution pid x r) = pr_quarantined_plugins r"
  "pr_next_plugin_id (register_contribution pid x r) = pr_next_plugin_id r"
  "pr_next_boundary_ordinal (register_contribution pid x r) = pr_next_boundary_ordinal r"
  "pr_app_data_root (register_contribution pid x r) = pr_app_data_root r"
  by (simp_all add: register_contribution_def split: Contribution.splits)

lemma register_contributions_fields [simp]:
  "pr_tokens (register_contributions pid xs r) = pr_tokens r"
  "pr_plugins (register_contributions pid xs r) = pr_plugins r"
  "pr_boundaries (register_contributions pid xs r) = pr_boundaries r"
  "pr_sandbox_tokens (register_contributions pid xs r) = pr_sandbox_tokens r"
  "pr_quarantined_plugins (register_contributions pid xs r) = pr_quarantined_plugins r"
  "pr_next_plugin_id (register_contributions pid xs r) = pr_next_plugin_id r"
  "pr_next_boundary_ordinal (register_contributions pid xs r) = pr_next_boundary_ordinal r"
  "pr_app_data_root (register_contributions pid xs r) = pr_app_data_root r"
  unfolding register_contributions_def by (induction xs arbitrary: r) simp_all

text \<open>The registry part of a registration does not look at the rest of the state.\<close>

definition capabilities :: "Contribution list \<Rightarrow> capability_manifest list" where
  "capabilities xs = concat (map (\<lambda>x. case x of Capability cm \<Rightarrow> [cm] | _ \<Rightarrow> []) xs)"

lemma set_capabilities: "cm \<in> set (capabilities xs) \<longleftrightarrow> Capability cm \<in> set xs"
  by (auto simp: capabilities_def split: Contribution.splits)

lemma register_contributions_registry:
  "pr_registry (register_contributions pid xs r)
    = fold (\<lambda>cm reg. snd (register_implementation pid cm reg)) (capabilities xs) (pr_registry r)"
  unfolding register_contributions_def capabilities_def
  by (induction xs arbitrary: r) (simp_all add: register_contribution_def split: Contribution.splits)

definition implements :: "(capability_name, registry_entry) hashmap \<Rightarrow> semantic_contract \<Rightarrow> implementation_descriptor \<Rightarrow> bool" where
  "implements reg contract d \<longleftrightarrow>
     (\<exists>cid e. hm_get reg cid = Some e \<and> re_contract e = contract \<and> d \<in> set (re_implementations e))"

lemma implementsI: "hm_get reg cid = Some e \<Longrightarrow> d \<in> set (re_implementations e) \<Longrightarrow> implements reg (re_contract e) d"
  by (auto simp: implements_def)

lemma register_implementation_keeps:
  assumes "implements reg contract d"
  shows "implements (snd (register_implementation pid cm reg)) contract d"
proof -
  from assms obtain cid e where e: "hm_get reg cid = Some e" "re_contract e = contract" "d \<in> set (re_implementations e)"
    by (auto simp: implements_def)
  show ?thesis
  proof (cases rule: register_implementation_get [of reg cm pid])
    case (extend e')
    then have "\<exists>e''. hm_get (snd (register_implementation pid cm reg)) cid = Some e'' \<and> re_contract e'' = contract
        \<and> d \<in> set (re_implementations e'')"
      using e by (cases "cid = cm_capability_id cm") auto
    then show ?thesis unfolding implements_def by blast
  next
    case (fresh cid')
    then have "hm_get (snd (register_implementation pid cm reg)) cid = Some e" using e(1) by auto
    from implementsI [OF this e(3)] e(2) show ?thesis by simp
  qed
qed

lemma register_implementation_adds:
  "implements (snd (register_implementation pid cm reg)) (cm_contract cm) (described pid cm)"
proof (cases rule: register_implementation_get [of reg cm pid])
  case (extend e)
  then have "\<exists>e'. hm_get (snd (register_implementation pid cm reg)) (cm_capability_id cm) = Some e'
      \<and> re_contract e' = cm_contract cm \<and> described pid cm \<in> set (re_implementations e')" by simp
  then show ?thesis unfolding implements_def by blast
next
  case (fresh cid)
  then have "\<exists>e'. hm_get (snd (register_implementation pid cm reg)) cid = Some e'
      \<and> re_contract e' = cm_contract cm \<and> described pid cm \<in> set (re_implementations e')" by simp
  then show ?thesis unfolding implements_def by blast
qed

lemma fold_register_keeps:
  "implements reg contract d \<Longrightarrow>
    implements (fold (\<lambda>cm reg. snd (register_implementation pid cm reg)) cms reg) contract d"
  by (induction cms arbitrary: reg) (simp_all add: register_implementation_keeps)

lemma fold_register_adds:
  "cm \<in> set cms \<Longrightarrow>
    implements (fold (\<lambda>cm reg. snd (register_implementation pid cm reg)) cms reg) (cm_contract cm) (described pid cm)"
  by (induction cms arbitrary: reg) (auto intro: fold_register_keeps register_implementation_adds)

section \<open>Installing\<close>

lemma install_validated_Inr:
  assumes "install_validated fs nows admin manifest depth consented c r = (Inr h, c', r')"
  obtains minted c1 r1 where "consented" "depth_rank (pm_min_trust_depth manifest) \<le> depth_rank depth"
    "validate_contributions fs (pm_contributions manifest) = Inr ()"
    "h = \<lparr>ph_plugin_id = pr_next_plugin_id r, ph_boundary = 1000000 + pr_next_boundary_ordinal r\<rparr>"
    "mint_requested nows admin (ph_boundary h) (pm_requested_permissions manifest) c = (Inr minted, c1)"
    "(\<not> needs_sandbox_token manifest \<and> c' = c1 \<and> pr_sandbox_tokens r1 = pr_sandbox_tokens r)
      \<or> (needs_sandbox_token manifest \<and> (\<exists>t now. plugin_derive admin (READ OR WRITE) (ph_boundary h) now c1 = (Inr t, c')
            \<and> pr_sandbox_tokens r1 = hm_insert (ph_plugin_id h) t (pr_sandbox_tokens r)))"
    "r1 = r\<lparr>pr_next_plugin_id := pr_next_plugin_id r + 1, pr_next_boundary_ordinal := pr_next_boundary_ordinal r + 1,
            pr_sandbox_tokens := pr_sandbox_tokens r1\<rparr>"
    "r' = (register_contributions (ph_plugin_id h) (pm_contributions manifest) r1)
            \<lparr>pr_plugins := hm_insert (ph_plugin_id h) manifest (pr_plugins r),
             pr_boundaries := hm_insert (ph_plugin_id h) (ph_boundary h) (pr_boundaries r),
             pr_tokens := hm_insert (ph_plugin_id h) minted (pr_tokens r)\<rparr>"
proof -
  from assms have ok: "consented" "depth_rank (pm_min_trust_depth manifest) \<le> depth_rank depth"
      "validate_contributions fs (pm_contributions manifest) = Inr ()"
    by (auto simp: install_validated_def not_less split: if_splits sum.splits)
  let ?pid = "pr_next_plugin_id r" and ?b = "1000000 + pr_next_boundary_ordinal r"
  let ?r0 = "r\<lparr>pr_next_plugin_id := ?pid + 1, pr_next_boundary_ordinal := pr_next_boundary_ordinal r + 1\<rparr>"
  obtain res c1 where mint: "mint_requested nows admin ?b (pm_requested_permissions manifest) c = (res, c1)" by (meson surj_pair)
  with assms ok obtain minted where res: "res = Inr minted"
    by (cases res) (auto simp: install_validated_def Let_def)
  let ?out = "\<lambda>r1. (register_contributions ?pid (pm_contributions manifest) r1)
            \<lparr>pr_plugins := hm_insert ?pid manifest (pr_plugins r),
             pr_boundaries := hm_insert ?pid ?b (pr_boundaries r),
             pr_tokens := hm_insert ?pid minted (pr_tokens r)\<rparr>"
  show ?thesis
  proof (cases "needs_sandbox_token manifest")
    case False
    with assms ok mint res have "h = \<lparr>ph_plugin_id = ?pid, ph_boundary = ?b\<rparr>" "c' = c1" "r' = ?out ?r0"
      by (auto simp: install_validated_def Let_def)
    with False ok mint res show ?thesis by (intro that [of minted c1 ?r0]) simp_all
  next
    case True
    let ?now = "nows (length (pm_requested_permissions manifest))"
    obtain res2 c2 where d: "plugin_derive admin (READ OR WRITE) ?b ?now c1 = (res2, c2)" by (meson surj_pair)
    with assms ok mint res True obtain t where t: "res2 = Inr t"
      by (cases res2) (auto simp: install_validated_def Let_def)
    let ?r1 = "?r0\<lparr>pr_sandbox_tokens := hm_insert ?pid t (pr_sandbox_tokens r)\<rparr>"
    from assms ok mint res True d t have "h = \<lparr>ph_plugin_id = ?pid, ph_boundary = ?b\<rparr>" "c' = c2" "r' = ?out ?r1"
      by (auto simp: install_validated_def Let_def)
    with True ok mint res d t show ?thesis by (intro that [of minted c1 ?r1]) auto
  qed
qed

lemma install_validated_Inl:
  assumes "install_validated fs nows admin manifest depth consented c r = (Inl e, c', r')"
  shows "r' = r\<lparr>pr_next_plugin_id := pr_next_plugin_id r', pr_next_boundary_ordinal := pr_next_boundary_ordinal r'\<rparr>"
    "pr_next_plugin_id r' = pr_next_plugin_id r \<and> pr_next_boundary_ordinal r' = pr_next_boundary_ordinal r
      \<or> pr_next_plugin_id r' = pr_next_plugin_id r + 1 \<and> pr_next_boundary_ordinal r' = pr_next_boundary_ordinal r + 1"
    "(\<forall>f. e \<noteq> PluginCapability f) \<Longrightarrow> c' = c \<and> r' = r"
  using assms
  by (auto simp: install_validated_def Let_def split: if_splits sum.splits prod.splits
      dest: mint_requested_Inl plugin_derive_Inl(2))

lemma first_overreach_Inr:
  "first_overreach xs requests = Inr () \<Longrightarrow> request \<in> set requests \<Longrightarrow> \<exists>x \<in> set xs. justifies (gr_operation request) x"
  by (induction requests) (auto simp: list_ex_iff split: if_splits)

text \<open>Writing and reaching the network are justified by capabilities only, and by their side effects.\<close>

definition declares_effect :: "'sig plugin_manifest \<Rightarrow> bool" where
  "declares_effect manifest \<longleftrightarrow>
     (\<exists>cm. Capability cm \<in> set (pm_contributions manifest)
        \<and> (CreatesSemanticObject \<in> set (sc_side_effects (cm_contract cm))
           \<or> SideEffectNetworkEgress \<in> set (sc_side_effects (cm_contract cm))))"

lemma justified_write:
  assumes "first_overreach (pm_contributions manifest) requests = Inr ()" "request \<in> set requests"
    "contains (rights_for (gr_operation request)) WRITE"
  shows "declares_effect manifest"
proof -
  from first_overreach_Inr [OF assms(1,2)] obtain x where
    x: "x \<in> set (pm_contributions manifest)" "justifies (gr_operation request) x" by blast
  from assms(3) have "gr_operation request = OpWrite \<or> gr_operation request = OpNetworkEgress"
    by (cases "gr_operation request") (simp_all add: rights_for_def contains_def rights_defs)
  with x show ?thesis
    by (auto simp: declares_effect_def justifies_def contract_requires_def split: Contribution.splits)
qed


section \<open>Uninstalling\<close>

text \<open>The number of revocations that reach a node when the given tokens are revoked one after the other.\<close>

definition reaching :: "capability_monitor \<Rightarrow> capability_token list \<Rightarrow> token_id \<Rightarrow> nat" where
  "reaching m ts i = length (filter (\<lambda>t. i \<in> subtree (cm_graph m) (ct_token_id t)) ts)"

lemma plugin_revoke_wf:
  assumes "cap_wf c"
  shows "\<exists>c'. plugin_revoke t c = Some c' \<and> cap_wf c' \<and> fst c' = fst c
    \<and> hm_get (cm_graph (snd c')) = bumped (cm_graph (snd c)) (subtree (cm_graph (snd c)) (ct_token_id t))"
  using graph_revoke_wf [OF assms, of "ct_token_id t"] by (auto simp: plugin_revoke_def cap_revoke_def)

lemma subtree_bumped: "hm_get g' = bumped g A \<Longrightarrow> subtree g' = subtree g"
proof -
  assume g': "hm_get g' = bumped g A"
  have "children_of g' = children_of g"
    by (auto simp: children_of_def g' bumped_def bump_def fun_eq_iff split: option.splits)
  then show ?thesis by (simp add: subtree_def delegation_def fun_eq_iff)
qed

lemma revoke_tokens_wf:
  assumes "cap_wf c"
  shows "\<exists>c'. revoke_tokens ts c = Some c' \<and> cap_wf c' \<and> fst c' = fst c
    \<and> (\<forall>i. hm_get (cm_graph (snd c')) i
          = map_option (\<lambda>n. n\<lparr>rn_live_generation := rn_live_generation n + of_nat (reaching (snd c) ts i)\<rparr>)
              (hm_get (cm_graph (snd c)) i))"
  using assms
proof (induction ts arbitrary: c)
  case Nil
  then show ?case by (simp add: reaching_def option.map_ident)
next
  case (Cons t ts)
  from plugin_revoke_wf [OF Cons.prems, of t] obtain c1 where c1: "plugin_revoke t c = Some c1" "cap_wf c1" "fst c1 = fst c"
    "hm_get (cm_graph (snd c1)) = bumped (cm_graph (snd c)) (subtree (cm_graph (snd c)) (ct_token_id t))" by blast
  have "reaching (snd c1) ts = reaching (snd c) ts" by (simp add: reaching_def fun_eq_iff subtree_bumped [OF c1(4)])
  with Cons.IH [OF c1(2)] c1 show ?case
    by (auto simp: reaching_def bumped_def bump_def option.map_comp comp_def add.assoc add.commute add.left_commute)
qed

lemma live_after_revokes:
  assumes "\<forall>i. hm_get (cm_graph m') i
          = map_option (\<lambda>n. n\<lparr>rn_live_generation := rn_live_generation n + of_nat (reaching m ts i)\<rparr>) (hm_get (cm_graph m) i)"
    "is_live m t j" "length ts < 2 ^ 64"
  shows "is_live m' t j' \<longleftrightarrow> (\<forall>x \<in> set ts. ct_token_id t \<notin> subtree (cm_graph m) (ct_token_id x)) \<and> \<not> is_expired t j'"
proof -
  have "reaching m ts (ct_token_id t) < 2 ^ 64"
    using assms(3) length_filter_le order_le_less_trans unfolding reaching_def by blast
  then have "(of_nat (reaching m ts (ct_token_id t)) :: u64) = 0 \<longleftrightarrow> reaching m ts (ct_token_id t) = 0"
    by (auto simp: word_of_nat_eq_0_iff dest: dvd_imp_le)
  moreover have "reaching m ts (ct_token_id t) = 0 \<longleftrightarrow> (\<forall>x \<in> set ts. ct_token_id t \<notin> subtree (cm_graph m) (ct_token_id x))"
    by (auto simp: reaching_def filter_empty_conv)
  ultimately show ?thesis
    using assms(1,2) by (auto simp: is_live_def matches_record_def live_generation_def split: option.splits)
qed

text \<open>What of a plugin is left in a registry.\<close>

definition traces :: "'sig plugin_registry \<Rightarrow> plugin_id \<Rightarrow> bool" where
  "traces r pid \<longleftrightarrow>
     hm_get (pr_plugins r) pid \<noteq> None \<or> hm_get (pr_boundaries r) pid \<noteq> None \<or> hm_get (pr_tokens r) pid \<noteq> None
     \<or> (\<exists>cid e. hm_get (pr_registry r) cid = Some e
          \<and> (pid \<in> set (re_owning_plugins e) \<or> pid \<in> id_plugin_id ` set (re_implementations e)))
     \<or> hm_get (pr_agent_contributions r) pid \<noteq> None \<or> hm_get (pr_hardware_support r) pid \<noteq> None
     \<or> hm_get (pr_knowledge_providers r) pid \<noteq> None \<or> hm_get (pr_ui_components r) pid \<noteq> None
     \<or> hm_get (pr_automation_workflows r) pid \<noteq> None \<or> hm_get (pr_memory_providers r) pid \<noteq> None
     \<or> hm_get (pr_execution_engines r) pid \<noteq> None \<or> pid \<in> pr_quarantined_plugins r"

lemma hm_retain_map_get:
  "hm_wf m \<Longrightarrow> hm_get (hm_retain P (hm_map_values f m)) k
    = (case hm_get m k of None \<Rightarrow> None | Some v \<Rightarrow> if P k (f v) then Some (f v) else None)"
  by (simp add: hm_retain_get hm_map_values_get hm_map_values_keys split: option.splits)

section \<open>Runs of the registry\<close>

text \<open>
  Whatever callers do with the registry, with anything happening to the monitor in between.  The
  counter of plugin identities has not come round.
\<close>

inductive plugin_run :: "(u8 list \<Rightarrow> 'sig \<Rightarrow> 'key \<Rightarrow> bool) \<Rightarrow> cap_state \<Rightarrow> 'sig plugin_registry \<Rightarrow> bool"
  for verify where
  run_new_registry: "plugin_run verify c plugin_registry_new"
| run_new_with_data: "plugin_run verify c (new_with_app_data dir)"
| run_others: "plugin_run verify c r \<Longrightarrow> plugin_run verify c' r"
| run_install: "plugin_run verify c r \<Longrightarrow> pr_next_plugin_id r \<noteq> - 1 \<Longrightarrow>
    plugin_install verify fs now nows admin manifest depth consented key c r = (res, c', r') \<Longrightarrow> plugin_run verify c' r'"
| run_install_publisher: "plugin_run verify c r \<Longrightarrow> pr_next_plugin_id r \<noteq> - 1 \<Longrightarrow>
    install_with_publisher_registry verify fs now nows admin manifest depth consented publishers c r = (res, c', r')
    \<Longrightarrow> plugin_run verify c' r'"
| run_update: "plugin_run verify c r \<Longrightarrow>
    plugin_update verify fs now nows admin pid manifest depth consented key c r = Some (res', c', r') \<Longrightarrow> plugin_run verify c' r'"
| run_update_publisher: "plugin_run verify c r \<Longrightarrow>
    update_with_publisher_registry verify fs now nows admin pid manifest depth consented publishers c r = Some (res', c', r')
    \<Longrightarrow> plugin_run verify c' r'"
| run_uninstall: "plugin_run verify c r \<Longrightarrow> uninstall now admin pid c r = Some (res'', c', r') \<Longrightarrow> plugin_run verify c' r'"
| run_quarantine: "plugin_run verify c r \<Longrightarrow> quarantine pid reason r = (res'', r') \<Longrightarrow> plugin_run verify c r'"

definition entry_ok :: "(plugin_id \<Rightarrow> bool) \<Rightarrow> capability_name \<Rightarrow> registry_entry \<Rightarrow> bool" where
  "entry_ok installed cid e \<longleftrightarrow> re_capability_id e = cid \<and> re_implementations e \<noteq> []
     \<and> re_owning_plugins e = map id_plugin_id (re_implementations e)
     \<and> (\<forall>d \<in> set (re_implementations e). installed (id_plugin_id d))"

definition entries_ok :: "(plugin_id \<Rightarrow> bool) \<Rightarrow> (capability_name, registry_entry) hashmap \<Rightarrow> bool" where
  "entries_ok installed reg \<longleftrightarrow> hm_wf reg \<and> (\<forall>cid e. hm_get reg cid = Some e \<longrightarrow> entry_ok installed cid e)"

definition installed :: "'sig plugin_registry \<Rightarrow> plugin_id \<Rightarrow> bool" where
  "installed r pid \<longleftrightarrow> hm_get (pr_plugins r) pid \<noteq> None"

definition plugins_ok :: "'sig plugin_registry \<Rightarrow> bool" where
  "plugins_ok r \<longleftrightarrow> entries_ok (installed r) (pr_registry r)
     \<and> pr_next_boundary_ordinal r = pr_next_plugin_id r
     \<and> (\<forall>pid. installed r pid \<longrightarrow> pid < pr_next_plugin_id r)
     \<and> (\<forall>pid. hm_get (pr_boundaries r) pid = (if installed r pid then Some (1000000 + pid) else None))
     \<and> (\<forall>pid. map_option length (hm_get (pr_tokens r) pid)
          = map_option (\<lambda>manifest. length (pm_requested_permissions manifest)) (hm_get (pr_plugins r) pid))"

lemma entries_ok_mono: "entries_ok P reg \<Longrightarrow> (\<And>p. P p \<Longrightarrow> Q p) \<Longrightarrow> entries_ok Q reg"
  by (auto simp: entries_ok_def entry_ok_def)

lemma entries_ok_register:
  assumes "entries_ok P reg" "P pid"
  shows "entries_ok P (snd (register_implementation pid cm reg))"
  by (cases rule: register_implementation_get [of reg cm pid])
    (use assms in \<open>auto simp: entries_ok_def entry_ok_def split: if_splits\<close>)

lemma entries_ok_fold:
  "entries_ok P reg \<Longrightarrow> P pid \<Longrightarrow> entries_ok P (fold (\<lambda>cm reg. snd (register_implementation pid cm reg)) cms reg)"
  by (induction cms arbitrary: reg) (simp_all add: entries_ok_register)

lemma entries_ok_disown:
  assumes "entries_ok P reg"
  shows "entries_ok (\<lambda>p. P p \<and> p \<noteq> pid)
    (hm_retain (\<lambda>_ entry. re_implementations entry \<noteq> []) (hm_map_values (disown pid) reg))"
  using assms
  by (auto simp: entries_ok_def hm_retain_map_get entry_ok_def disown_def filter_map comp_def split: option.splits if_splits)

lemma plugins_ok_new: "plugins_ok plugin_registry_new" "plugins_ok (new_with_app_data dir)"
  by (simp_all add: plugins_ok_def entries_ok_def installed_def plugin_registry_new_def new_with_app_data_def)

lemma remove_contributions_fields [simp]:
  "pr_tokens (remove_registry_and_contributions pid r) = pr_tokens r"
  "pr_plugins (remove_registry_and_contributions pid r) = pr_plugins r"
  "pr_boundaries (remove_registry_and_contributions pid r) = pr_boundaries r"
  "pr_sandbox_tokens (remove_registry_and_contributions pid r) = pr_sandbox_tokens r"
  "pr_quarantined_plugins (remove_registry_and_contributions pid r) = pr_quarantined_plugins r"
  "pr_next_plugin_id (remove_registry_and_contributions pid r) = pr_next_plugin_id r"
  "pr_next_boundary_ordinal (remove_registry_and_contributions pid r) = pr_next_boundary_ordinal r"
  by (simp_all add: remove_registry_and_contributions_def)

text \<open>A registry that differs in nothing the invariant looks at.\<close>

lemma plugins_ok_cong:
  assumes "plugins_ok r" "entries_ok (installed r) (pr_registry r')" "pr_plugins r' = pr_plugins r"
    "pr_boundaries r' = pr_boundaries r" "pr_tokens r' = pr_tokens r" "pr_next_plugin_id r' = pr_next_plugin_id r"
    "pr_next_boundary_ordinal r' = pr_next_boundary_ordinal r"
  shows "plugins_ok r'"
proof -
  have "installed r' = installed r" using assms(3) by (simp add: installed_def fun_eq_iff)
  then show ?thesis using assms by (simp add: plugins_ok_def)
qed

lemma plugins_ok_install:
  assumes ok: "plugins_ok r" and nx: "pr_next_plugin_id r \<noteq> - 1"
    and inst: "install_validated fs nows admin manifest depth consented c r = (res, c', r')"
  shows "plugins_ok r'"
proof (cases res)
  case (Inl e)
  from install_validated_Inl [OF inst [unfolded Inl]] obtain p b where
    r': "r' = r\<lparr>pr_next_plugin_id := p, pr_next_boundary_ordinal := b\<rparr>"
    and pb: "p = pr_next_plugin_id r \<and> b = pr_next_boundary_ordinal r
      \<or> p = pr_next_plugin_id r + 1 \<and> b = pr_next_boundary_ordinal r + 1" by blast
  have "installed r' = installed r" by (simp add: installed_def fun_eq_iff r')
  then show ?thesis
    using ok pb nx word_less_add_one_iff [OF nx]
    by (auto simp: plugins_ok_def r' order_less_imp_le)
next
  case (Inr h)
  from inst [unfolded Inr] show ?thesis
  proof (rule install_validated_Inr)
    fix minted c1 r1
    let ?pid = "pr_next_plugin_id r"
    assume h: "h = \<lparr>ph_plugin_id = ?pid, ph_boundary = 1000000 + pr_next_boundary_ordinal r\<rparr>"
      and mint: "mint_requested nows admin (ph_boundary h) (pm_requested_permissions manifest) c = (Inr minted, c1)"
      and r1: "r1 = r\<lparr>pr_next_plugin_id := ?pid + 1, pr_next_boundary_ordinal := pr_next_boundary_ordinal r + 1,
            pr_sandbox_tokens := pr_sandbox_tokens r1\<rparr>"
      and r': "r' = (register_contributions (ph_plugin_id h) (pm_contributions manifest) r1)
            \<lparr>pr_plugins := hm_insert (ph_plugin_id h) manifest (pr_plugins r),
             pr_boundaries := hm_insert (ph_plugin_id h) (ph_boundary h) (pr_boundaries r),
             pr_tokens := hm_insert (ph_plugin_id h) minted (pr_tokens r)\<rparr>"
    obtain st where st: "r1 = r\<lparr>pr_next_plugin_id := ?pid + 1, pr_next_boundary_ordinal := pr_next_boundary_ordinal r + 1,
            pr_sandbox_tokens := st\<rparr>" using r1 by blast
    have inst': "installed r' = (\<lambda>p. p = ?pid \<or> installed r p)" by (auto simp: installed_def r' h fun_eq_iff)
    have "entries_ok (installed r') (pr_registry r)"
      by (rule entries_ok_mono [of "installed r"]) (use ok in \<open>auto simp: plugins_ok_def inst'\<close>)
    then have "entries_ok (installed r') (fold (\<lambda>cm reg. snd (register_implementation ?pid cm reg)) cms (pr_registry r))" for cms
      by (rule entries_ok_fold) (simp add: inst')
    then have "entries_ok (installed r') (pr_registry r')"
      using r' st h by (simp add: register_contributions_registry)
    moreover have "length minted = length (pm_requested_permissions manifest)" using mint by (rule mint_requested_length)
    ultimately show ?thesis
      using ok word_less_add_one_iff [OF nx] inst'
      by (auto simp: plugins_ok_def r' st h order_less_imp_le)
  qed
qed

lemma bind_result_Inr:
  "Option.bind f (\<lambda>(res, c). case res of Inl e \<Rightarrow> Some (Inl e, c)
       | Inr t \<Rightarrow> map_option (\<lambda>(res, c). (case res of Inl e \<Rightarrow> Inl e | Inr ts \<Rightarrow> Inr (t # ts), c)) (k c)) = Some (Inr ts, c')
    \<longleftrightarrow> (\<exists>t c1 ts1. f = Some (Inr t, c1) \<and> k c1 = Some (Inr ts1, c') \<and> ts = t # ts1)"
proof (cases f)
  case (Some x)
  obtain res c1 where x: "x = (res, c1)" by (cases x)
  show ?thesis
  proof (cases res)
    case (Inr t)
    show ?thesis
    proof (cases "k c1")
      case (Some y)
      then show ?thesis using \<open>f = Some x\<close> x Inr by (cases y; cases "fst y") auto
    qed (simp add: \<open>f = Some x\<close> x Inr)
  qed (simp add: \<open>f = Some x\<close> x)
qed simp

lemma updated_tokens_length:
  "updated_tokens nows admin b olds old_tokens grants c = Some (Inr ts, c') \<Longrightarrow> length ts = length grants"
proof (induction grants arbitrary: nows c ts)
  case (Cons g grants)
  from Cons.prems obtain t c1 ts1 where
    "updated_tokens (\<lambda>k. nows (Suc k)) admin b olds old_tokens grants c1 = Some (Inr ts1, c')" "ts = t # ts1"
    unfolding updated_tokens.simps bind_result_Inr by blast
  with Cons.IH show ?case by simp
qed simp

definition replaced :: "plugin_id \<Rightarrow> Contribution list \<Rightarrow> 'sig plugin_registry \<Rightarrow> 'sig plugin_registry" where
  "replaced pid xs r = register_contributions pid xs (remove_registry_and_contributions pid r)"

lemma replaced_fields [simp]:
  "pr_tokens (replaced pid xs r) = pr_tokens r"
  "pr_plugins (replaced pid xs r) = pr_plugins r"
  "pr_boundaries (replaced pid xs r) = pr_boundaries r"
  "pr_sandbox_tokens (replaced pid xs r) = pr_sandbox_tokens r"
  "pr_quarantined_plugins (replaced pid xs r) = pr_quarantined_plugins r"
  "pr_next_plugin_id (replaced pid xs r) = pr_next_plugin_id r"
  "pr_next_boundary_ordinal (replaced pid xs r) = pr_next_boundary_ordinal r"
  by (simp_all add: replaced_def)

lemma entries_ok_replaced:
  assumes "entries_ok P (pr_registry r)" "P pid"
  shows "entries_ok P (pr_registry (replaced pid xs r))"
proof -
  have "entries_ok P (pr_registry (remove_registry_and_contributions pid r))"
    using entries_ok_mono [OF entries_ok_disown [OF assms(1), of pid], of P]
    by (simp add: remove_registry_and_contributions_def)
  then show ?thesis by (simp add: replaced_def register_contributions_registry entries_ok_fold assms(2))
qed

lemma update_validated_cases:
  assumes "update_validated fs nows admin pid old boundary manifest depth consented c r = Some (res, c', r')"
  obtains (refused) "r' = r"
  | (stopped) e where "res = Inl e" "r' = replaced pid (pm_contributions manifest) r"
  | (updated) tokens c1 st where "res = Inr (new_grants old manifest)"
      "updated_tokens nows admin boundary (pm_requested_permissions old)
        (case hm_get (pr_tokens r) pid of None \<Rightarrow> [] | Some ts \<Rightarrow> ts) (pm_requested_permissions manifest) c = Some (Inr tokens, c1)"
      "r' = (replaced pid (pm_contributions manifest) r)\<lparr>pr_sandbox_tokens := st,
         pr_plugins := hm_insert pid manifest (pr_plugins r), pr_tokens := hm_insert pid tokens (pr_tokens r)\<rparr>"
proof (cases "depth_rank depth < depth_rank (pm_min_trust_depth manifest) \<or> (new_grants old manifest \<noteq> [] \<and> \<not> consented)
    \<or> (\<exists>e. validate_contributions fs (pm_contributions manifest) = Inl e)")
  case True
  with assms show ?thesis by (intro refused) (auto simp: update_validated_def split: if_splits)
next
  case False
  let ?old_tokens = "case hm_get (pr_tokens r) pid of None \<Rightarrow> [] | Some ts \<Rightarrow> ts"
  let ?new = "pm_requested_permissions manifest"
  from False obtain u where val: "validate_contributions fs (pm_contributions manifest) = Inr u"
    by (cases "validate_contributions fs (pm_contributions manifest)") auto
  from assms False val obtain res1 c1 where
    up: "updated_tokens nows admin boundary (pm_requested_permissions old) ?old_tokens ?new c = Some (res1, c1)"
    by (auto simp: update_validated_def Let_def bind_eq_Some_conv split: if_splits)
  show ?thesis
  proof (cases res1)
    case (Inl e)
    with assms False val up show ?thesis by (intro refused) (auto simp: update_validated_def Let_def split: if_splits)
  next
    case (Inr tokens)
    let ?r = "replaced pid (pm_contributions manifest) r"
    from assms False val up Inr obtain c2 where rv: "revoke_dropped ?new ?old_tokens 0 (pm_requested_permissions old) c1 = Some c2"
      by (auto simp: update_validated_def Let_def split: if_splits)
    show ?thesis
    proof (cases "needs_sandbox_token manifest \<and> hm_get (pr_sandbox_tokens r) pid = None")
      case True
      obtain res3 c3 where d: "plugin_derive admin (READ OR WRITE) boundary (nows (length ?new)) c2 = (res3, c3)" by (meson surj_pair)
      show ?thesis
      proof (cases res3)
        case (Inl e)
        with assms False val up Inr rv True d show ?thesis
          by (intro stopped [of e]) (auto simp: update_validated_def Let_def replaced_def split: if_splits)
      next
        case (Inr t)
        with assms False val up \<open>res1 = Inr tokens\<close> rv True d show ?thesis
          by (intro updated [of tokens c1 "hm_insert pid t (pr_sandbox_tokens r)"])
            (auto simp: update_validated_def Let_def replaced_def split: if_splits)
      qed
    next
      case keep: False
      with assms False val up Inr rv show ?thesis
        by (intro updated [of tokens c1 "if needs_sandbox_token manifest then pr_sandbox_tokens r else hm_remove pid (pr_sandbox_tokens r)"])
          (auto simp: update_validated_def Let_def replaced_def split: if_splits)
    qed
  qed
qed

lemma plugins_ok_update:
  assumes ok: "plugins_ok r" and inst: "hm_get (pr_plugins r) pid = Some old"
    and up: "update_validated fs nows admin pid old boundary manifest depth consented c r = Some (res, c', r')"
  shows "plugins_ok r'"
proof -
  have pid: "installed r pid" using inst by (simp add: installed_def)
  have entries: "entries_ok (installed r) (pr_registry (replaced pid (pm_contributions manifest) r))"
    using ok pid by (simp add: plugins_ok_def entries_ok_replaced)
  from up show ?thesis
  proof (cases rule: update_validated_cases)
    case refused
    with ok show ?thesis by simp
  next
    case (stopped e)
    then show ?thesis by (intro plugins_ok_cong [OF ok]) (simp_all add: entries)
  next
    case (updated tokens c1 st)
    have i: "installed r' = installed r" using pid by (auto simp: installed_def updated(3) fun_eq_iff)
    have "length tokens = length (pm_requested_permissions manifest)" using updated(2) by (rule updated_tokens_length)
    moreover have "entries_ok (installed r') (pr_registry r')" using entries updated(3) i by simp
    ultimately show ?thesis using ok i by (auto simp: plugins_ok_def updated(3))
  qed
qed

lemma plugins_ok_uninstall:
  assumes ok: "plugins_ok r" and un: "uninstall now admin pid c r = Some (res, c', r')"
  shows "plugins_ok r'"
proof (cases res)
  case (Inl e)
  with un have "r' = r" by (auto simp: uninstall_def Let_def split: sum.splits option.splits)
  with ok show ?thesis by simp
next
  case (Inr u)
  with un have r': "pr_plugins r' = hm_remove pid (pr_plugins r)" "pr_boundaries r' = hm_remove pid (pr_boundaries r)"
      "pr_tokens r' = hm_remove pid (pr_tokens r)" "pr_next_plugin_id r' = pr_next_plugin_id r"
      "pr_next_boundary_ordinal r' = pr_next_boundary_ordinal r"
      "pr_registry r' = hm_retain (\<lambda>_ entry. re_implementations entry \<noteq> []) (hm_map_values (disown pid) (pr_registry r))"
    by (auto simp: uninstall_def Let_def remove_registry_and_contributions_def split: sum.splits option.splits)
  have i: "installed r' = (\<lambda>p. installed r p \<and> p \<noteq> pid)" by (auto simp: installed_def r' fun_eq_iff)
  have "entries_ok (installed r') (pr_registry r')"
    using entries_ok_disown [of "installed r" "pr_registry r" pid] ok unfolding i r' plugins_ok_def by blast
  then show ?thesis using ok i by (auto simp: plugins_ok_def r')
qed

lemma plugins_ok_quarantine:
  assumes "plugins_ok r" "quarantine pid reason r = (res, r')"
  shows "plugins_ok r'"
  using assms
  by (intro plugins_ok_cong [OF assms(1)])
    (auto simp: quarantine_def plugins_ok_def entries_ok_def entry_ok_def split: if_splits)

lemma plugin_and_boundary_Inr:
  "plugin_and_boundary pid r = Inr (old, b) \<longleftrightarrow> hm_get (pr_plugins r) pid = Some old \<and> hm_get (pr_boundaries r) pid = Some b"
  by (auto simp: plugin_and_boundary_def split: option.splits)

lemma plugin_run_ok: "plugin_run verify c r \<Longrightarrow> plugins_ok r"
proof (induction rule: plugin_run.induct)
  case (run_install c r fs now nows admin manifest depth consented key res c' r')
  then show ?case by (auto simp: plugin_install_def split: sum.splits intro: plugins_ok_install)
next
  case (run_install_publisher c r fs now nows admin manifest depth consented publishers res c' r')
  then show ?case by (auto simp: install_with_publisher_registry_def split: sum.splits intro: plugins_ok_install)
next
  case (run_update c r fs now nows admin pid manifest depth consented key res' c' r')
  then show ?case
    by (auto simp: plugin_update_def and_then_Inr_iff plugin_and_boundary_Inr split: sum.splits intro: plugins_ok_update)
next
  case (run_update_publisher c r fs now nows admin pid manifest depth consented publishers res' c' r')
  then show ?case
    by (auto simp: update_with_publisher_registry_def and_then_Inr_iff plugin_and_boundary_Inr split: sum.splits
        intro: plugins_ok_update)
qed (auto intro: plugins_ok_new plugins_ok_uninstall plugins_ok_quarantine)

section \<open>Updates return\<close>

lemma updated_tokens_total:
  assumes "length old_tokens = length olds" "cap_wf c" "unat (fst c) + length grants < 2 ^ 64"
  shows "\<exists>res c'. updated_tokens nows admin b olds old_tokens grants c = Some (res, c') \<and> cap_wf c'"
  using assms(2,3)
proof (induction grants arbitrary: nows c)
  case (Cons g grants)
  let ?first = "case position (\<lambda>existing. grants_equal existing g) olds of
      Some i \<Rightarrow> if i < length old_tokens then Some (Inr (old_tokens ! i), c) else None
    | None \<Rightarrow> Some (plugin_derive admin (rights_for (gr_operation g)) b (nows 0) c)"
  have small: "fst c \<noteq> - 1" using Cons.prems(2) by (auto simp: unat_max_word)
  have "\<exists>res c1. ?first = Some (res, c1) \<and> cap_wf c1 \<and> unat (fst c1) \<le> Suc (unat (fst c))"
  proof (cases "position (\<lambda>existing. grants_equal existing g) olds")
    case None
    obtain res c1 where d: "plugin_derive admin (rights_for (gr_operation g)) b (nows 0) c = (res, c1)" by (meson surj_pair)
    have "cap_wf c1 \<and> unat (fst c1) \<le> Suc (unat (fst c))"
    proof (cases res)
      case (Inl e)
      then show ?thesis using plugin_derive_Inl(1) [OF d [unfolded Inl]] Cons.prems by simp
    next
      case (Inr t)
      then show ?thesis using plugin_derive_Inr(1,2) [OF d [unfolded Inr] Cons.prems(1) small] unat_add_one [OF small] by simp
    qed
    with None d show ?thesis by simp
  next
    case (Some i)
    then have "i < length old_tokens" using position_Some [of _ olds i] assms(1) by auto
    with Some Cons.prems show ?thesis by simp
  qed
  then obtain res c1 where f: "?first = Some (res, c1)" "cap_wf c1" "unat (fst c1) \<le> Suc (unat (fst c))" by blast
  from f(3) Cons.prems(2) have "unat (fst c1) + length grants < 2 ^ 64" by simp
  from Cons.IH [OF f(2) this, of "\<lambda>k. nows (Suc k)"] f show ?case by (cases res) auto
qed simp

lemma revoke_dropped_total:
  "cap_wf c \<Longrightarrow> i + length grants \<le> length old_tokens \<Longrightarrow> \<exists>c'. revoke_dropped news old_tokens i grants c = Some c' \<and> cap_wf c'"
proof (induction grants arbitrary: i c)
  case (Cons g grants)
  have "\<exists>c1. (if list_ex (\<lambda>grant. grants_equal grant g) news then Some c
        else if i < length old_tokens then plugin_revoke (old_tokens ! i) c else None) = Some c1 \<and> cap_wf c1"
  proof (cases "list_ex (\<lambda>grant. grants_equal grant g) news")
    case True
    with Cons.prems(1) show ?thesis by (intro exI [of _ c]) simp
  next
    case False
    with Cons.prems(2) plugin_revoke_wf [OF Cons.prems(1), of "old_tokens ! i"] show ?thesis by auto
  qed
  then obtain c1 where "(if list_ex (\<lambda>grant. grants_equal grant g) news then Some c
        else if i < length old_tokens then plugin_revoke (old_tokens ! i) c else None) = Some c1" "cap_wf c1" by blast
  moreover from Cons.IH [OF this(2), of "Suc i"] Cons.prems(2) have "\<exists>c'. revoke_dropped news old_tokens (Suc i) grants c1 = Some c' \<and> cap_wf c'" by simp
  ultimately show ?case by auto
qed simp

lemma update_validated_total:
  assumes ok: "plugins_ok r" and inst: "hm_get (pr_plugins r) pid = Some old"
    and wf: "cap_wf c" "unat (fst c) + length (pm_requested_permissions manifest) < 2 ^ 64"
  shows "update_validated fs nows admin pid old boundary manifest depth consented c r \<noteq> None"
proof -
  from ok inst have "map_option length (hm_get (pr_tokens r) pid) = Some (length (pm_requested_permissions old))"
    by (simp add: plugins_ok_def)
  then obtain old_tokens where old: "hm_get (pr_tokens r) pid = Some old_tokens" "length old_tokens = length (pm_requested_permissions old)"
    by auto
  from updated_tokens_total [OF old(2) wf, of nows admin boundary] obtain res c1 where
    up: "updated_tokens nows admin boundary (pm_requested_permissions old) old_tokens (pm_requested_permissions manifest) c = Some (res, c1)"
    "cap_wf c1" by blast
  from revoke_dropped_total [OF up(2), of 0 "pm_requested_permissions old" old_tokens "pm_requested_permissions manifest"] old(2)
  obtain c2 where "revoke_dropped (pm_requested_permissions manifest) old_tokens 0 (pm_requested_permissions old) c1 = Some c2" by auto
  with up(1) old(1) show ?thesis
    by (cases res) (simp_all add: update_validated_def Let_def del: not_None_eq split: sum.splits)
qed

section \<open>Properties\<close>

text \<open>
  The registry is consistent in every state any sequence of installations, updates,
  removals and quarantines leads to, failed ones included.  An entry is found under its own name, has
  an implementation, lists as owners the plugins of its implementations in order, and these are
  installed; a plugin has tokens and a boundary exactly when it is installed, no two plugins
  share a boundary; and an update of it always returns, so that no token is looked up past the end.
\<close>

theorem plugin_registry_consistent:
  assumes "plugin_run verify c r"
  shows "(\<forall>cid e. hm_get (pr_registry r) cid = Some e \<longrightarrow>
        re_capability_id e = cid \<and> re_implementations e \<noteq> []
        \<and> re_owning_plugins e = map id_plugin_id (re_implementations e)
        \<and> (\<forall>d \<in> set (re_implementations e). hm_get (pr_plugins r) (id_plugin_id d) \<noteq> None))
    \<and> (\<forall>pid. (tokens_of pid r = None \<longleftrightarrow> hm_get (pr_plugins r) pid = None)
        \<and> (boundary_of pid r = None \<longleftrightarrow> hm_get (pr_plugins r) pid = None))
    \<and> (\<forall>p p'. boundary_of p r = boundary_of p' r \<and> boundary_of p r \<noteq> None \<longrightarrow> p = p')
    \<and> (monitor_wf (fst c) (snd c) \<and> unat (fst c) + length (pm_requested_permissions manifest) < 2 ^ 64 \<longrightarrow>
        plugin_update verify fs now nows admin pid manifest depth consented key c r \<noteq> None)"
proof -
  have ok: "plugins_ok r" by (rule plugin_run_ok [OF assms])
  have entries: "entry_ok (installed r) cid e" if "hm_get (pr_registry r) cid = Some e" for cid e
    using ok that by (simp add: plugins_ok_def entries_ok_def)
  have tokens: "tokens_of pid r = None \<longleftrightarrow> hm_get (pr_plugins r) pid = None" for pid
    using ok by (metis option.map_disc_iff plugins_ok_def tokens_of_def)
  have bounds: "boundary_of pid r = (if installed r pid then Some (1000000 + pid) else None)" for pid
    using ok by (simp add: plugins_ok_def boundary_of_def)
  have "plugin_update verify fs now nows admin pid manifest depth consented key c r \<noteq> None"
    if "cap_wf c" "unat (fst c) + length (pm_requested_permissions manifest) < 2 ^ 64"
    using update_validated_total [OF ok _ that]
    by (auto simp: plugin_update_def and_then_Inr_iff plugin_and_boundary_Inr split: sum.splits)
  with entries tokens bounds show ?thesis by (auto simp: entry_ok_def installed_def split: if_splits)
qed

text \<open>
  Uninstalling a plugin ends its authority and leaves no trace of it.  Of the tokens that were
  live, exactly those die that are one of the plugin's tokens or were delegated from one, directly or
  not; the registry mentions the plugin nowhere any more, and every implementation another plugin
  provides is still there under its contract.
\<close>

theorem uninstall_removes:
  assumes "plugin_run verify c r" "monitor_wf (fst c) (snd c)" "tokens_of pid r = Some ts" "length ts < 2 ^ 64"
    and "uninstall now admin pid c r = Some (Inr u, c', r')"
  shows "(\<forall>t j j'. is_live (snd c) t j \<longrightarrow>
        (is_live (snd c') t j' \<longleftrightarrow>
          (\<forall>x \<in> set ts. ct_token_id t \<notin> subtree (cm_graph (snd c)) (ct_token_id x)) \<and> \<not> is_expired t j'))
    \<and> \<not> traces r' pid
    \<and> (\<forall>contract d. id_plugin_id d \<noteq> pid \<longrightarrow> (implements (pr_registry r') contract d \<longleftrightarrow> implements (pr_registry r) contract d))"
proof -
  from plugin_run_ok [OF assms(1)] have wf: "hm_wf (pr_registry r)" by (simp add: plugins_ok_def entries_ok_def)
  from assms(3,5) have rv: "revoke_tokens ts c = Some c'"
    and r': "r' = (remove_registry_and_contributions pid (r\<lparr>pr_tokens := hm_remove pid (pr_tokens r)\<rparr>))
        \<lparr>pr_plugins := hm_remove pid (pr_plugins r), pr_boundaries := hm_remove pid (pr_boundaries r),
         pr_quarantined_plugins := pr_quarantined_plugins r - {pid}\<rparr>"
    by (auto simp: uninstall_def tokens_of_def Let_def split: sum.splits)
  from revoke_tokens_wf [OF assms(2), of ts] rv have "\<forall>i. hm_get (cm_graph (snd c')) i
      = map_option (\<lambda>n. n\<lparr>rn_live_generation := rn_live_generation n + of_nat (reaching (snd c) ts i)\<rparr>) (hm_get (cm_graph (snd c)) i)"
    by auto
  note live = live_after_revokes [OF this _ assms(4)]
  have reg: "hm_get (pr_registry r') cid = (case hm_get (pr_registry r) cid of None \<Rightarrow> None
      | Some e \<Rightarrow> if re_implementations (disown pid e) \<noteq> [] then Some (disown pid e) else None)" for cid
    by (simp add: r' remove_registry_and_contributions_def hm_retain_map_get [OF wf])
  have "\<not> traces r' pid"
    by (auto simp: traces_def reg split: option.splits if_splits)
      (auto simp: r' remove_registry_and_contributions_def disown_def)
  moreover have "implements (pr_registry r') contract d \<longleftrightarrow> implements (pr_registry r) contract d"
    if "id_plugin_id d \<noteq> pid" for contract d
    unfolding implements_def reg using that by (auto simp: disown_def filter_empty_conv split: option.splits if_splits)
  ultimately show ?thesis using live by blast
qed

section \<open>Data directories\<close>

lemma show_nat_digits: "ch \<in> set (show_nat n) \<Longrightarrow> \<exists>d < 10. ch = char_of (48 + d :: nat)"
proof (induction n rule: show_nat.induct)
  case (1 n)
  show ?case
  proof (cases "n < 10")
    case True
    with 1(2) show ?thesis by (subst (asm) show_nat.simps) auto
  next
    case False
    with 1 show ?thesis by (subst (asm) (2) show_nat.simps) (auto intro: exI [of _ "n mod 10"])
  qed
qed

lemma show_nat_no_slash: "CHR ''/'' \<notin> set (show_nat n)"
proof
  assume "CHR ''/'' \<in> set (show_nat n)"
  then obtain d where "d < 10" "CHR ''/'' = char_of (48 + d :: nat)" using show_nat_digits by blast
  then have "(of_char CHR ''/'' :: nat) = 48 + d" by (simp add: of_char_of)
  then show False by simp
qed

lemma show_nat_ne: "show_nat n \<noteq> []"
  by (subst show_nat.simps) simp

lemma to_hex_inj: "to_hex bs = to_hex bs' \<longleftrightarrow> bs = bs'"
proof
  show "to_hex bs = to_hex bs' \<Longrightarrow> bs = bs'"
  proof (induction bs arbitrary: bs')
    case Nil
    then show ?case by (cases bs') simp_all
  next
    case (Cons b bs)
    then obtain b' ys where bs': "bs' = b' # ys" by (cases bs') auto
    with Cons.prems have d: "hex_digit (b div 16) = hex_digit (b' div 16)" "hex_digit (b mod 16) = hex_digit (b' mod 16)"
      and tl: "to_hex bs = to_hex ys" by (simp_all only: to_hex.simps list.inject)
    have "Some b = from_str_radix16 (hex_digit (b div 16)) (hex_digit (b mod 16))" by (rule from_str_radix16_hex [symmetric])
    also have "\<dots> = Some b'" unfolding d by (rule from_str_radix16_hex)
    finally show ?case using bs' Cons.IH [OF tl] by (simp only: option.inject)
  qed
qed (rule arg_cong)

lemma set_to_hex: "b \<in> set (to_hex bs) \<Longrightarrow> \<exists>d < 16. b = hex_digit d"
  by (induction bs) (use u8_nibbles in auto)

lemma unat_u8_char: "unat (x :: u8) = of_char (char_of (unat x) :: char)"
proof -
  have "unat x < 256" using unsigned_less [of x] by simp
  then show ?thesis by (simp add: of_char_of)
qed

lemma byte_char_inj: "char_of (unat (a :: u8)) = (char_of (unat b) :: char) \<Longrightarrow> a = b"
  by (metis unat_u8_char word_unat_eq_iff)

lemma encoded_id_inj: "encoded_id c = encoded_id c' \<longleftrightarrow> c = c'"
proof
  have "inj (\<lambda>b :: u8. char_of (unat b) :: char)" by (rule injI) (rule byte_char_inj)
  moreover assume "encoded_id c = encoded_id c'"
  ultimately have "to_hex (as_bytes c) = to_hex (as_bytes c')"
    unfolding encoded_id_def by (simp only: inj_map_eq_map)
  then show "c = c'" by (simp add: to_hex_inj as_bytes_inj)
qed simp

lemma hex_digit_plain:
  assumes "d < 16"
  shows "hex_digit d \<noteq> 46 \<and> hex_digit d \<noteq> 47"
  using u8_less_16_cases [OF assms] by (elim insertE emptyE) (simp_all add: hex_digit_def)

lemma encoded_id_plain: "ch \<in> set (encoded_id cid) \<Longrightarrow> ch \<noteq> CHR ''/'' \<and> ch \<noteq> CHR ''.''"
proof -
  assume "ch \<in> set (encoded_id cid)"
  then obtain b where "b \<in> set (to_hex (as_bytes cid))" and ch: "ch = char_of (unat b)" by (auto simp: encoded_id_def)
  then obtain d where "d < 16" "b = hex_digit d" using set_to_hex by blast
  then have b: "unat b \<noteq> 46" "unat b \<noteq> 47" using hex_digit_plain [of d] by (auto simp: word_unat_eq_iff)
  moreover have "unat b = of_char ch" unfolding ch by (rule unat_u8_char)
  ultimately show ?thesis by auto
qed

lemma split_at_slash:
  assumes "CHR ''/'' \<notin> set s" "CHR ''/'' \<notin> set s'"
  shows "s @ ''/'' @ h = s' @ ''/'' @ h' \<longleftrightarrow> s = s' \<and> h = h'"
proof
  have tw: "takeWhile (\<lambda>ch. ch \<noteq> CHR ''/'') (t @ ''/'' @ u) = t" if "CHR ''/'' \<notin> set t" for t u
    using that by (subst takeWhile_append2) auto
  assume eq: "s @ ''/'' @ h = s' @ ''/'' @ h'"
  from arg_cong [OF this, of "takeWhile (\<lambda>ch. ch \<noteq> CHR ''/'')"] have "s = s'" unfolding tw [OF assms(1)] tw [OF assms(2)] .
  with eq show "s = s' \<and> h = h'" by simp
qed simp

definition data_base :: "string \<Rightarrow> string" where
  "data_base dir = (if dir = [] \<or> last dir = CHR ''/'' then dir else dir @ ''/'')"

lemma data_scope_for_Some:
  assumes "data_scope_for create cid e caller r = Inr (Some dir)"
  shows "\<exists>base. pr_app_data_root r = Some base \<and> keeps_state (re_contract e) \<and> create dir
    \<and> dir = data_base base @ show_nat (unat caller) @ ''/'' @ encoded_id cid"
proof -
  have last: "path_join base (show_nat n) \<noteq> [] \<and> last (path_join base (show_nat n)) \<noteq> CHR ''/''" for base n
    using show_nat_ne [of n] show_nat_no_slash [of n] by (auto simp: path_join_def) (metis last_in_set)+
  from assms obtain base where "pr_app_data_root r = Some base" "keeps_state (re_contract e)" "create dir"
    "dir = path_join (path_join base (show_nat (unat caller))) (encoded_id cid)"
    by (auto simp: data_scope_for_def Let_def split: option.splits if_splits)
  then show ?thesis
    using last [of base "unat caller"] unfolding path_join_def [of "path_join base _"]
    by (auto simp: path_join_def data_base_def)
qed

text \<open>
  Data directories are kept apart.  A capability is given one only if it declares that it
  keeps state; below the root it is the directory of the caller and in it a name that is the
  capability's identifier in hexadecimal digits, so that no identifier reaches outside; and
  two directories are the same only for the same caller and the same capability.
\<close>

theorem data_scopes_separate:
  assumes "data_scope_for create cid e caller r = Inr (Some dir)" "data_scope_for create' cid' e' caller' r = Inr (Some dir')"
  shows "keeps_state (re_contract e)
    \<and> (\<exists>base. pr_app_data_root r = Some base \<and> dir = data_base base @ show_nat (unat caller) @ ''/'' @ encoded_id cid)
    \<and> CHR ''/'' \<notin> set (encoded_id cid) \<and> CHR ''.'' \<notin> set (encoded_id cid)
    \<and> (dir = dir' \<longleftrightarrow> caller = caller' \<and> cid = cid')"
proof -
  have "CHR ''/'' \<notin> set (encoded_id cid)" "CHR ''.'' \<notin> set (encoded_id cid)" using encoded_id_plain by blast+
  moreover obtain base where "pr_app_data_root r = Some base" "keeps_state (re_contract e)"
    "dir = data_base base @ show_nat (unat caller) @ ''/'' @ encoded_id cid"
    "dir' = data_base base @ show_nat (unat caller') @ ''/'' @ encoded_id cid'"
    using data_scope_for_Some [OF assms(1)] data_scope_for_Some [OF assms(2)] by auto
  ultimately show ?thesis
    using split_at_slash [OF show_nat_no_slash show_nat_no_slash, of "unat caller" "encoded_id cid" "unat caller'" "encoded_id cid'"]
    by (auto simp: show_nat_inj encoded_id_inj word_unat_eq_iff)
qed

section \<open>What the registry does not do\<close>

text \<open>The directory of the capability with the empty name is the one all others of the caller are in.\<close>

lemma empty_id_data_scope_contains_others:
  assumes "data_scope_for create [] e caller r = Inr (Some dir)" "data_scope_for create' cid e' caller r = Inr (Some dir')"
  shows "dir' = dir @ encoded_id cid"
proof -
  have "encoded_id [] = []" by (simp add: encoded_id_def as_bytes_def)
  with data_scope_for_Some [OF assms(1)] data_scope_for_Some [OF assms(2)] show ?thesis by auto
qed

text \<open>The sandbox token of a plugin survives the plugin.\<close>

lemma sandbox_token_survives_uninstall:
  assumes "monitor_wf (fst c) (snd c)" "tokens_of pid r = Some ts" "length ts < 2 ^ 64"
    "uninstall now admin pid c r = Some (Inr u, c', r')"
    "hm_get (pr_sandbox_tokens r) pid = Some st" "is_live (snd c) st j"
    "\<forall>x \<in> set ts. ct_token_id st \<notin> subtree (cm_graph (snd c)) (ct_token_id x)"
  shows "hm_get (pr_sandbox_tokens r') pid = Some st \<and> is_live (snd c') st j"
proof -
  from assms(2,4) have rv: "revoke_tokens ts c = Some c'" and "pr_sandbox_tokens r' = pr_sandbox_tokens r"
    by (auto simp: uninstall_def tokens_of_def Let_def split: sum.splits)
  moreover from revoke_tokens_wf [OF assms(1), of ts] rv have "\<forall>i. hm_get (cm_graph (snd c')) i
      = map_option (\<lambda>n. n\<lparr>rn_live_generation := rn_live_generation n + of_nat (reaching (snd c) ts i)\<rparr>) (hm_get (cm_graph (snd c)) i)"
    by auto
  from live_after_revokes [OF this assms(6,3), of j] assms(7) have "is_live (snd c') st j"
    using assms(6) by (auto simp: is_live_def)
  ultimately show ?thesis using assms(5) by simp
qed

text \<open>An update makes the capability of a quarantined plugin available again.\<close>

lemma update_lifts_quarantine:
  assumes "update_validated fs nows admin pid old boundary manifest depth consented c r = Some (Inr grants, c', r')"
    "pm_contributions manifest = [Capability cm]" "pid \<in> pr_quarantined_plugins r"
    "hm_get (pr_registry (remove_registry_and_contributions pid r)) (cm_capability_id cm) = None" "r' \<noteq> r"
  shows "pid \<in> pr_quarantined_plugins r'
    \<and> (\<exists>e. plugin_query (cm_capability_id cm) r' = Some e \<and> described pid cm \<in> set (re_implementations e))"
proof -
  from assms(1) obtain tokens st where
    "r' = (replaced pid (pm_contributions manifest) r)\<lparr>pr_sandbox_tokens := st,
         pr_plugins := hm_insert pid manifest (pr_plugins r), pr_tokens := hm_insert pid tokens (pr_tokens r)\<rparr>"
    by (cases rule: update_validated_cases) (use assms(5) in auto)
  with assms(2-4) show ?thesis
    by (simp add: plugin_query_def replaced_def register_contributions_def register_contribution_def
        register_implementation_def described_def Let_def)
qed

text \<open>
  A quarantine reaches the other implementations of the same capability, and stays when the plugin
  that caused it is gone.
\<close>

lemma quarantine_outlives_plugin:
  assumes "plugins_ok r" "quarantine pid reason r = (Inr u, r1)" "uninstall now admin pid c r1 = Some (Inr u', c', r')"
    "hm_get (pr_registry r) cid = Some e" "pid \<in> set (re_owning_plugins e)"
    "d \<in> set (re_implementations e)" "id_plugin_id d \<noteq> pid"
  shows "plugin_query cid r' = None \<and> implements (pr_registry r') (re_contract e) d"
proof -
  let ?e = "disown pid (e\<lparr>re_install_state := Quarantined\<rparr>)"
  from assms(2) have r1: "hm_get (pr_registry r1) cid = Some (e\<lparr>re_install_state := Quarantined\<rparr>)"
    using assms(4,5) by (auto simp: quarantine_def split: if_splits)
  from plugins_ok_quarantine [OF assms(1,2)] have wf: "hm_wf (pr_registry r1)" by (simp add: plugins_ok_def entries_ok_def)
  from assms(3) have "pr_registry r' = hm_retain (\<lambda>_ entry. re_implementations entry \<noteq> []) (hm_map_values (disown pid) (pr_registry r1))"
    by (auto simp: uninstall_def Let_def remove_registry_and_contributions_def split: sum.splits option.splits)
  moreover have d: "d \<in> set (re_implementations ?e)" using assms(6,7) by (simp add: disown_def)
  then have "re_implementations ?e \<noteq> []" by auto
  ultimately have get: "hm_get (pr_registry r') cid = Some ?e" by (simp add: hm_retain_map_get [OF wf] r1)
  from implementsI [OF this d] have "implements (pr_registry r') (re_contract e) d" by (simp add: disown_def)
  with get show ?thesis by (simp add: plugin_query_def disown_def)
qed

text \<open>
  An update whose last step fails, the derivation of a token for the sandbox, has replaced the
  contributions by then, while the manifest of the plugin is still the old one.
\<close>

lemma failed_update_replaces_contributions:
  assumes "depth_rank (pm_min_trust_depth manifest) \<le> depth_rank depth"
    "validate_contributions fs (pm_contributions manifest) = Inr ()"
    "pm_requested_permissions manifest = []" "pm_requested_permissions old = []" "needs_sandbox_token manifest"
    "hm_get (pr_plugins r) pid = Some old" "hm_get (pr_sandbox_tokens r) pid = None"
    "plugin_derive admin (READ OR WRITE) boundary (nows 0) c = (Inl e, c')"
  shows "\<exists>r'. update_validated fs nows admin pid old boundary manifest depth consented c r = Some (Inl e, c', r')
    \<and> hm_get (pr_plugins r') pid = Some old
    \<and> (\<forall>cm. Capability cm \<in> set (pm_contributions manifest) \<longrightarrow> implements (pr_registry r') (cm_contract cm) (described pid cm))"
  using assms
  by (simp add: update_validated_def Let_def new_grants_def not_less register_contributions_registry fold_register_adds set_capabilities)

text \<open>
  The program of an implementation that is not declared native is not validated, but a run starts
  it when the plugin has a token for the sandbox.
\<close>

lemma unvalidated_program_runs:
  assumes "cm_implementation_kind cm = LocalSmallModel" "cm_native_binary cm = Some native"
    "plugin_query cid r = Some e" "re_implementations e = [described pid cm]" "\<not> keeps_state (re_contract e)"
    "hm_get (pr_sandbox_tokens r) pid = Some token" "hm_get (pr_plugins r) pid = Some manifest"
    "sb_tempdir io = Some dir" "sb_write_input io args"
  shows "validate_contributions fs [Capability cm] = Inr ()
    \<and> ((\<forall>grant arguments. \<not> sb_spawn io grant (nb_program native) arguments)
         \<longrightarrow> invoke_native_binary io cid args caller r = Some (Inl (ExecutionFailed NotSpawned)))"
proof -
  have native: "id_native_binary (described pid cm) = Some native"
    using assms(2) by (simp add: described_def register_implementation_def Let_def)
  have "data_scope_for create cid e caller r = Inr None" for create
    using assms(5) by (simp add: data_scope_for_def split: option.splits)
  with assms native show ?thesis by (simp add: invoke_native_binary_def Let_def)
qed

section \<open>A small registry, for the witnesses\<close>

definition demo_plugin_fs :: plugin_fs where
  "demo_plugin_fs = \<lparr>fs_metadata_mode = (\<lambda>_. Some 73), fs_symlink_is_file = (\<lambda>_. Some True)\<rparr>"

definition demo_verify :: "u8 list \<Rightarrow> unit \<Rightarrow> unit \<Rightarrow> bool" where
  "demo_verify = (\<lambda>_ _ _. True)"

definition demo_installed :: "(PluginError, plugin_handle) result \<times> cap_state \<times> unit plugin_registry" where
  "demo_installed = plugin_install demo_verify demo_plugin_fs 5 (\<lambda>_. 5) demo_root (demo_manifest 0 ''a'') D2 True ()
     (3, demo_monitor) (new_with_app_data ''/d'')"

lemma plugin_derive_live:
  assumes "is_live (snd c) admin now" "contains (ct_rights admin) rights"
  shows "\<exists>t c'. plugin_derive admin rights b now c = (Inr t, c')"
proof -
  have "check_live (snd c) admin now = Inr ()" using assms(1) by (simp add: check_live_iff)
  with assms(2) show ?thesis by (simp add: plugin_derive_def cap_derive_def Let_def split: prod.splits)
qed

lemma demo_live: "is_live demo_monitor demo_root now"
  by (simp add: is_live_def matches_record_def live_generation_def is_expired_def demo_defs)

lemma demo_contains: "contains (ct_rights demo_root) WRITE" "contains (ct_rights demo_root) (READ OR WRITE)"
  by (simp_all add: demo_root_def contains_def rights_defs)

lemma demo_install_ok:
  "\<exists>c' r'. demo_installed = (Inr \<lparr>ph_plugin_id = 1, ph_boundary = 1000001\<rparr>, c', r')"
proof -
  have wf: "cap_wf (3, demo_monitor)" "fst (3 :: u64, demo_monitor) \<noteq> - 1" using demo_monitor_wf by simp_all
  from plugin_derive_live [of "(3, demo_monitor)" demo_root 5 WRITE 1000001] demo_live demo_contains
  obtain t c1 where d1: "plugin_derive demo_root WRITE 1000001 5 (3, demo_monitor) = (Inr t, c1)" by auto
  have "elder (3, demo_monitor) demo_root" by (simp add: elder_def demo_root_def)
  then have "is_live (snd c1) demo_root 5" using plugin_derive_Inr(7) [OF d1 wf] demo_live by simp
  from plugin_derive_live [OF this demo_contains(2), of 1000001] obtain t' c2 where
    d2: "plugin_derive demo_root (READ OR WRITE) 1000001 5 c1 = (Inr t', c2)" by blast
  have v: "validate_manifest demo_verify (demo_manifest 0 ''a'') () = Inr ()"
    by (simp add: validate_manifest_def verify_manifest_signature_def demo_manifest_def demo_verify_def
        check_permission_overreach_def justifies_def contract_requires_def)
  have f: "validate_contributions demo_plugin_fs (pm_contributions (demo_manifest 0 ''a'')) = Inr ()"
    by (simp add: demo_manifest_def validate_native_binary_def demo_plugin_fs_def)
  have s: "needs_sandbox_token (demo_manifest 0 ''a'')"
    by (simp add: demo_manifest_def needs_sandbox_token_def)
  have m: "mint_requested (\<lambda>_. 5) demo_root 1000001 (pm_requested_permissions (demo_manifest 0 ''a'')) (3, demo_monitor) = (Inr [t], c1)"
    by (simp add: demo_manifest_def rights_for_def d1)
  have g: "plugin_require (3, demo_monitor) demo_root GRANT 5 = Inr ()" by (simp add: plugin_require_def)
  have "depth_rank (pm_min_trust_depth (demo_manifest 0 ''a'')) \<le> depth_rank D2" by (simp add: demo_manifest_def depth_rank_def)
  with v f s m g d2 show ?thesis
    by (simp add: demo_installed_def plugin_install_def and_then_def install_validated_def new_with_app_data_def
        plugin_registry_new_def Let_def)
qed


theorem plugin_registry_consistent_witness:
  "\<exists>c' r' e. demo_installed = (Inr \<lparr>ph_plugin_id = 1, ph_boundary = 1000001\<rparr>, c', r')
    \<and> hm_get (pr_registry r') ''c'' = Some e \<and> re_owning_plugins e = map id_plugin_id (re_implementations e)
    \<and> (\<forall>d \<in> set (re_implementations e). hm_get (pr_plugins r') (id_plugin_id d) \<noteq> None)"
proof -
  obtain c' r' where i: "demo_installed = (Inr \<lparr>ph_plugin_id = 1, ph_boundary = 1000001\<rparr>, c', r')"
    using demo_install_ok by blast
  have run: "plugin_run demo_verify c' r'"
    by (rule run_install [OF run_new_with_data _ i [unfolded demo_installed_def]])
      (simp add: new_with_app_data_def plugin_registry_new_def)
  from i have "install_validated demo_plugin_fs (\<lambda>_. 5) demo_root (demo_manifest 0 ''a'') D2 True (3, demo_monitor)
      (new_with_app_data ''/d'') = (Inr \<lparr>ph_plugin_id = 1, ph_boundary = 1000001\<rparr>, c', r')"
    by (auto simp: demo_installed_def plugin_install_def split: sum.splits)
  then have "\<exists>e. hm_get (pr_registry r') ''c'' = Some e"
    by (rule install_validated_Inr) (auto simp: register_contributions_registry capabilities_def demo_manifest_def
        register_implementation_def new_with_app_data_def plugin_registry_new_def Let_def)
  then obtain e where e: "hm_get (pr_registry r') ''c'' = Some e" by blast
  from plugin_registry_consistent [OF run, THEN conjunct1] e i show ?thesis by blast
qed

end
