(* ===== verification/Spec2Isabelle.thy ===== *)
theory Spec2Isabelle
  imports Storage Wire_Token Events AI_Runtime Model_Router Scheduler Ipc Erasure
    Plugin_Safety
begin

text \<open>
  Verification of HyperionOS.

  HyperionOS is an operating system built of Rust crates (\<open>src/crates\<close>).  At the bottom are
  capability tokens, without which no other part acts; a storage engine over a write-ahead log; an
  event bus; an inter-process communication framework; a scheduler of resources; and a runtime for
  language models with a router in front of it.  On the storage engine and the event bus stands the
  knowledge graph, in which all user data lives, and on the graph the recovery service
  and the erasure of data.  Plugins add capabilities, and hold tokens derived for them when they are
  installed.  Every call of an upper part carries a token that the capability monitor checks first.

  \<^bold>\<open>Conventions of the model.\<close>  A struct is a record, an enum a datatype, a fixed-width integer a word,
  so that arithmetic wraps, saturates or is checked as the source says.  A hash map is a list of
  entries with distinct keys whose order is arbitrary (theory Prelude), a \<open>Result\<close> a sum with the error
  on the left.  A method that mutates takes the state and returns it.  The clock, the random numbers
  and the outcome of each input or output operation are arguments.  A theorem whose conclusion
  depends on these outcomes names the ones it assumes: durability (Storage, Graph_Durability) leaves
  out writes cut short, failed syncs and a failed reopening after a rewrite, after which the file and
  the running program do disagree; lemmas on torn writes and failed reopenings say how.  Code outside the repository is a parameter with its documented laws as named hypotheses: the
  JSON codec and the cipher (\<open>codec_ok\<close>), signature schemes, text generation, hashing.  A call that
  blocks for ever is the value None.  Floating-point numbers are idealised as rationals or reals.

  \<^bold>\<open>Theories, in the order in which they build on each other.\<close>

  \<^item> Prelude: results, hash maps and their interface, saturating arithmetic, lists.
  \<^item> Capability: \<open>hyperion-capability\<close>, files \<open>monitor.rs\<close>, \<open>revocation.rs\<close>, \<open>table.rs\<close>, \<open>token.rs\<close>,
    \<open>types.rs\<close>.  Minting, derivation, checks, cascading revocation (a work-list loop, shown to end) and
    capability tables.  A token passes a check exactly when it was issued, not revoked and not
    expired and has the right; derivation never amplifies.
  \<^item> Wire_Token: \<open>wire.rs\<close>.  Canonical bytes, signing and both ways of authenticating.
  \<^item> Wal and Storage: \<open>hyperion-storage\<close> and \<open>hyperion-crypto/src/sealed_stream.rs\<close>.  The log at the level of
    bytes, torn writes, replay; the engine's compare-and-swap writes, compaction and purge.  An
    engine opened on the file is the engine that wrote it.
  \<^item> Events: \<open>hyperion-events\<close>.  Publishing and delivery under the four overflow policies, durable
    subscriptions and replay.  The order in a mailbox is shown for calls made one after the other; that
    overlapping publishes can break it is shown too.
  \<^item> AI_Runtime and Model_Router: \<open>hyperion-ai-runtime\<close> (registry, residency, inference) and
    \<open>hyperion-model-router\<close> (circuit breaker, gates, scores, fallbacks).
  \<^item> Scheduler: \<open>hyperion-scheduler\<close>.  Ledgers, admission, epochs with degradation and offloading.  The
    balance of the books is shown for clients that reuse no identifier in use and register a resource
    once; what happens otherwise are lemmas of their own.
  \<^item> Ipc: \<open>hyperion-ipc\<close>.  Channels, frames, shared regions, calls and answers.  A run carries the
    history of what was opened and sent, to which an accepted call is traced back.
  \<^item> Graph_Index, Knowledge_Graph: \<open>hyperion-knowledge-graph\<close>.  The index, ranking, breadth-first
    traversal, every operation of \<open>graph.rs\<close>, import and export.
  \<^item> Graph_Safety, Graph_Durability: each call is a sequence of elementary changes; isolation of
    trust boundaries, permanence of deletion, and agreement of the index with the log.
  \<^item> Recovery, Recovery_Safety: \<open>hyperion-recovery\<close>.  Recovery points, the journal of actions, undo,
    redo, crash recovery and retention.
  \<^item> Consent: \<open>hyperion-privacy\<close>, files \<open>types.rs\<close>, \<open>consent.rs\<close>, \<open>routing.rs\<close>.  Residency tags, the ledger of
    signed grants, and the decision whether a call may leave the device.
  \<^item> Erasure: \<open>hyperion-privacy/src/erasure.rs\<close>.  Soft deletion that the recovery service can undo,
    shredding of a node with its history, and the sweep of lapsed deletions.
  \<^item> Encoding: the length-prefixed encodings that signed bytes are made of, with the interface
    \<open>prefix_code\<close> under which a sequence of them can be read back.
  \<^item> Plugin_Review, Plugin_Registry, Plugin_Safety: \<open>hyperion-plugin-framework\<close> and
    \<open>hyperion-crypto/src/publisher_registry.rs\<close>.  Manifests and what their signatures cover; installation,
    update, removal and quarantine; the run of a native binary.  An installed plugin holds exactly the
    reviewed permissions, the registry stays consistent, removal ends a plugin's tokens, and data
    directories are separate.

  \<^bold>\<open>How the parts are composed.\<close>  Knowledge_Graph calls the definitions of Storage, Events and
  Capability, Recovery those of Knowledge_Graph, and Erasure those of both, in the order in which the
  source calls them; nothing is re-specified in between.  Theorems about a part are stated for the states that the
  inductive relations \<open>cap_reachable\<close>, \<open>ipc_reach\<close>, \<open>sched_reach\<close>, \<open>kg_run\<close>, \<open>recovery_run\<close> and
  \<open>plugin_run\<close> reach by the operations of their parts, with anybody's calls interleaved; their rules say
  what is asked of the callers.

  \<^bold>\<open>Bounds.\<close>  Loops are structural recursion or have a termination proof; the only fuel is that of the
  graph traversal, whose depth argument bounds it in the source as well, and the wait for a sandboxed
  process runs over the list of its polls.  Where a 64-bit counter
  could come round, the hypothesis says that it has not.

  \<^bold>\<open>Not modelled.\<close>  Locks (operations are taken as atomic except where the source releases a lock
  between steps, as in \<open>publish\<close>), wall-clock monotonicity, rounding of floating-point numbers, and the
  parts whose substance is input and output or foreign code: sockets and handshakes of the IPC
  transport, inference backends, the console, the shell, init, process sandboxes, control groups, HTTP
  and HTML.  Parts that only compose others (console session, turn pipeline, coordination, gateway)
  are not modelled either.  The memory engine and the agent runtime appear as the operations the recovery
  service calls of them.
\<close>

end
